(* ===== verification/Prelude.thy ===== *)
theory Prelude
  imports Main "HOL-Library.Product_Lexorder"
begin

text \<open>
  Shared vocabulary of the development: the proof collections the components feed, the pieces of
  the C++ standard library that several components call (\<^verbatim>\<open>std::lower_bound\<close>,
  \<^verbatim>\<open>std::merge\<close>, \<^verbatim>\<open>std::unique\<close>, insertion and
  erasure at an iterator) and the generic list facts their proofs share.

  An iterator into a vector is the index it points at, and a pair of iterators is a pair of
  indices. The binary searches of the standard library are modelled by their documented result on
  a partitioned sequence, the partition point.
\<close>

named_theorems wf_simps \<open>unfolding of well-formedness predicates\<close>
named_theorems inv_intros \<open>operations that keep an invariant\<close>

subsection \<open>Partition points\<close>

text \<open>
  \<^verbatim>\<open>std::lower_bound(first, last, v, cmp)\<close> on a sequence partitioned by
  \<^verbatim>\<open>cmp(_, v)\<close>: the number of leading elements that satisfy it.
  \<^verbatim>\<open>std::upper_bound\<close> is the partition point of the negated comparison.
\<close>

definition partition_point :: "('a \<Rightarrow> bool) \<Rightarrow> 'a list \<Rightarrow> nat" where
  "partition_point P xs = length (takeWhile P xs)"

lemma partition_point_le [simp]: "partition_point P xs \<le> length xs"
  by (simp add: partition_point_def length_takeWhile_le)

lemma take_partition_point [simp]: "take (partition_point P xs) xs = takeWhile P xs"
  by (simp add: partition_point_def takeWhile_eq_take [symmetric])

lemma drop_partition_point [simp]: "drop (partition_point P xs) xs = dropWhile P xs"
  by (simp add: partition_point_def dropWhile_eq_drop [symmetric])

lemma partition_point_mono:
  "(\<And>x. x \<in> set xs \<Longrightarrow> P x \<Longrightarrow> Q x) \<Longrightarrow> partition_point P xs \<le> partition_point Q xs"
  by (induction xs) (auto simp: partition_point_def)

lemma takeWhile_all: "x \<in> set (takeWhile P xs) \<Longrightarrow> P x"
  by (rule set_takeWhileD [THEN conjunct2])

text \<open>On a partitioned list everything from the partition point on fails the test.\<close>

lemma dropWhile_none:
  assumes "sorted_wrt (\<lambda>a b. P b \<longrightarrow> P a) xs" and "x \<in> set (dropWhile P xs)"
  shows "\<not> P x"
  using assms by (induction xs) (auto split: if_splits)

lemma takeWhile_sorted:
  assumes "sorted_wrt (\<lambda>a b. P b \<longrightarrow> P a) xs"
  shows "takeWhile P xs = filter P xs"
  using assms by (induction xs) (auto simp: filter_empty_conv)

lemma find_append:
  "find P (xs @ ys) = (case find P xs of None \<Rightarrow> find P ys | Some x \<Rightarrow> Some x)"
  by (induction xs) auto

lemma find_mid:
  "find P xs = None \<Longrightarrow> find P zs = None \<Longrightarrow> find P (xs @ ys @ zs) = find P ys"
  by (simp add: find_append split: option.splits)

lemma partition_point_nth: "n < partition_point P xs \<Longrightarrow> P (xs ! n)"
  by (metis nth_mem partition_point_def takeWhile_all takeWhile_nth)

subsection \<open>Insertion and erasure at an index\<close>

definition insert_at :: "nat \<Rightarrow> 'a \<Rightarrow> 'a list \<Rightarrow> 'a list" where
  "insert_at i x xs = take i xs @ x # drop i xs"

definition erase_at :: "nat \<Rightarrow> 'a list \<Rightarrow> 'a list" where
  "erase_at i xs = take i xs @ drop (Suc i) xs"

lemma set_insert_at [simp]: "set (insert_at i x xs) = insert x (set xs)"
  by (metis Un_insert_right append_take_drop_id insert_at_def list.simps(15) set_append)

lemma length_insert_at [simp]: "length (insert_at i x xs) = Suc (length xs)"
  by (simp add: insert_at_def min_def)

lemma set_erase_at_subset: "set (erase_at i xs) \<subseteq> set xs"
  unfolding erase_at_def by (auto dest: in_set_takeD in_set_dropD)

lemma take_cut_drop:
  assumes "a \<le> b"
  shows "take a q @ drop a (take b q) @ drop b q = q"
  using assms by (metis append.assoc append_take_drop_id min.absorb1 take_take)

subsection \<open>Sequences ordered by a strict predicate\<close>

lemma sorted_wrt_drop_mid: "sorted_wrt R (xs @ ys @ zs) \<Longrightarrow> sorted_wrt R (xs @ zs)"
  by (auto simp: sorted_wrt_append)

lemma sorted_wrt_filter: "sorted_wrt R xs \<Longrightarrow> sorted_wrt R (filter P xs)"
  by (induction xs) auto

subsection \<open>Sorted merge and removal of adjacent duplicates, by a key\<close>

text \<open>
  \<^verbatim>\<open>std::merge\<close> takes from the second range only when its head is strictly
  smaller, and \<^verbatim>\<open>std::unique\<close> keeps the first element of each run of equal ones.
\<close>

fun merge_by :: "('a \<Rightarrow> 'k::linorder) \<Rightarrow> 'a list \<Rightarrow> 'a list \<Rightarrow> 'a list" where
  "merge_by f [] ys = ys"
| "merge_by f (x # xs) [] = x # xs"
| "merge_by f (x # xs) (y # ys) =
     (if f y < f x then y # merge_by f (x # xs) ys else x # merge_by f xs (y # ys))"

fun unique_by :: "('a \<Rightarrow> 'k) \<Rightarrow> 'a list \<Rightarrow> 'a list" where
  "unique_by f [] = []"
| "unique_by f [x] = [x]"
| "unique_by f (x # y # ys) =
     (if f x = f y then unique_by f (x # ys) else x # unique_by f (y # ys))"

lemma set_merge_by [simp]: "set (merge_by f xs ys) = set xs \<union> set ys"
  by (induction f xs ys rule: merge_by.induct) auto

lemma sorted_merge_by:
  "sorted (map f xs) \<Longrightarrow> sorted (map f ys) \<Longrightarrow> sorted (map f (merge_by f xs ys))"
  by (induction f xs ys rule: merge_by.induct) auto

lemma unique_by_keys [simp]: "f ` set (unique_by f xs) = f ` set xs"
  by (induction f xs rule: unique_by.induct) auto

lemma set_unique_by: "set (unique_by f xs) \<subseteq> set xs"
  by (induction f xs rule: unique_by.induct) auto

lemma unique_by_Nil [simp]: "unique_by f xs = [] \<longleftrightarrow> xs = []"
  by (induction f xs rule: unique_by.induct) auto

lemma strict_sorted_unique_by:
  "sorted (map f xs) \<Longrightarrow> sorted_wrt (<) (map (f :: _ \<Rightarrow> 'k::linorder) (unique_by f xs))"
proof (induction f xs rule: unique_by.induct)
  case (3 f x y ys)
  show ?case
  proof (cases "f x = f y")
    case True
    with 3 show ?thesis by auto
  next
    case False
    with "3.prems" have "\<forall>z \<in> set (y # ys). f x < f z" by fastforce
    then have "\<forall>k \<in> f ` set (unique_by f (y # ys)). f x < k"
      by (metis (no_types) imageE unique_by_keys)
    with False 3 show ?thesis by auto
  qed
qed auto

subsection \<open>Searching a list sorted by strictly increasing keys\<close>

text \<open>
  The two idioms of the source on sorted vectors: a binary search that tests the element it lands
  on, and the erasure of that element. They are membership and removal by key.
\<close>

lemma partition_point_simps [simp]:
  "partition_point P [] = 0"
  "partition_point P (x # xs) = (if P x then Suc (partition_point P xs) else 0)"
  by (simp_all add: partition_point_def)

lemma search_key:
  assumes "sorted_wrt (<) (map f xs)"
  shows "(let i = partition_point (\<lambda>x. f x < k) xs in i < length xs \<and> \<not> (k::'k::linorder) < f (xs ! i))
     \<longleftrightarrow> k \<in> f ` set xs"
  using assms by (induction xs) (auto simp: Let_def)

lemma erase_key:
  assumes "sorted_wrt (<) (map f xs)"
  shows "(let i = partition_point (\<lambda>x. f x < (k::'k::linorder)) xs
          in if i < length xs \<and> f (xs ! i) = k then erase_at i xs else xs)
       = filter (\<lambda>x. f x \<noteq> k) xs"
  using assms
proof (induction xs)
  case (Cons x xs)
  have "filter (\<lambda>y. f y \<noteq> k) xs = xs" if "k \<le> f x"
    using that Cons.prems by (auto simp: filter_id_conv)
  with Cons show ?case
    by (auto simp: Let_def erase_at_def split: if_splits)
qed (simp add: erase_at_def Let_def)

subsection \<open>Loops that may fail\<close>

fun fold_opt :: "('s \<Rightarrow> 'a \<Rightarrow> 's option) \<Rightarrow> 's \<Rightarrow> 'a list \<Rightarrow> 's option" where
  "fold_opt f s [] = Some s"
| "fold_opt f s (x # xs) = (case f s x of None \<Rightarrow> None | Some s' \<Rightarrow> fold_opt f s' xs)"

lemma fold_opt_append:
  "fold_opt f s (xs @ ys) = (case fold_opt f s xs of None \<Rightarrow> None | Some s' \<Rightarrow> fold_opt f s' ys)"
  by (induction xs arbitrary: s) (auto split: option.splits)

lemma fold_opt_invariant:
  assumes "\<And>s x. x \<in> set xs \<Longrightarrow> I s \<Longrightarrow> \<exists>s'. f s x = Some s' \<and> I s'" and "I s"
  shows "\<exists>s'. fold_opt f s xs = Some s' \<and> I s'"
  using assms
proof (induction xs arbitrary: s)
  case (Cons x xs)
  from Cons.prems(1) [of x s] Cons.prems(2) obtain s' where s': "f s x = Some s'" "I s'" by auto
  have "\<exists>s''. fold_opt f s' xs = Some s'' \<and> I s''"
    using Cons.prems(1) s'(2) by (intro Cons.IH) auto
  with s'(1) show ?case by simp
qed simp

end
