(* ===== verification/LockRanges.thy ===== *)
theory LockRanges
  imports Prelude
begin

text \<open>
  Byte-range locks of one inode: \<^verbatim>\<open>LockRange\<close> and \<^verbatim>\<open>LockRanges\<close> of
  \<^verbatim>\<open>src/src/master/locks.h\<close> and \<^verbatim>\<open>locks.cc\<close>. A set of locks is a vector of
  half-open ranges, sorted by start and pairwise disjoint, each with the set of its owners.

  Offsets and identifiers are only compared and copied by this code, never added, so they are
  natural numbers here. A failed \<^verbatim>\<open>assert\<close> and an iterator range whose first
  iterator lies behind its last one (undefined behaviour) are the value \<^const>\<open>None\<close>.
\<close>

section \<open>Lock ranges\<close>

record lock_owner =
  ow_owner :: nat
  ow_sessionid :: nat
  ow_reqid :: nat
  ow_msgid :: nat

type_synonym owner_key = "nat \<times> nat"

definition okey :: "lock_owner \<Rightarrow> owner_key" where
  "okey a = (ow_owner a, ow_sessionid a)"

definition owner_eq :: "lock_owner \<Rightarrow> lock_owner \<Rightarrow> bool" where
  "owner_eq a b \<longleftrightarrow> ow_owner a = ow_owner b \<and> ow_sessionid a = ow_sessionid b"

definition owner_less :: "lock_owner \<Rightarrow> lock_owner \<Rightarrow> bool" where
  "owner_less a b \<longleftrightarrow> ow_owner a < ow_owner b
     \<or> (ow_owner a = ow_owner b \<and> ow_sessionid a < ow_sessionid b)"

datatype lock_type = kInvalid | kUnlock | kShared | kExclusive

record lock_range =
  lr_type :: lock_type
  lr_start :: nat
  lr_end :: nat
  lr_owners :: "lock_owner list"

definition LockRange :: "lock_type \<Rightarrow> nat \<Rightarrow> nat \<Rightarrow> lock_owner \<Rightarrow> lock_range" where
  "LockRange t s e first = \<lparr>lr_type = t, lr_start = s, lr_end = e, lr_owners = [first]\<rparr>"

definition overlaps :: "lock_range \<Rightarrow> lock_range \<Rightarrow> bool" where
  "overlaps r other \<longleftrightarrow> lr_start r < lr_end other \<and> lr_start other < lr_end r"

definition sticks :: "lock_range \<Rightarrow> lock_range \<Rightarrow> bool" where
  "sticks r other \<longleftrightarrow> lr_start r = lr_end other \<or> lr_start other = lr_end r"

definition shared :: "lock_range \<Rightarrow> bool" where
  "shared r \<longleftrightarrow> lr_type r = kShared"

definition unlocking :: "lock_range \<Rightarrow> bool" where
  "unlocking r \<longleftrightarrow> lr_type r = kUnlock \<or> length (lr_owners r) = 0"

definition markUnlocking :: "lock_range \<Rightarrow> lock_range" where
  "markUnlocking r = r\<lparr>lr_type := kUnlock\<rparr>"

text \<open>\<^verbatim>\<open>LockRange::owner\<close> asserts that the range has exactly one owner.\<close>

definition the_owner :: "lock_range \<Rightarrow> lock_owner option" where
  "the_owner r = (if length (lr_owners r) = 1 then Some (hd (lr_owners r)) else None)"

definition owners_eq :: "lock_owner list \<Rightarrow> lock_owner list \<Rightarrow> bool" where
  "owners_eq xs ys \<longleftrightarrow> length xs = length ys \<and> list_all2 owner_eq xs ys"

definition hasOwner :: "lock_range \<Rightarrow> lock_owner \<Rightarrow> bool" where
  "hasOwner r c = (let i = partition_point (\<lambda>o'. owner_less o' c) (lr_owners r)
     in i < length (lr_owners r) \<and> \<not> owner_less c (lr_owners r ! i))"

definition eraseOwner :: "lock_range \<Rightarrow> lock_owner \<Rightarrow> lock_range" where
  "eraseOwner r c = (let i = partition_point (\<lambda>o'. owner_less o' c) (lr_owners r)
     in if i < length (lr_owners r) \<and> owner_eq (lr_owners r ! i) c
        then r\<lparr>lr_owners := erase_at i (lr_owners r)\<rparr> else r)"

definition addOwners :: "lock_range \<Rightarrow> lock_owner list \<Rightarrow> lock_range" where
  "addOwners r other = r\<lparr>lr_owners := unique_by okey (merge_by okey (lr_owners r) other)\<rparr>"

section \<open>Sets of lock ranges\<close>

type_synonym lock_ranges = "lock_range list"

text \<open>
  The index range both operations scan: from one element before the first that starts at or after
  the range, to the first that starts strictly after its end.
\<close>

definition scan_start :: "lock_ranges \<Rightarrow> nat \<Rightarrow> nat" where
  "scan_start d s = (let i = partition_point (\<lambda>other. lr_start other < s) d
     in if i \<noteq> 0 then i - 1 else i)"

definition scan_end :: "lock_ranges \<Rightarrow> nat \<Rightarrow> nat" where
  "scan_end d e = partition_point (\<lambda>other. \<not> e < lr_start other) d"

definition collides :: "lock_range \<Rightarrow> lock_range \<Rightarrow> bool" where
  "collides r other \<longleftrightarrow> overlaps r other
     \<and> ((\<not> shared r \<or> \<not> shared other) \<and> \<not> owners_eq (lr_owners other) (lr_owners r))"

text \<open>
  \<^verbatim>\<open>findCollision\<close>: the loop runs over \<open>[start, end)\<close>; the outer option is
  \<^const>\<open>None\<close> when \<open>start\<close> lies behind \<open>end\<close>.
\<close>

definition findCollision :: "lock_ranges \<Rightarrow> lock_range \<Rightarrow> lock_range option option" where
  "findCollision d r =
     (if unlocking r then Some None
      else let start = scan_start d (lr_start r); end' = scan_end d (lr_end r)
        in if end' < start then None
           else Some (find (collides r) (drop start (take end' d))))"

definition fits :: "lock_ranges \<Rightarrow> lock_range \<Rightarrow> bool option" where
  "fits d r = map_option (\<lambda>c. c = None) (findCollision d r)"

text \<open>The change \<^verbatim>\<open>insert\<close> makes to (a copy of) an overlapped range.\<close>

definition take_over :: "lock_range \<Rightarrow> bool \<Rightarrow> lock_range \<Rightarrow> lock_range option" where
  "take_over r same_owners other =
     (if same_owners then Some (other\<lparr>lr_type := lr_type r\<rparr>)
      else if unlocking r then map_option (eraseOwner other) (the_owner r)
      else Some (addOwners other (lr_owners r)))"

text \<open>
  The loop of \<^verbatim>\<open>LockRanges::insert\<close>. Its iterator splits the scanned window into
  the part behind it (\<open>dn\<close>) and the part ahead (\<open>rest\<close>); inserting at the iterator and
  advancing it puts the new element behind it and leaves the current one ahead.
\<close>

definition insert_measure :: "lock_ranges \<Rightarrow> lock_range \<Rightarrow> nat" where
  "insert_measure rest r =
     (if rest = [] \<or> lr_end r \<le> lr_start r then 0
      else 2 * length rest + (if lr_start (hd rest) = lr_start r then 0 else 1))"

function insert_loop ::
  "lock_ranges \<Rightarrow> lock_ranges \<Rightarrow> lock_range \<Rightarrow> (lock_ranges \<times> lock_ranges \<times> lock_range) option" where
  "insert_loop dn [] r = Some (dn, [], r)"
| "insert_loop dn (other # rs) r =
     (if \<not> lr_end r > lr_start r then Some (dn, other # rs, r)
      else let same_owners = owners_eq (lr_owners r) (lr_owners other) in
      if sticks r other \<and> same_owners \<and> lr_type r = lr_type other
      then insert_loop (dn @ [markUnlocking other]) rs
             (r\<lparr>lr_start := min (lr_start r) (lr_start other),
                lr_end := max (lr_end r) (lr_end other)\<rparr>)
      else if lr_end r \<le> lr_start other then Some (dn, other # rs, r)
      else if \<not> overlaps r other then insert_loop (dn @ [other]) rs r
      else if \<not> (same_owners \<or> (shared r \<and> shared other) \<or> unlocking r) then None
      else if lr_start r < lr_start other
      then insert_loop (dn @ [r\<lparr>lr_end := lr_start other\<rparr>]) (other # rs)
             (r\<lparr>lr_start := lr_start other\<rparr>)
      else if lr_start r = lr_start other
      then if lr_end r < lr_end other
           then case take_over r same_owners (other\<lparr>lr_end := lr_end r\<rparr>) of
                  None \<Rightarrow> None
                | Some tmp \<Rightarrow> insert_loop (dn @ [tmp]) (other\<lparr>lr_start := lr_end r\<rparr> # rs)
                                (r\<lparr>lr_start := lr_end other\<rparr>)
           else case take_over r same_owners other of
                  None \<Rightarrow> None
                | Some other' \<Rightarrow> insert_loop (dn @ [other']) rs (r\<lparr>lr_start := lr_end other\<rparr>)
      else insert_loop (dn @ [other\<lparr>lr_end := lr_start r\<rparr>])
             (other\<lparr>lr_start := lr_start r\<rparr> # rs) r)"
  by pat_completeness auto

termination
  by (relation "measure (\<lambda>(dn, rest, r). insert_measure rest r)")
     (auto simp: insert_measure_def)

definition insert_range :: "lock_ranges \<Rightarrow> lock_range \<Rightarrow> lock_ranges option" where
  "insert_range d r =
     (let start = scan_start d (lr_start r); end' = scan_end d (lr_end r)
      in if end' < start then None
         else case insert_loop [] (drop start (take end' d)) r of
                None \<Rightarrow> None
              | Some (dn, rest, r') \<Rightarrow>
                  let window = (if lr_end r' > lr_start r' then dn @ r' # rest else dn @ rest)
                  in Some (take start d @ filter (\<lambda>x. \<not> unlocking x) window @ drop end' d))"

section \<open>Owners\<close>

lemma owner_less_okey [simp]: "owner_less a b \<longleftrightarrow> okey a < okey b"
  by (auto simp: owner_less_def okey_def less_prod_def')

lemma owner_eq_okey [simp]: "owner_eq a b \<longleftrightarrow> okey a = okey b"
  by (auto simp: owner_eq_def okey_def)

lemma owners_eq_okey [simp]: "owners_eq xs ys \<longleftrightarrow> map okey xs = map okey ys"
  unfolding owners_eq_def list.rel_eq [symmetric] list.rel_map
  by (auto dest: list_all2_lengthD elim: list_all2_mono)

definition keys :: "lock_range \<Rightarrow> owner_key set" where
  "keys r = okey ` set (lr_owners r)"

definition sorted_owners :: "lock_range \<Rightarrow> bool" where
  "sorted_owners r \<longleftrightarrow> sorted_wrt (<) (map okey (lr_owners r))"

lemma keys_update [simp]:
  "keys (r\<lparr>lr_type := t\<rparr>) = keys r" "keys (r\<lparr>lr_start := s\<rparr>) = keys r"
  "keys (r\<lparr>lr_end := e\<rparr>) = keys r"
  by (simp_all add: keys_def)

lemma sorted_owners_update [simp]:
  "sorted_owners (r\<lparr>lr_type := t\<rparr>) = sorted_owners r"
  "sorted_owners (r\<lparr>lr_start := s\<rparr>) = sorted_owners r"
  "sorted_owners (r\<lparr>lr_end := e\<rparr>) = sorted_owners r"
  by (simp_all add: sorted_owners_def)

lemma hasOwner_iff: "sorted_owners r \<Longrightarrow> hasOwner r c \<longleftrightarrow> okey c \<in> keys r"
  using search_key [of okey "lr_owners r" "okey c"]
  by (simp add: hasOwner_def sorted_owners_def keys_def)

lemma eraseOwner_filter:
  "sorted_owners r \<Longrightarrow>
     eraseOwner r c = r\<lparr>lr_owners := filter (\<lambda>x. okey x \<noteq> okey c) (lr_owners r)\<rparr>"
  using erase_key [of okey "lr_owners r" "okey c"]
  by (auto simp: eraseOwner_def sorted_owners_def Let_def split: if_splits)

lemma eraseOwner_fields [simp]:
  "lr_start (eraseOwner r c) = lr_start r" "lr_end (eraseOwner r c) = lr_end r"
  "lr_type (eraseOwner r c) = lr_type r"
  by (simp_all add: eraseOwner_def Let_def)

lemma addOwners_fields [simp]:
  "lr_start (addOwners r os) = lr_start r" "lr_end (addOwners r os) = lr_end r"
  "lr_type (addOwners r os) = lr_type r"
  by (simp_all add: addOwners_def)

lemma sorted_eraseOwner [simp]: "sorted_owners r \<Longrightarrow> sorted_owners (eraseOwner r c)"
  by (simp add: eraseOwner_filter)
     (simp add: sorted_owners_def sorted_wrt_map sorted_wrt_filter)

lemma keys_eraseOwner [simp]: "sorted_owners r \<Longrightarrow> keys (eraseOwner r c) = keys r - {okey c}"
  by (auto simp: eraseOwner_filter keys_def)

lemma keys_addOwners [simp]: "keys (addOwners r os) = keys r \<union> okey ` set os"
  by (simp add: addOwners_def keys_def image_Un)

lemma sorted_addOwners [simp]:
  assumes "sorted_owners r" and "sorted_wrt (<) (map okey os)"
  shows "sorted_owners (addOwners r os)"
  using assms unfolding sorted_owners_def addOwners_def
  by (simp add: strict_sorted_unique_by sorted_merge_by strict_sorted_imp_sorted)

section \<open>Well-formed lock sets and what they mean\<close>

text \<open>
  A range of the set is non-empty, has at least one owner, keeps its owners sorted without
  duplicates, and has one owner only when it is exclusive. Ranges are sorted and disjoint.
\<close>

definition wf_range :: "lock_range \<Rightarrow> bool" where
  "wf_range r \<longleftrightarrow> lr_start r < lr_end r \<and> lr_owners r \<noteq> [] \<and> sorted_owners r
     \<and> (lr_type r = kShared \<or> lr_type r = kExclusive \<and> length (lr_owners r) = 1)"

definition before :: "lock_range \<Rightarrow> lock_range \<Rightarrow> bool" where
  "before a b \<longleftrightarrow> lr_end a \<le> lr_start b"

definition wf_ranges :: "lock_ranges \<Rightarrow> bool" where
  "wf_ranges d \<longleftrightarrow> list_all wf_range d \<and> sorted_wrt before d"

text \<open>A request as the callers build it: one owner and a real operation.\<close>

definition wf_request :: "lock_range \<Rightarrow> bool" where
  "wf_request r \<longleftrightarrow> lr_type r \<noteq> kInvalid \<and> length (lr_owners r) = 1"

definition rkey :: "lock_range \<Rightarrow> owner_key" where
  "rkey r = okey (hd (lr_owners r))"

definition covers :: "lock_range \<Rightarrow> nat \<Rightarrow> bool" where
  "covers r p \<longleftrightarrow> lr_start r \<le> p \<and> p < lr_end r"

text \<open>
  The abstract state of an inode's locks: which lock, if any, an owner holds on a byte.
\<close>

definition held :: "lock_ranges \<Rightarrow> nat \<Rightarrow> owner_key \<Rightarrow> lock_type option" where
  "held d p k = map_option lr_type (find (\<lambda>r. covers r p \<and> k \<in> keys r) d)"

text \<open>
  The contract of a lock request over that state: its owner gets the requested lock, or none when
  the request is an unlock, on every byte of the range; nobody else's locks change.
\<close>

definition set_lock ::
  "lock_range \<Rightarrow> (nat \<Rightarrow> owner_key \<Rightarrow> lock_type option) \<Rightarrow> nat \<Rightarrow> owner_key \<Rightarrow> lock_type option" where
  "set_lock r h p k =
     (if covers r p \<and> k = rkey r then (if lr_type r = kUnlock then None else Some (lr_type r))
      else h p k)"

section \<open>Correctness of insertion\<close>

lemma covers_simps [simp]:
  "covers (r\<lparr>lr_start := s\<rparr>) p \<longleftrightarrow> s \<le> p \<and> p < lr_end r"
  "covers (r\<lparr>lr_end := e\<rparr>) p \<longleftrightarrow> lr_start r \<le> p \<and> p < e"
  "covers (r\<lparr>lr_type := t\<rparr>) p \<longleftrightarrow> covers r p"
  by (simp_all add: covers_def)

lemma rkey_simps [simp]:
  "rkey (r\<lparr>lr_start := s\<rparr>) = rkey r" "rkey (r\<lparr>lr_end := e\<rparr>) = rkey r"
  by (simp_all add: rkey_def)

lemma unlocking_simps [simp]:
  "unlocking (r\<lparr>lr_start := s\<rparr>) = unlocking r" "unlocking (r\<lparr>lr_end := e\<rparr>) = unlocking r"
  "unlocking (markUnlocking r)"
  by (simp_all add: unlocking_def markUnlocking_def)

lemma wf_request_simps [simp]:
  "wf_request (r\<lparr>lr_start := s\<rparr>) = wf_request r" "wf_request (r\<lparr>lr_end := e\<rparr>) = wf_request r"
  by (simp_all add: wf_request_def)

lemma wf_request_owners:
  "wf_request r \<Longrightarrow> \<exists>x. lr_owners r = [x] \<and> rkey r = okey x"
  by (cases "lr_owners r") (auto simp: wf_request_def rkey_def)

lemma wf_request_unlocking: "wf_request r \<Longrightarrow> unlocking r \<longleftrightarrow> lr_type r = kUnlock"
  by (auto simp: wf_request_def unlocking_def)

lemma wf_request_keys: "wf_request r \<Longrightarrow> keys r = {rkey r}"
  by (auto simp: keys_def dest: wf_request_owners)

lemma wf_request_wf_range:
  "wf_request r \<Longrightarrow> lr_start r < lr_end r \<Longrightarrow> \<not> unlocking r \<Longrightarrow> wf_range r"
  by (cases "lr_type r")
     (auto simp: wf_request_def wf_range_def sorted_owners_def unlocking_def length_Suc_conv)

lemma wf_range_not_unlocking [simp]: "wf_range r \<Longrightarrow> \<not> unlocking r"
  by (auto simp: wf_range_def unlocking_def)

text \<open>Some live range of the list gives owner \<open>k\<close> a lock of type \<open>t\<close> on byte \<open>p\<close>.\<close>

definition lock_at :: "lock_ranges \<Rightarrow> nat \<Rightarrow> owner_key \<Rightarrow> lock_type \<Rightarrow> bool" where
  "lock_at d p k t \<longleftrightarrow>
     (\<exists>x \<in> set d. \<not> unlocking x \<and> covers x p \<and> k \<in> keys x \<and> lr_type x = t)"

lemma lock_at_simps [simp]:
  "lock_at [] p k t = False"
  "lock_at (x # d) p k t \<longleftrightarrow>
     (\<not> unlocking x \<and> covers x p \<and> k \<in> keys x \<and> lr_type x = t) \<or> lock_at d p k t"
  "lock_at (d @ d') p k t \<longleftrightarrow> lock_at d p k t \<or> lock_at d' p k t"
  by (auto simp: lock_at_def)

text \<open>The locks once the remaining request \<open>r\<close> has been carried out over \<open>d\<close>.\<close>

definition eff :: "lock_range \<Rightarrow> lock_ranges \<Rightarrow> nat \<Rightarrow> owner_key \<Rightarrow> lock_type \<Rightarrow> bool" where
  "eff r d p k t \<longleftrightarrow>
     (if covers r p \<and> k = rkey r then lr_type r \<noteq> kUnlock \<and> t = lr_type r else lock_at d p k t)"

definition compatible :: "lock_range \<Rightarrow> lock_range \<Rightarrow> bool" where
  "compatible r other \<longleftrightarrow>
     owners_eq (lr_owners r) (lr_owners other) \<or> (shared r \<and> shared other) \<or> unlocking r"

lemma compatible_simps [simp]:
  "compatible (r\<lparr>lr_start := s\<rparr>) y = compatible r y" "compatible (r\<lparr>lr_end := e\<rparr>) y = compatible r y"
  "compatible r (y\<lparr>lr_start := s\<rparr>) = compatible r y" "compatible r (y\<lparr>lr_end := e\<rparr>) = compatible r y"
  by (simp_all add: compatible_def shared_def)

abbreviation live :: "lock_ranges \<Rightarrow> lock_ranges" where
  "live d \<equiv> filter (\<lambda>x. \<not> unlocking x) d"

text \<open>Taking over a range replaces what its owner holds there and keeps the others' locks.\<close>

lemma take_over_correct:
  assumes "wf_request r" "wf_range other" "compatible r other"
  shows "\<exists>o'. take_over r (owners_eq (lr_owners r) (lr_owners other)) other = Some o'
     \<and> lr_start o' = lr_start other \<and> lr_end o' = lr_end other \<and> (unlocking o' \<or> wf_range o')
     \<and> (\<forall>k t. (\<not> unlocking o' \<and> k \<in> keys o' \<and> lr_type o' = t) \<longleftrightarrow>
          (if k = rkey r then lr_type r \<noteq> kUnlock \<and> t = lr_type r
           else k \<in> keys other \<and> lr_type other = t))"
proof -
  obtain x where x: "lr_owners r = [x]" "rkey r = okey x"
    using wf_request_owners [OF assms(1)] by blast
  have ty: "lr_type other = kShared \<or> lr_type other = kExclusive" "sorted_owners other"
    "lr_owners other \<noteq> []" "lr_start other < lr_end other"
    using assms(2) by (auto simp: wf_range_def)
  consider (same) "map okey (lr_owners other) = [okey x]"
    | (unl) "map okey (lr_owners other) \<noteq> [okey x]" "lr_type r = kUnlock"
    | (sh) "map okey (lr_owners other) \<noteq> [okey x]" "lr_type r = kShared" "lr_type other = kShared"
    using assms(3) x by (auto simp: compatible_def unlocking_def shared_def eq_commute)
  then show ?thesis
  proof cases
    case same
    then have "keys other = {okey x}" "length (lr_owners other) = 1"
      by (auto simp: keys_def)
    moreover have "lr_type r \<noteq> kInvalid" using assms(1) by (simp add: wf_request_def)
    then have "lr_type r = kUnlock \<or> lr_type r = kShared \<or> lr_type r = kExclusive"
      by (cases "lr_type r") auto
    ultimately show ?thesis
      using same x ty by (auto simp: take_over_def unlocking_def wf_range_def)
  next
    case unl
    let ?o = "eraseOwner other x"
    have "take_over r (owners_eq (lr_owners r) (lr_owners other)) other = Some ?o"
      using unl x by (auto simp: take_over_def unlocking_def the_owner_def)
    moreover have "length (lr_owners ?o) \<le> length (lr_owners other)"
      using ty(2) by (simp add: eraseOwner_filter)
    then have "unlocking ?o \<or> wf_range ?o"
      using assms(2) ty(2) by (cases "lr_owners ?o") (auto simp: wf_range_def unlocking_def)
    moreover have "k \<in> keys ?o \<Longrightarrow> \<not> unlocking ?o" for k
      using ty by (auto simp: unlocking_def keys_def)
    ultimately show ?thesis using unl x ty by auto
  next
    case sh
    let ?o = "addOwners other [x]"
    have "take_over r (owners_eq (lr_owners r) (lr_owners other)) other = Some ?o"
      using sh x by (auto simp: take_over_def unlocking_def)
    moreover have "keys ?o \<noteq> {}" by simp
    then have "lr_owners ?o \<noteq> []" by (auto simp: keys_def simp del: keys_addOwners)
    then have "wf_range ?o"
      using ty sh by (auto simp: wf_range_def)
    ultimately show ?thesis using sh x ty by auto
  qed
qed

text \<open>A well-formed set of locks all of which lie between two offsets.\<close>

definition wf_within :: "nat \<Rightarrow> nat \<Rightarrow> lock_ranges \<Rightarrow> bool" where
  "wf_within lo hi d \<longleftrightarrow> wf_ranges d \<and> (\<forall>x \<in> set d. lo \<le> lr_start x \<and> lr_end x \<le> hi)"

lemma wf_within_drop: "wf_within lo hi (xs @ y # ys) \<Longrightarrow> wf_within lo hi (xs @ ys)"
  by (auto simp: wf_within_def wf_ranges_def sorted_wrt_append)

lemma wf_within_put:
  assumes "wf_within lo hi (xs @ ys)" "wf_range z" "lo \<le> lr_start z" "lr_end z \<le> hi"
    and "\<forall>x \<in> set xs. before x z" "\<forall>y \<in> set ys. before z y"
  shows "wf_within lo hi (xs @ z # ys)"
  using assms by (auto simp: wf_within_def wf_ranges_def sorted_wrt_append)

lemma wf_within_mid:
  assumes "wf_within lo hi (xs @ y # ys)"
  shows "wf_range y" "lr_start y < lr_end y" "lo \<le> lr_start y" "lr_end y \<le> hi"
    "\<And>x. x \<in> set xs \<Longrightarrow> lr_end x \<le> lr_start y" "\<And>x. x \<in> set ys \<Longrightarrow> lr_end y \<le> lr_start x"
  using assms by (auto simp: wf_within_def wf_ranges_def sorted_wrt_append before_def wf_range_def)

lemma wf_within_nonempty: "wf_within lo hi d \<Longrightarrow> x \<in> set d \<Longrightarrow> lr_start x < lr_end x"
  by (auto simp: wf_within_def wf_ranges_def list_all_iff wf_range_def)

definition loop_inv :: "nat \<Rightarrow> nat \<Rightarrow> lock_ranges \<Rightarrow> lock_ranges \<Rightarrow> lock_range \<Rightarrow> bool" where
  "loop_inv lo hi dn rest r \<longleftrightarrow> wf_within lo hi (live dn @ rest) \<and> list_all wf_range rest \<and> wf_request r
   \<and> (lr_start r < lr_end r \<longrightarrow> lo \<le> lr_start r \<and> lr_end r \<le> hi
        \<and> (\<forall>x \<in> set (live dn). before x r)
        \<and> (\<forall>y \<in> set rest. overlaps r y \<longrightarrow> compatible r y))"

lemma loop_invD:
  assumes "loop_inv lo hi dn rest r"
  shows "wf_within lo hi (live dn @ rest)" "list_all wf_range rest" "wf_request r"
    "lr_start r < lr_end r \<Longrightarrow> lo \<le> lr_start r" "lr_start r < lr_end r \<Longrightarrow> lr_end r \<le> hi"
    "lr_start r < lr_end r \<Longrightarrow> x \<in> set dn \<Longrightarrow> \<not> unlocking x \<Longrightarrow> lr_end x \<le> lr_start r"
    "lr_start r < lr_end r \<Longrightarrow> y \<in> set rest \<Longrightarrow> overlaps r y \<Longrightarrow> compatible r y"
  using assms by (auto simp: loop_inv_def before_def)

text \<open>In a state of the loop only ranges ahead can cover a byte of the remaining request.\<close>

lemma lock_at_behind:
  assumes "\<And>x. x \<in> set dn \<Longrightarrow> \<not> unlocking x \<Longrightarrow> lr_end x \<le> s" "s \<le> p"
  shows "\<not> lock_at dn p k t"
  using assms by (fastforce simp: lock_at_def covers_def)

lemma lock_at_ahead:
  assumes "\<And>x. x \<in> set rs \<Longrightarrow> s \<le> lr_start x" "p < s"
  shows "\<not> lock_at rs p k t"
  using assms by (fastforce simp: lock_at_def covers_def)

lemma step_stick:
  assumes inv: "loop_inv lo hi dn (other # rs) r" and ne: "lr_start r < lr_end r"
    and st: "sticks r other" and own: "owners_eq (lr_owners r) (lr_owners other)"
    and ty: "lr_type r = lr_type other"
  defines "r' \<equiv> r\<lparr>lr_start := min (lr_start r) (lr_start other), lr_end := max (lr_end r) (lr_end other)\<rparr>"
  shows "loop_inv lo hi (dn @ [markUnlocking other]) rs r'"
    and "eff r' ((dn @ [markUnlocking other]) @ rs) = eff r (dn @ other # rs)"
proof -
  note D = loop_invD [OF inv] and oth = wf_within_mid [OF loop_invD(1) [OF inv]]
  have bounds: "lr_start r' \<le> lr_start r" "lr_start r' = lr_start r \<or> lr_start r' = lr_start other"
    "lr_end r' = lr_end r \<or> lr_end r' = lr_end other"
    by (auto simp: r'_def)
  have "wf_request r'" using D(3) by (simp add: r'_def)
  moreover have "compatible r' y" if "y \<in> set rs" "overlaps r' y" for y
    using D(7) [OF ne, of y] oth(6) [of y] wf_within_nonempty [OF D(1), of y] that st oth(2) ne
    by (auto simp: r'_def overlaps_def sticks_def)
  ultimately show "loop_inv lo hi (dn @ [markUnlocking other]) rs r'"
    using D(2,4,5,6) ne bounds oth(3,4,5) wf_within_drop [OF D(1)]
    by (auto simp: loop_inv_def before_def)
  have keys: "keys other = {rkey r}"
    using own wf_request_owners [OF D(3)] by (auto simp: keys_def)
  show "eff r' ((dn @ [markUnlocking other]) @ rs) = eff r (dn @ other # rs)"
  proof (intro ext)
    fix p k t
    have cov: "covers r' p \<longleftrightarrow> covers r p \<or> covers other p"
      using ne st oth(2) unfolding r'_def by (auto simp: covers_def sticks_def)
    have "covers other p \<Longrightarrow> \<not> covers r p"
      using st ne oth(2) by (auto simp: covers_def sticks_def)
    moreover have "covers other p \<Longrightarrow> \<not> lock_at dn p k t"
      using oth(5) by (intro lock_at_behind [of dn "lr_start other"]) (auto simp: covers_def)
    moreover have "covers other p \<Longrightarrow> \<not> lock_at rs p k t"
      using oth(6) by (intro lock_at_ahead [of rs "lr_end other"]) (auto simp: covers_def)
    moreover have "lr_type other \<noteq> kUnlock" using oth(1) by (auto simp: wf_range_def)
    ultimately show "eff r' ((dn @ [markUnlocking other]) @ rs) p k t = eff r (dn @ other # rs) p k t"
      using cov keys ty oth(1) by (auto simp: eff_def r'_def)
  qed
qed

lemma step_pass:
  assumes inv: "loop_inv lo hi dn (other # rs) r" and ne: "lr_start r < lr_end r"
    and "\<not> lr_end r \<le> lr_start other" "\<not> overlaps r other"
  shows "loop_inv lo hi (dn @ [other]) rs r" "eff r ((dn @ [other]) @ rs) = eff r (dn @ other # rs)"
proof -
  have "lr_end other \<le> lr_start r" using assms(3,4) by (auto simp: overlaps_def)
  then show "loop_inv lo hi (dn @ [other]) rs r"
    using inv by (auto simp: loop_inv_def before_def)
qed simp

lemma step_split_request:
  assumes inv: "loop_inv lo hi dn (other # rs) r" and ne: "lr_start r < lr_end r"
    and ov: "overlaps r other" and lt: "lr_start r < lr_start other"
  defines "tmp \<equiv> r\<lparr>lr_end := lr_start other\<rparr>" and "r' \<equiv> r\<lparr>lr_start := lr_start other\<rparr>"
  shows "loop_inv lo hi (dn @ [tmp]) (other # rs) r'"
    and "eff r' ((dn @ [tmp]) @ other # rs) = eff r (dn @ other # rs)"
proof -
  note D = loop_invD [OF inv] and oth = wf_within_mid [OF loop_invD(1) [OF inv]]
  have ahead: "lr_start other \<le> lr_start y" if "y \<in> set (other # rs)" for y
    using that oth(2) oth(6) [of y] by auto
  have tmp: "wf_range tmp" if "\<not> unlocking r"
    using wf_request_wf_range [of tmp] D(3) lt that by (auto simp: tmp_def)
  have "wf_within lo hi (live (dn @ [tmp]) @ other # rs)"
  proof (cases "unlocking r")
    case True
    with D(1) show ?thesis by (simp add: tmp_def)
  next
    case False
    have "wf_within lo hi (live dn @ tmp # other # rs)"
      using wf_within_put [OF D(1) tmp [OF False]] D(4,6) [OF ne] oth(2,4) ahead lt
      by (auto simp: tmp_def before_def)
    with False show ?thesis by (simp add: tmp_def)
  qed
  then show "loop_inv lo hi (dn @ [tmp]) (other # rs) r'"
    using D(2,3,5) D(4,7) [OF ne] lt ne oth(3,5)
    by (auto simp: loop_inv_def before_def r'_def tmp_def overlaps_def)
  show "eff r' ((dn @ [tmp]) @ other # rs) = eff r (dn @ other # rs)"
  proof (intro ext)
    fix p k t
    have "lr_start r \<le> p \<Longrightarrow> \<not> lock_at dn p k t"
      using D(6) [OF ne] by (intro lock_at_behind [of dn "lr_start r"])
    moreover have "p < lr_start other \<Longrightarrow> \<not> lock_at (other # rs) p k t"
      using ahead by (intro lock_at_ahead [of _ "lr_start other"])
    ultimately show "eff r' ((dn @ [tmp]) @ other # rs) p k t = eff r (dn @ other # rs) p k t"
      using ov lt wf_request_keys [OF D(3)] wf_request_unlocking [OF D(3)]
      unfolding r'_def tmp_def
      by (auto simp: eff_def covers_def overlaps_def)
  qed
qed

lemma step_split_other:
  assumes inv: "loop_inv lo hi dn (other # rs) r" and ne: "lr_start r < lr_end r"
    and ov: "overlaps r other" and lt: "lr_start other < lr_start r"
  defines "o1 \<equiv> other\<lparr>lr_end := lr_start r\<rparr>" and "o2 \<equiv> other\<lparr>lr_start := lr_start r\<rparr>"
  shows "loop_inv lo hi (dn @ [o1]) (o2 # rs) r"
    and "eff r ((dn @ [o1]) @ o2 # rs) = eff r (dn @ other # rs)"
proof -
  note D = loop_invD [OF inv] and oth = wf_within_mid [OF loop_invD(1) [OF inv]]
  have ov': "lr_start r < lr_end other" using ov by (simp add: overlaps_def)
  have o12: "wf_range o1" "wf_range o2"
    using oth(1) ov' lt by (auto simp: o1_def o2_def wf_range_def)
  have "wf_within lo hi (live dn @ o2 # rs)"
    using wf_within_put [OF wf_within_drop [OF D(1)] o12(2)] oth(3,4,6) lt D(6) [OF ne]
    by (auto simp: o2_def before_def)
  then have "wf_within lo hi (live dn @ o1 # o2 # rs)"
    using wf_within_put [OF _ o12(1), of lo hi "live dn" "o2 # rs"] oth(3-6) lt ov'
    by (fastforce simp: o1_def o2_def before_def)
  then show "loop_inv lo hi (dn @ [o1]) (o2 # rs) r"
    using D(2,3) D(4-7) [OF ne] o12 ov
    by (auto simp: loop_inv_def before_def o1_def o2_def overlaps_def)
  show "eff r ((dn @ [o1]) @ o2 # rs) = eff r (dn @ other # rs)"
    using ov' lt unfolding o1_def o2_def
    by (intro ext) (auto simp: eff_def covers_def)
qed

lemma step_replace:
  assumes inv: "loop_inv lo hi dn (other # rs) r" and ne: "lr_start r < lr_end r"
    and st: "lr_start r = lr_start other" and en: "lr_end other \<le> lr_end r"
  defines "r' \<equiv> r\<lparr>lr_start := lr_end other\<rparr>"
  shows "\<exists>o'. take_over r (owners_eq (lr_owners r) (lr_owners other)) other = Some o'
     \<and> loop_inv lo hi (dn @ [o']) rs r' \<and> eff r' ((dn @ [o']) @ rs) = eff r (dn @ other # rs)"
proof -
  note D = loop_invD [OF inv] and oth = wf_within_mid [OF loop_invD(1) [OF inv]]
  have "compatible r other" using D(7) [OF ne, of other] st ne oth(2) by (simp add: overlaps_def)
  then obtain o' where o': "take_over r (owners_eq (lr_owners r) (lr_owners other)) other = Some o'"
    and pos: "lr_start o' = lr_start other" "lr_end o' = lr_end other" "unlocking o' \<or> wf_range o'"
    and own: "\<And>k t. (\<not> unlocking o' \<and> k \<in> keys o' \<and> lr_type o' = t) \<longleftrightarrow>
          (if k = rkey r then lr_type r \<noteq> kUnlock \<and> t = lr_type r
           else k \<in> keys other \<and> lr_type other = t)"
    using take_over_correct [OF D(3) oth(1)] by blast
  have "wf_within lo hi (live (dn @ [o']) @ rs)"
    using wf_within_put [OF wf_within_drop [OF D(1)], of o'] wf_within_drop [OF D(1)] pos oth(3-6)
    by (auto simp: before_def)
  moreover have "overlaps r' y \<Longrightarrow> overlaps r y" for y
    using st oth(2) by (auto simp: r'_def overlaps_def)
  ultimately have "loop_inv lo hi (dn @ [o']) rs r'"
    using D(2,3) D(4,5,6,7) [OF ne] pos oth(3-6) st oth(2)
    by (fastforce simp: loop_inv_def before_def r'_def)
  moreover have "eff r' ((dn @ [o']) @ rs) p k t = eff r (dn @ other # rs) p k t" for p k t
  proof -
    have "covers other p \<Longrightarrow> \<not> lock_at dn p k t"
      using oth(5) by (intro lock_at_behind [of dn "lr_start other"]) (auto simp: covers_def)
    moreover have "covers other p \<Longrightarrow> \<not> lock_at rs p k t"
      using oth(6) by (intro lock_at_ahead [of rs "lr_end other"]) (auto simp: covers_def)
    moreover have "covers r p \<longleftrightarrow> covers other p \<or> covers r' p" "\<not> (covers other p \<and> covers r' p)"
      using st en oth(2) by (auto simp: covers_def r'_def)
    moreover have "covers o' p = covers other p" using pos by (simp add: covers_def)
    ultimately show ?thesis using own [of k t] oth(1) by (auto simp: eff_def r'_def)
  qed
  ultimately show ?thesis using o' by blast
qed

lemma step_cut:
  assumes inv: "loop_inv lo hi dn (other # rs) r" and ne: "lr_start r < lr_end r"
    and st: "lr_start r = lr_start other" and lt: "lr_end r < lr_end other"
  defines "o1 \<equiv> other\<lparr>lr_end := lr_end r\<rparr>" and "o2 \<equiv> other\<lparr>lr_start := lr_end r\<rparr>"
    and "r' \<equiv> r\<lparr>lr_start := lr_end other\<rparr>"
  shows "\<exists>o'. take_over r (owners_eq (lr_owners r) (lr_owners other)) o1 = Some o'
     \<and> loop_inv lo hi (dn @ [o']) (o2 # rs) r' \<and> eff r' ((dn @ [o']) @ o2 # rs) = eff r (dn @ other # rs)"
proof -
  note D = loop_invD [OF inv] and oth = wf_within_mid [OF loop_invD(1) [OF inv]]
  have o12: "wf_range o1" "wf_range o2"
    using oth(1) st ne lt by (auto simp: o1_def o2_def wf_range_def)
  have "compatible r o1"
    using D(7) [OF ne, of other] st ne oth(2) by (simp add: overlaps_def o1_def)
  then obtain o' where o': "take_over r (owners_eq (lr_owners r) (lr_owners o1)) o1 = Some o'"
    and pos: "lr_start o' = lr_start o1" "lr_end o' = lr_end o1" "unlocking o' \<or> wf_range o'"
    and own: "\<And>k t. (\<not> unlocking o' \<and> k \<in> keys o' \<and> lr_type o' = t) \<longleftrightarrow>
          (if k = rkey r then lr_type r \<noteq> kUnlock \<and> t = lr_type r
           else k \<in> keys o1 \<and> lr_type o1 = t)"
    using take_over_correct [OF D(3) o12(1)] by blast
  have w2: "wf_within lo hi (live dn @ o2 # rs)"
    using wf_within_put [OF wf_within_drop [OF D(1)] o12(2)] oth(3-6) st ne lt D(6) [OF ne]
    by (fastforce simp: o2_def before_def)
  have "wf_within lo hi (live (dn @ [o']) @ o2 # rs)"
  proof (cases "unlocking o'")
    case False
    with pos have "wf_range o'" by simp
    from wf_within_put [OF w2 this] show ?thesis
      using False pos oth(3-6) lt by (fastforce simp: o1_def o2_def before_def)
  qed (use w2 in simp)
  then have "loop_inv lo hi (dn @ [o']) (o2 # rs) r'"
    using D(2,3) o12 lt by (simp add: loop_inv_def r'_def)
  moreover have "eff r' ((dn @ [o']) @ o2 # rs) p k t = eff r (dn @ other # rs) p k t" for p k t
  proof -
    have "covers other p \<Longrightarrow> \<not> lock_at dn p k t"
      using oth(5) by (intro lock_at_behind [of dn "lr_start other"]) (auto simp: covers_def)
    moreover have "covers other p \<Longrightarrow> \<not> lock_at rs p k t"
      using oth(6) by (intro lock_at_ahead [of rs "lr_end other"]) (auto simp: covers_def)
    moreover have "covers other p \<longleftrightarrow> covers r p \<or> covers o2 p" "\<not> (covers r p \<and> covers o2 p)"
      "\<not> covers r' p" "covers o' p = covers r p"
      using st ne lt pos by (auto simp: covers_def r'_def o1_def o2_def)
    ultimately show ?thesis
      using own [of k t] oth(1) o12(2) by (auto simp: eff_def o1_def o2_def)
  qed
  ultimately show ?thesis using o' by (auto simp: o1_def fun_eq_iff)
qed

lemma insert_loop_correct:
  "loop_inv lo hi dn rest r \<Longrightarrow>
   \<exists>dn' rest' r'. insert_loop dn rest r = Some (dn', rest', r') \<and> loop_inv lo hi dn' rest' r'
     \<and> (lr_start r' < lr_end r' \<longrightarrow> (\<forall>y \<in> set rest'. before r' y))
     \<and> eff r' (dn' @ rest') = eff r (dn @ rest)"
proof (induction dn rest r rule: insert_loop.induct)
  case (1 dn r)
  then show ?case by simp
next
  case (2 dn other rs r)
  let ?so = "owners_eq (lr_owners r) (lr_owners other)"
  note inv = "2.prems"
  consider (stop) "\<not> lr_end r > lr_start r"
    | (stick) "lr_start r < lr_end r" "sticks r other" ?so "lr_type r = lr_type other"
    | (past) "lr_start r < lr_end r" "\<not> (sticks r other \<and> ?so \<and> lr_type r = lr_type other)"
        "lr_end r \<le> lr_start other"
    | (pass) "lr_start r < lr_end r" "\<not> (sticks r other \<and> ?so \<and> lr_type r = lr_type other)"
        "\<not> lr_end r \<le> lr_start other" "\<not> overlaps r other"
    | (over) "lr_start r < lr_end r" "\<not> (sticks r other \<and> ?so \<and> lr_type r = lr_type other)"
        "\<not> lr_end r \<le> lr_start other" "overlaps r other"
    by fastforce
  then show ?case
  proof cases
    case stop
    with inv show ?thesis by simp
  next
    case stick
    note s = step_stick [OF inv stick]
    from "2.IH"(1) [OF _ refl _ s(1)] stick s(2) show ?thesis by simp
  next
    case past
    have "\<forall>y \<in> set (other # rs). before r y"
      using past(3) wf_within_mid [OF loop_invD(1) [OF inv]] by (fastforce simp: before_def)
    with inv past show ?thesis by (auto simp: Let_def)
  next
    case pass
    note s = step_pass [OF inv pass(1,3,4)]
    from "2.IH"(2) [OF _ refl pass(2,3,4) s(1)] pass s(2) show ?thesis by (auto simp: Let_def)
  next
    case over
    have ok: "\<not> \<not> (?so \<or> (shared r \<and> shared other) \<or> unlocking r)"
      using loop_invD(7) [OF inv over(1) _ over(4)] by (auto simp: compatible_def)
    have g: "\<not> \<not> lr_start r < lr_end r" "\<not> \<not> overlaps r other" using over by auto
    consider (lt) "lr_start r < lr_start other"
      | (cut) "\<not> lr_start r < lr_start other" "lr_start r = lr_start other" "lr_end r < lr_end other"
      | (all) "\<not> lr_start r < lr_start other" "lr_start r = lr_start other" "\<not> lr_end r < lr_end other"
      | (gt) "\<not> lr_start r < lr_start other" "lr_start r \<noteq> lr_start other"
      by fastforce
    then show ?thesis
    proof cases
      case lt
      note s = step_split_request [OF inv over(1,4) lt]
      from "2.IH"(3) [OF g(1) refl over(2,3) g(2) ok lt s(1)] over ok lt s(2)
      show ?thesis by (auto simp: Let_def)
    next
      case cut
      from step_cut [OF inv over(1) cut(2,3)] obtain o' where
        o': "take_over r ?so (other\<lparr>lr_end := lr_end r\<rparr>) = Some o'"
        and s: "loop_inv lo hi (dn @ [o']) (other\<lparr>lr_start := lr_end r\<rparr> # rs) (r\<lparr>lr_start := lr_end other\<rparr>)"
          "eff (r\<lparr>lr_start := lr_end other\<rparr>) ((dn @ [o']) @ other\<lparr>lr_start := lr_end r\<rparr> # rs)
             = eff r (dn @ other # rs)"
        by blast
      from "2.IH"(4) [OF g(1) refl over(2,3) g(2) ok cut o' s(1)] over ok cut o' s(2)
      show ?thesis by (auto simp: Let_def simp del: owners_eq_okey)
    next
      case all
      from step_replace [OF inv over(1) all(2)] all(3) obtain o' where
        o': "take_over r ?so other = Some o'"
        and s: "loop_inv lo hi (dn @ [o']) rs (r\<lparr>lr_start := lr_end other\<rparr>)"
          "eff (r\<lparr>lr_start := lr_end other\<rparr>) ((dn @ [o']) @ rs) = eff r (dn @ other # rs)"
        by auto
      from "2.IH"(5) [OF g(1) refl over(2,3) g(2) ok all o' s(1)] over ok all o' s(2)
      show ?thesis by (auto simp: Let_def simp del: owners_eq_okey)
    next
      case gt
      have gt': "lr_start other < lr_start r" using gt by simp
      note s = step_split_other [OF inv over(1,4) gt']
      from "2.IH"(6) [OF g(1) refl over(2,3) g(2) ok gt s(1)] over ok gt s(2)
      show ?thesis by (auto simp: Let_def)
    qed
  qed
qed

subsection \<open>The scanned window\<close>

text \<open>
  Ranges before the scanned window end before the request starts, ranges behind it start after the
  request ends, so the window has everything the request can touch.
\<close>

lemma wf_ranges_range: "wf_ranges d \<Longrightarrow> x \<in> set d \<Longrightarrow> wf_range x"
  by (simp add: wf_ranges_def list_all_iff)

lemma wf_ranges_starts:
  assumes "wf_ranges d"
  shows "sorted_wrt (\<lambda>a b. lr_start a < lr_start b) d"
proof (rule sorted_wrt_mono_rel)
  show "sorted_wrt before d" using assms by (simp add: wf_ranges_def)
  show "lr_start x < lr_start y" if "x \<in> set d" "before x y" for x y
    using that(2) wf_ranges_range [OF assms that(1)]
    by (simp add: wf_range_def before_def)
qed

lemma scan_start_le_scan_end: "s \<le> e \<Longrightarrow> scan_start d s \<le> scan_end d e"
  using partition_point_mono [of d "\<lambda>x. lr_start x < s" "\<lambda>x. \<not> e < lr_start x"]
  by (auto simp: scan_start_def scan_end_def Let_def)

lemma before_window:
  assumes wf: "wf_ranges d" and x: "x \<in> set (take (scan_start d s) d)"
  shows "lr_end x < s"
proof -
  let ?i = "partition_point (\<lambda>x. lr_start x < s) d"
  from x obtain j where j: "j < length d" "j < ?i - 1" "x = d ! j"
    by (auto simp: scan_start_def Let_def in_set_conv_nth split: if_splits)
  have "lr_start (d ! (?i - 1)) < s"
    using partition_point_nth [of "?i - 1" "\<lambda>x. lr_start x < s" d] j(2) by linarith
  moreover have "?i - 1 < length d"
    using j partition_point_le [of "\<lambda>x. lr_start x < s" d] by linarith
  then have "before (d ! j) (d ! (?i - 1))"
    using wf j(2) by (auto simp: wf_ranges_def sorted_wrt_iff_nth_less)
  ultimately show ?thesis using j(3) by (simp add: before_def)
qed

lemma behind_window:
  assumes "wf_ranges d" and "x \<in> set (drop (scan_end d e) d)"
  shows "e < lr_start x"
proof -
  have "sorted_wrt (\<lambda>a b. \<not> e < lr_start b \<longrightarrow> \<not> e < lr_start a) d"
    using wf_ranges_starts [OF assms(1)] by (rule sorted_wrt_mono_rel [rotated]) auto
  from dropWhile_none [OF this, of x] assms(2) show ?thesis
    by (simp add: scan_end_def)
qed

lemma window_split:
  assumes "i \<le> j"
  shows "take i d @ drop i (take j d) @ drop j d = d"
proof -
  have "take i d = take i (take j d)" using assms by (simp add: min_def)
  then have "take i d @ drop i (take j d) = take j d" by (simp only: append_take_drop_id)
  then show ?thesis by (simp only: append_assoc [symmetric] append_take_drop_id)
qed

section \<open>Collision search\<close>

theorem findCollision_complete:
  assumes wf: "wf_ranges d" and le: "lr_start r \<le> lr_end r"
  shows "findCollision d r = Some (if unlocking r then None else find (collides r) d)"
proof -
  let ?i = "scan_start d (lr_start r)" and ?j = "scan_end d (lr_end r)"
  have ij: "?i \<le> ?j" using le by (rule scan_start_le_scan_end)
  have "\<not> collides r x" if "x \<in> set (take ?i d)" for x
    using before_window [OF wf that] by (simp add: collides_def overlaps_def)
  then have "find (collides r) (take ?i d) = None" by (simp add: find_None_iff)
  moreover have "\<not> collides r x" if "x \<in> set (drop ?j d)" for x
    using behind_window [OF wf that] by (simp add: collides_def overlaps_def)
  then have "find (collides r) (drop ?j d) = None" by (simp add: find_None_iff)
  ultimately have "find (collides r) (take ?i d @ drop ?i (take ?j d) @ drop ?j d)
      = find (collides r) (drop ?i (take ?j d))"
    by (rule find_mid)
  then have "find (collides r) d = find (collides r) (drop ?i (take ?j d))"
    unfolding window_split [OF ij] .
  with ij show ?thesis unfolding findCollision_def Let_def by auto
qed

section \<open>Insertion refines the abstract lock state\<close>

lemma held_iff:
  assumes "wf_ranges d"
  shows "held d p k = Some t \<longleftrightarrow> lock_at d p k t"
  using assms
proof (induction d)
  case (Cons x d)
  then have x: "wf_range x" "wf_ranges d" by (auto simp: wf_ranges_def)
  show ?case
  proof (cases "covers x p \<and> k \<in> keys x")
    case True
    with Cons.prems have "\<not> lock_at d p k t"
      by (intro lock_at_ahead [of d "lr_end x"]) (auto simp: wf_ranges_def before_def covers_def)
    with True x show ?thesis by (auto simp: held_def)
  next
    case False
    with Cons.IH [OF x(2)] show ?thesis by (auto simp: held_def)
  qed
qed (simp add: held_def)

lemma held_eqI:
  assumes "wf_ranges d" "wf_ranges d'" "\<And>p k t. lock_at d' p k t \<longleftrightarrow> eff r d p k t"
  shows "held d' = set_lock r (held d)"
proof (intro ext)
  fix p k
  have "held d' p k = Some t \<longleftrightarrow> set_lock r (held d) p k = Some t" for t
    using assms by (auto simp: held_iff set_lock_def eff_def)
  then show "held d' p k = set_lock r (held d) p k"
    by (metis not_None_eq)
qed

text \<open>Once the loop has stopped, putting what is left of the request at the iterator finishes it.\<close>

lemma finish_insert:
  assumes inv: "loop_inv lo hi dn rest r" and aft: "lr_start r < lr_end r \<longrightarrow> (\<forall>y \<in> set rest. before r y)"
  defines "w \<equiv> live (if lr_end r > lr_start r then dn @ r # rest else dn @ rest)"
  shows "wf_within lo hi w" "lock_at w p k t \<longleftrightarrow> eff r (dn @ rest) p k t"
proof -
  note D = loop_invD [OF inv]
  have lr: "live rest = rest" using D(2) by (auto simp: filter_id_conv list_all_iff)
  have la: "lock_at (live xs) p k t = lock_at xs p k t" for xs by (auto simp: lock_at_def)
  have w: "w = live (dn @ (if lr_end r > lr_start r then [r] else []) @ rest)" by (simp add: w_def)
  show "wf_within lo hi w"
  proof (cases "lr_start r < lr_end r \<and> \<not> unlocking r")
    case True
    then have "wf_within lo hi (live dn @ r # rest)"
      using wf_within_put [OF D(1) wf_request_wf_range [OF D(3)]] D(4-6) aft
      by (auto simp: before_def)
    with True lr show ?thesis by (simp add: w)
  next
    case False
    with D(1) lr show ?thesis by (auto simp: w)
  qed
  have "covers r p \<Longrightarrow> \<not> lock_at dn p k t"
    using D(6) by (intro lock_at_behind [of dn "lr_start r"]) (auto simp: covers_def)
  moreover have "covers r p \<Longrightarrow> \<not> lock_at rest p k t"
    using aft by (intro lock_at_ahead [of rest "lr_end r"]) (auto simp: covers_def before_def)
  moreover have "covers r p \<Longrightarrow> lr_start r < lr_end r" by (auto simp: covers_def)
  ultimately show "lock_at w p k t \<longleftrightarrow> eff r (dn @ rest) p k t"
    using wf_request_keys [OF D(3)] wf_request_unlocking [OF D(3)]
    by (auto simp: w la eff_def simp del: filter_append)
qed

lemma wf_ranges_append:
  "wf_ranges (xs @ ys) \<longleftrightarrow> wf_ranges xs \<and> wf_ranges ys \<and> (\<forall>x \<in> set xs. \<forall>y \<in> set ys. before x y)"
  by (auto simp: wf_ranges_def sorted_wrt_append)

lemma lower_limit:
  assumes "wf_ranges (pre @ rest)" "\<And>x. x \<in> set pre \<Longrightarrow> lr_end x < s"
  shows "\<exists>lo \<le> s. (\<forall>x \<in> set pre. lr_end x \<le> lo) \<and> (\<forall>x \<in> set rest. lo \<le> lr_start x)"
proof -
  let ?lo = "Max (insert 0 (lr_end ` set pre))"
  have "\<forall>x \<in> set pre. lr_end x \<le> ?lo" by (auto intro: Max_ge)
  moreover have "?lo \<le> s" using assms(2) by (subst Max_le_iff) (auto intro: less_imp_le)
  moreover have "\<forall>y \<in> set rest. ?lo \<le> lr_start y"
    using assms(1) by (auto simp: wf_ranges_append before_def)
  ultimately show ?thesis by blast
qed

lemma upper_limit:
  assumes "wf_ranges (win @ post)" "\<And>x. x \<in> set post \<Longrightarrow> e < lr_start x"
  shows "\<exists>hi \<ge> e. (\<forall>x \<in> set post. hi \<le> lr_start x) \<and> (\<forall>x \<in> set win. lr_end x \<le> hi)"
proof -
  let ?hi = "Max (insert e (lr_end ` set win))"
  have "\<forall>x \<in> set win. lr_end x \<le> ?hi" "e \<le> ?hi" by (auto intro: Max_ge)
  moreover have "\<forall>x \<in> set post. ?hi \<le> lr_start x"
    using assms by (auto simp: wf_ranges_append before_def intro: less_imp_le)
  ultimately show ?thesis by blast
qed

lemma wf_within_lift:
  assumes "wf_ranges (pre @ win @ post)" "wf_within lo hi win'"
    and "\<forall>x \<in> set pre. lr_end x \<le> lo" "\<forall>x \<in> set post. hi \<le> lr_start x"
  shows "wf_ranges (pre @ win' @ post)"
  using assms by (auto simp: wf_ranges_append wf_within_def before_def intro: order_trans)

lemma compatible_not_collides:
  "(unlocking r \<or> \<not> collides r y) \<Longrightarrow> overlaps r y \<Longrightarrow> compatible r y"
  unfolding collides_def compatible_def owners_eq_okey by metis

theorem insert_range_refines:
  assumes wf: "wf_ranges d" and req: "wf_request r" and le: "lr_start r \<le> lr_end r"
    and fit: "fits d r = Some True"
  shows "\<exists>d'. insert_range d r = Some d' \<and> wf_ranges d' \<and> held d' = set_lock r (held d)"
proof -
  let ?i = "scan_start d (lr_start r)" and ?j = "scan_end d (lr_end r)"
  have ij: "?i \<le> ?j" using le by (rule scan_start_le_scan_end)
  define pre win post where "pre = take ?i d" and "win = drop ?i (take ?j d)" and "post = drop ?j d"
  have d: "d = pre @ win @ post" using window_split [OF ij, of d] by (simp add: pre_def win_def post_def)
  have pre: "lr_end x < lr_start r" if "x \<in> set pre" for x
    using before_window [OF wf] that by (simp add: pre_def)
  have post: "lr_end r < lr_start x" if "x \<in> set post" for x
    using behind_window [OF wf] that by (simp add: post_def)
  obtain lo where lo: "lo \<le> lr_start r" "\<forall>x \<in> set pre. lr_end x \<le> lo" "\<forall>x \<in> set (win @ post). lo \<le> lr_start x"
    using lower_limit [of pre "win @ post" "lr_start r"] wf pre unfolding d by blast
  obtain hi where hi: "lr_end r \<le> hi" "\<forall>x \<in> set post. hi \<le> lr_start x" "\<forall>x \<in> set win. lr_end x \<le> hi"
    using upper_limit [of win post "lr_end r"] wf post unfolding d wf_ranges_append by blast
  have "unlocking r \<or> \<not> collides r y" if "y \<in> set d" for y
    using fit that unfolding fits_def findCollision_complete [OF wf le]
    by (auto simp: find_None_iff split: if_splits)
  then have "compatible r y" if "y \<in> set win" "overlaps r y" for y
    using that compatible_not_collides by (simp add: d)
  moreover have "wf_within lo hi win"
    using wf lo(3) hi(3) unfolding d wf_within_def wf_ranges_append by auto
  ultimately have "loop_inv lo hi [] win r"
    using req lo(1) hi(1) by (simp add: loop_inv_def wf_within_def wf_ranges_def)
  from insert_loop_correct [OF this] obtain dn rest r' where
    run: "insert_loop [] win r = Some (dn, rest, r')" and inv: "loop_inv lo hi dn rest r'"
    and aft: "lr_start r' < lr_end r' \<longrightarrow> (\<forall>y \<in> set rest. before r' y)"
    and eff: "eff r' (dn @ rest) = eff r win" by auto
  define w where "w = live (if lr_end r' > lr_start r' then dn @ r' # rest else dn @ rest)"
  note fin = finish_insert [OF inv aft, folded w_def]
  have "insert_range d r = Some (pre @ w @ post)"
    using ij run by (simp add: insert_range_def Let_def pre_def win_def post_def w_def not_less)
  moreover have wf': "wf_ranges (pre @ w @ post)"
    using wf_within_lift [OF _ fin(1) lo(2) hi(2)] wf unfolding d by blast
  moreover have "lock_at (pre @ w @ post) p k t \<longleftrightarrow> eff r d p k t" for p k t
  proof -
    have "covers r p \<Longrightarrow> \<not> lock_at pre p k t"
      using pre by (intro lock_at_behind [of pre "lr_start r"]) (auto simp: covers_def less_imp_le)
    moreover have "covers r p \<Longrightarrow> \<not> lock_at post p k t"
      using post by (intro lock_at_ahead [of post "lr_end r"]) (auto simp: covers_def less_imp_le)
    ultimately show ?thesis using fin(2) [of p k t] eff unfolding d by (auto simp: eff_def)
  qed
  then have "held (pre @ w @ post) = set_lock r (held d)"
    by (rule held_eqI [OF wf wf'])
  ultimately show ?thesis by blast
qed

section \<open>The lock rule\<close>

text \<open>At most one owner on a byte somebody holds exclusively.\<close>

lemma lock_at_unique:
  assumes "wf_ranges d" "x \<in> set d" "y \<in> set d" "covers x p" "covers y p"
  shows "x = y"
proof (rule ccontr)
  assume "x \<noteq> y"
  then have "before x y \<or> before y x"
    using assms(1-3) by (auto simp: wf_ranges_def sorted_wrt_iff_nth_less in_set_conv_nth)
      (metis linorder_neqE_nat)
  with assms(4,5) show False by (auto simp: before_def covers_def)
qed

lemma held_exclusive:
  assumes wf: "wf_ranges d" and "held d p k = Some kExclusive" "held d p k' = Some t"
  shows "k' = k"
proof -
  obtain x where x: "x \<in> set d" "covers x p" "k \<in> keys x" "lr_type x = kExclusive"
    using assms(2) by (auto simp: held_iff [OF wf] lock_at_def)
  obtain y where y: "y \<in> set d" "covers y p" "k' \<in> keys y"
    using assms(3) by (auto simp: held_iff [OF wf] lock_at_def)
  have "y = x" using lock_at_unique [OF wf] x y by blast
  moreover have "length (lr_owners x) = 1"
    using wf_ranges_range [OF wf x(1)] x(4) by (simp add: wf_range_def)
  ultimately show ?thesis using x(3) y(3) by (auto simp: keys_def length_Suc_conv)
qed

text \<open>
  A request that does not unlock is granted exactly when, on every byte it covers, every other
  owner's lock and the request itself are both shared.
\<close>

definition lock_rule :: "lock_range \<Rightarrow> (nat \<Rightarrow> owner_key \<Rightarrow> lock_type option) \<Rightarrow> bool" where
  "lock_rule r h \<longleftrightarrow> (\<forall>p k t. covers r p \<longrightarrow> h p k = Some t \<longrightarrow> k \<noteq> rkey r
     \<longrightarrow> lr_type r = kShared \<and> t = kShared)"

lemma collides_iff:
  assumes y: "wf_range y" and r: "wf_request r" "lr_start r < lr_end r"
  shows "collides r y \<longleftrightarrow> (\<exists>p k. covers r p \<and> covers y p \<and> k \<in> keys y \<and> k \<noteq> rkey r
     \<and> \<not> (lr_type r = kShared \<and> lr_type y = kShared))"
proof -
  obtain x where x: "lr_owners r = [x]" "rkey r = okey x" using wf_request_owners [OF r(1)] by blast
  have "overlaps r y \<longleftrightarrow> covers r (max (lr_start r) (lr_start y)) \<and> covers y (max (lr_start r) (lr_start y))"
    using y r(2) by (auto simp: overlaps_def covers_def wf_range_def)
  moreover have "covers r p \<Longrightarrow> covers y p \<Longrightarrow> overlaps r y" for p
    by (auto simp: overlaps_def covers_def)
  ultimately have ov: "overlaps r y \<longleftrightarrow> (\<exists>p. covers r p \<and> covers y p)" by blast
  have ne: "lr_owners y \<noteq> []" and so: "sorted_wrt (<) (map okey (lr_owners y))"
    using y by (auto simp: wf_range_def sorted_owners_def)
  have "map okey (lr_owners y) = [okey x] \<longleftrightarrow> keys y \<subseteq> {okey x}"
  proof
    assume "keys y \<subseteq> {okey x}"
    then show "map okey (lr_owners y) = [okey x]"
      using ne so by (cases "lr_owners y" rule: remdups_adj.cases) (auto simp: keys_def)
  qed (auto simp: keys_def)
  then show ?thesis unfolding collides_def ov owners_eq_okey x shared_def by auto
qed

theorem fits_iff_rule:
  assumes wf: "wf_ranges d" and r: "wf_request r" "lr_start r < lr_end r" "\<not> unlocking r"
  shows "fits d r = Some (lock_rule r (held d))"
proof -
  have "(\<exists>y \<in> set d. collides r y) \<longleftrightarrow> \<not> lock_rule r (held d)"
    unfolding lock_rule_def held_iff [OF wf] lock_at_def
    using collides_iff [OF wf_ranges_range [OF wf] r(1,2)] wf_range_not_unlocking [OF wf_ranges_range [OF wf]]
    by blast
  with r show ?thesis
    unfolding fits_def findCollision_complete [OF wf less_imp_le [OF r(2)]]
    by (auto simp: find_None_iff)
qed


section \<open>The interface of a lock set\<close>

text \<open>
  What the lock table of the master relies on: a lock set shows, for every byte and owner, the lock
  that is held; a request is admitted by a rule over that view; inserting an admitted request
  succeeds, keeps the set well formed and updates the view; exclusive locks exclude.
\<close>

definition sub_view :: "('p \<Rightarrow> 'k \<Rightarrow> 't option) \<Rightarrow> ('p \<Rightarrow> 'k \<Rightarrow> 't option) \<Rightarrow> bool" where
  "sub_view h h' \<longleftrightarrow> (\<forall>p k t. h p k = Some t \<longrightarrow> h' p k = Some t)"

locale lock_store =
  fixes empty :: "'s"
    and admits :: "'s \<Rightarrow> 'r \<Rightarrow> bool option"
    and insert :: "'s \<Rightarrow> 'r \<Rightarrow> 's option"
    and view :: "'s \<Rightarrow> 'p \<Rightarrow> 'k \<Rightarrow> 't option"
    and invar :: "'s \<Rightarrow> bool"
    and valid :: "'r \<Rightarrow> bool"
    and releases :: "'r \<Rightarrow> bool"
    and rule :: "'r \<Rightarrow> ('p \<Rightarrow> 'k \<Rightarrow> 't option) \<Rightarrow> bool"
    and update :: "'r \<Rightarrow> ('p \<Rightarrow> 'k \<Rightarrow> 't option) \<Rightarrow> 'p \<Rightarrow> 'k \<Rightarrow> 't option"
    and excl :: "'t"
  assumes invar_empty: "invar empty"
    and view_empty: "view empty p k = None"
    and admits_rule: "invar s \<Longrightarrow> valid r \<Longrightarrow> admits s r = Some (releases r \<or> rule r (view s))"
    and insert_spec: "invar s \<Longrightarrow> valid r \<Longrightarrow> admits s r = Some True \<Longrightarrow>
          \<exists>s'. insert s r = Some s' \<and> invar s' \<and> view s' = update r (view s)"
    and excludes: "invar s \<Longrightarrow> view s p k = Some excl \<Longrightarrow> view s p k' = Some t \<Longrightarrow> k' = k"
    and rule_antimono: "sub_view h h' \<Longrightarrow> rule r h' \<Longrightarrow> rule r h"
    and update_mono: "sub_view h h' \<Longrightarrow> sub_view (update r h) (update r h')"
begin

lemma insert_admitted:
  assumes "invar s" "valid r" "releases r \<or> rule r (view s)"
  shows "\<exists>s'. insert s r = Some s' \<and> invar s' \<and> view s' = update r (view s)"
  using insert_spec [OF assms(1,2)] admits_rule [OF assms(1,2)] assms(3) by simp

text \<open>
  Requests that all agree with one state \<open>h\<close> can be inserted one after the other without asking
  for admission, and the result is what the requests say.
\<close>

lemma insert_consistent:
  assumes "\<And>r. r \<in> set rs \<Longrightarrow> valid r \<and> rule r h \<and> update r h = h"
    and "invar s" "sub_view (view s) h"
  shows "\<exists>s'. fold_opt insert s rs = Some s' \<and> invar s' \<and> view s' = fold update rs (view s)"
  using assms
proof (induction rs arbitrary: s)
  case (Cons r rs)
  then have r: "valid r" "rule r h" "update r h = h" by auto
  have "rule r (view s)" using rule_antimono [OF Cons.prems(3) r(2)] .
  then obtain s' where s': "insert s r = Some s'" "invar s'" "view s' = update r (view s)"
    using insert_admitted [OF Cons.prems(2) r(1)] by blast
  have "sub_view (view s') h" using update_mono [OF Cons.prems(3), of r] s'(3) r(3) by simp
  with Cons.IH [OF _ s'(2)] Cons.prems(1) s' show ?case by auto
qed simp

end

definition wf_lock :: "lock_range \<Rightarrow> bool" where
  "wf_lock r \<longleftrightarrow> wf_request r \<and> lr_start r < lr_end r"

text \<open>A request with an empty or reversed range changes nothing, if its window is valid.\<close>

lemma insert_empty:
  assumes "wf_ranges d" "lr_end r \<le> lr_start r" "insert_range d r = Some d'"
  shows "d' = d"
proof -
  have "insert_loop [] xs r = Some ([], xs, r)" for xs using assms(2) by (cases xs) simp_all
  moreover have "\<not> unlocking x" if "x \<in> set d" for x
    using assms(1) that by (auto simp: wf_ranges_def wf_range_def list_all_iff unlocking_def)
  then have "filter (\<lambda>x. \<not> unlocking x) (drop i (take j d)) = drop i (take j d)" for i j
    by (auto simp: filter_id_conv dest: in_set_dropD in_set_takeD)
  ultimately have w: "scan_start d (lr_start r) \<le> scan_end d (lr_end r)"
      "d' = take (scan_start d (lr_start r)) d @ drop (scan_start d (lr_start r)) (take (scan_end d (lr_end r)) d) @ drop (scan_end d (lr_end r)) d"
    using assms(2,3) by (auto simp: insert_range_def Let_def split: if_splits)
  show ?thesis unfolding w(2) by (rule take_cut_drop [OF w(1)])
qed

lemma fits_unlocking:
  "wf_ranges d \<Longrightarrow> lr_start r \<le> lr_end r \<Longrightarrow> unlocking r \<Longrightarrow> fits d r = Some True"
  by (simp add: fits_def findCollision_complete)

interpretation lr: lock_store "[]" fits insert_range held wf_ranges wf_lock unlocking
  lock_rule set_lock kExclusive
proof (unfold_locales, goal_cases)
  case 1
  show ?case by (simp add: wf_ranges_def)
next
  case 2
  show ?case by (simp add: held_def)
next
  case (3 s r)
  then show ?case
    using fits_unlocking [of s r] fits_iff_rule [of s r] by (cases "unlocking r") (auto simp: wf_lock_def)
next
  case (4 s r)
  then show ?case using insert_range_refines [of s r] by (simp add: wf_lock_def)
next
  case (5 s p k k' t)
  then show ?case by (rule held_exclusive)
next
  case (6 h h' r)
  then show ?case unfolding sub_view_def lock_rule_def by blast
next
  case (7 h h' r)
  then show ?case by (auto simp: sub_view_def set_lock_def)
qed


section \<open>Properties\<close>

lemmas range_eval = wf_ranges_def wf_range_def before_def sorted_owners_def wf_lock_def wf_request_def
  okey_def owners_eq_def owner_eq_def fits_def findCollision_def scan_start_def scan_end_def
  partition_point_def collides_def overlaps_def unlocking_def shared_def insert_range_def sticks_def
  take_over_def the_owner_def eraseOwner_def addOwners_def owner_less_def erase_at_def markUnlocking_def
  LockRange_def

text \<open>C3: Inserting an admitted request into a well-formed lock set runs to the end without a failed
  assertion, leaves the set sorted, disjoint and well formed, and changes exactly what the request
  says: its owner's lock on every byte of the range, and nothing else.\<close>

theorem insert_refines:
  assumes "wf_ranges d" and "wf_lock r" and "fits d r = Some True"
  shows "\<exists>d'. insert_range d r = Some d' \<and> wf_ranges d' \<and> held d' = set_lock r (held d)"
  by (rule lr.insert_spec [OF assms])

theorem insert_refines_witness:
  defines "a \<equiv> \<lparr>ow_owner = 1, ow_sessionid = 1, ow_reqid = 5, ow_msgid = 6\<rparr>"
    and "b \<equiv> \<lparr>ow_owner = 2, ow_sessionid = 1, ow_reqid = 7, ow_msgid = 8\<rparr>"
  shows "(\<exists>d'. insert_range [LockRange kShared 0 10 a] (LockRange kShared 4 20 b) = Some d'
       \<and> wf_ranges d' \<and> held d' = set_lock (LockRange kShared 4 20 b) (held [LockRange kShared 0 10 a]))
     \<and> insert_range [LockRange kShared 0 10 a] (LockRange kShared 4 20 b) =
         Some [LockRange kShared 0 4 a, (LockRange kShared 4 10 a)\<lparr>lr_owners := [a, b]\<rparr>, LockRange kShared 10 20 b]"
  using insert_refines [of "[LockRange kShared 0 10 a]" "LockRange kShared 4 20 b"]
  by (simp add: range_eval a_def b_def)

text \<open>C18: The windowed scan of \<^verbatim>\<open>findCollision\<close> finds exactly what a scan of the whole
  lock set would find: the first range in conflict with the request.\<close>

theorem findCollision_first:
  assumes "wf_ranges d" and "lr_start r \<le> lr_end r"
  shows "findCollision d r = Some (if unlocking r then None else find (collides r) d)"
  by (rule findCollision_complete [OF assms])

theorem findCollision_first_witness:
  defines "a \<equiv> \<lparr>ow_owner = 1, ow_sessionid = 1, ow_reqid = 5, ow_msgid = 6\<rparr>"
    and "b \<equiv> \<lparr>ow_owner = 2, ow_sessionid = 1, ow_reqid = 7, ow_msgid = 8\<rparr>"
  shows "findCollision [LockRange kShared 0 10 a, LockRange kExclusive 10 20 a] (LockRange kShared 5 15 b)
     = Some (find (collides (LockRange kShared 5 15 b)) [LockRange kShared 0 10 a, LockRange kExclusive 10 20 a])
     \<and> findCollision [LockRange kShared 0 10 a, LockRange kExclusive 10 20 a] (LockRange kShared 5 15 b)
     = Some (Some (LockRange kExclusive 10 20 a))"
  using findCollision_first [of "[LockRange kShared 0 10 a, LockRange kExclusive 10 20 a]" "LockRange kShared 5 15 b"]
  by (simp add: range_eval a_def b_def)

text \<open>C17: A request is admitted exactly when it unlocks or when, on every byte it covers, every lock of
  another owner and the request itself are both shared.\<close>

theorem fits_iff_lock_rule:
  assumes "wf_ranges d" and "wf_lock r"
  shows "fits d r = Some (unlocking r \<or> lock_rule r (held d))"
  by (rule lr.admits_rule [OF assms])

theorem fits_iff_lock_rule_witness:
  defines "a \<equiv> \<lparr>ow_owner = 1, ow_sessionid = 1, ow_reqid = 5, ow_msgid = 6\<rparr>"
    and "b \<equiv> \<lparr>ow_owner = 2, ow_sessionid = 1, ow_reqid = 7, ow_msgid = 8\<rparr>"
  shows "fits [LockRange kExclusive 0 10 a] (LockRange kShared 4 20 b) = Some False
     \<and> \<not> lock_rule (LockRange kShared 4 20 b) (held [LockRange kExclusive 0 10 a])"
  using fits_iff_lock_rule [of "[LockRange kExclusive 0 10 a]" "LockRange kShared 4 20 b"]
  by (simp add: range_eval a_def b_def)

end
