(* ===== verification/FileLocks.thy ===== *)
theory FileLocks
  imports LockRanges "HOL-Library.Multiset"
begin

text \<open>
  The lock table of the master: \<^verbatim>\<open>FileLocks\<close> of \<^verbatim>\<open>src/src/master/locks.h\<close> and
  \<^verbatim>\<open>locks.cc\<close>. It keeps, per inode, the set of granted locks and the queue of waiting
  ones. Both are hash tables in the code; a function that iterates over one takes the iteration
  order as an argument.

  \<^const>\<open>None\<close> is again a failed assertion or undefined behaviour.
\<close>

section \<open>State and operations\<close>

record file_locks =
  active_locks :: "nat \<rightharpoonup> lock_ranges"
  pending_locks :: "nat \<rightharpoonup> lock_ranges"

definition FileLocks :: file_locks where
  "FileLocks = \<lparr>active_locks = Map.empty, pending_locks = Map.empty\<rparr>"

text \<open>\<^verbatim>\<open>operator<\<close> on lock ranges, and insertion at the lower bound.\<close>

definition range_less :: "lock_range \<Rightarrow> lock_range \<Rightarrow> bool" where
  "range_less r other \<longleftrightarrow> lr_start r < lr_start other
     \<or> (lr_start r = lr_start other \<and> lr_end r < lr_end other)"

definition queue_insert :: "lock_range \<Rightarrow> lock_ranges \<Rightarrow> lock_ranges" where
  "queue_insert lock queue = insert_at (partition_point (\<lambda>x. range_less x lock) queue) lock queue"

definition entry :: "(nat \<rightharpoonup> lock_ranges) \<Rightarrow> nat \<Rightarrow> lock_ranges" where
  "entry m inode = (case m inode of None \<Rightarrow> [] | Some l \<Rightarrow> l)"

definition enqueue :: "file_locks \<Rightarrow> nat \<Rightarrow> lock_range \<Rightarrow> file_locks" where
  "enqueue fl inode lock =
     fl\<lparr>pending_locks := (pending_locks fl)(inode \<mapsto> queue_insert lock (entry (pending_locks fl) inode))\<rparr>"

definition apply_lock ::
  "file_locks \<Rightarrow> nat \<Rightarrow> lock_range \<Rightarrow> bool \<Rightarrow> (bool \<times> file_locks) option" where
  "apply_lock fl inode lock nonblocking =
     (let locks = entry (active_locks fl) inode;
          fl' = fl\<lparr>active_locks := (active_locks fl)(inode \<mapsto> locks)\<rparr>
      in case fits locks lock of
           None \<Rightarrow> None
         | Some True \<Rightarrow>
             (case insert_range locks lock of
                None \<Rightarrow> None
              | Some locks' \<Rightarrow>
                  Some (True, fl'\<lparr>active_locks := (active_locks fl')(inode :=
                                   (if length locks' = 0 then None else Some locks'))\<rparr>))
         | Some False \<Rightarrow>
             Some (False, if \<not> nonblocking \<and> \<not> unlocking lock then enqueue fl' inode lock else fl'))"

definition sharedLock ::
  "file_locks \<Rightarrow> nat \<Rightarrow> nat \<Rightarrow> nat \<Rightarrow> lock_owner \<Rightarrow> bool \<Rightarrow> (bool \<times> file_locks) option" where
  "sharedLock fl inode start end' owner nonblocking =
     apply_lock fl inode (LockRange kShared start end' owner) nonblocking"

definition exclusiveLock ::
  "file_locks \<Rightarrow> nat \<Rightarrow> nat \<Rightarrow> nat \<Rightarrow> lock_owner \<Rightarrow> bool \<Rightarrow> (bool \<times> file_locks) option" where
  "exclusiveLock fl inode start end' owner nonblocking =
     apply_lock fl inode (LockRange kExclusive start end' owner) nonblocking"

definition unlock ::
  "file_locks \<Rightarrow> nat \<Rightarrow> nat \<Rightarrow> nat \<Rightarrow> lock_owner \<Rightarrow> (bool \<times> file_locks) option" where
  "unlock fl inode start end' owner =
     apply_lock fl inode (LockRange kUnlock start end' owner) False"

definition unlock_inode :: "file_locks \<Rightarrow> nat \<Rightarrow> file_locks" where
  "unlock_inode fl inode = fl\<lparr>active_locks := (active_locks fl)(inode := None)\<rparr>"

definition probe_collision ::
  "file_locks \<Rightarrow> nat \<Rightarrow> lock_type \<Rightarrow> nat \<Rightarrow> nat \<Rightarrow> lock_owner \<Rightarrow> lock_range option option" where
  "probe_collision fl inode type start end' owner =
     (case active_locks fl inode of
        None \<Rightarrow> Some None
      | Some locks \<Rightarrow> findCollision locks (LockRange type start end' owner))"

text \<open>
  \<^verbatim>\<open>unlock(inode, pred)\<close> removes the owners that satisfy the predicate from every lock,
  drops the locks left without owners and returns the hull of the changed ranges.
\<close>

definition uint64_max :: nat where
  "uint64_max = 18446744073709551615"

fun drop_owners ::
  "(lock_owner \<Rightarrow> bool) \<Rightarrow> lock_ranges \<Rightarrow> nat \<times> nat \<Rightarrow> lock_ranges \<times> (nat \<times> nat)" where
  "drop_owners P [] acc = ([], acc)"
| "drop_owners P (lock # locks) (start, end') =
     (let rest = filter (\<lambda>owner. \<not> P owner) (lr_owners lock);
          acc = (if length rest \<noteq> length (lr_owners lock)
                 then (min start (lr_start lock), max end' (lr_end lock)) else (start, end'));
          (locks', acc') = drop_owners P locks acc
      in (if rest \<noteq> [] then lock\<lparr>lr_owners := rest\<rparr> # locks' else locks', acc'))"

definition unlock_owners ::
  "file_locks \<Rightarrow> nat \<Rightarrow> (lock_owner \<Rightarrow> bool) \<Rightarrow> (nat \<times> nat) \<times> file_locks" where
  "unlock_owners fl inode P =
     (case active_locks fl inode of
        None \<Rightarrow> ((uint64_max, 0), fl)
      | Some locks \<Rightarrow>
          let (locks', range) = drop_owners P locks (uint64_max, 0)
          in (range, fl\<lparr>active_locks := (active_locks fl)(inode \<mapsto> locks')\<rparr>))"

definition gatherCandidates ::
  "file_locks \<Rightarrow> nat \<Rightarrow> nat \<Rightarrow> nat \<Rightarrow> (lock_ranges \<times> file_locks) option" where
  "gatherCandidates fl inode start end' =
     (case pending_locks fl inode of
        None \<Rightarrow> Some ([], fl)
      | Some queue \<Rightarrow>
          let first = partition_point (\<lambda>lock. lr_start lock < start) queue;
              last' = partition_point (\<lambda>lock. \<not> end' < lr_start lock) queue;
              first' = (if first \<noteq> 0 then first - 1 else first)
          in if last' < first' then None
             else Some (drop first' (take last' queue),
                        fl\<lparr>pending_locks := (pending_locks fl)(inode \<mapsto> take first' queue @ drop last' queue)\<rparr>))"

text \<open>
  The predicates given to \<^verbatim>\<open>removePending\<close> read the only owner of a lock and so may
  fail its assertion: their result is optional.
\<close>

fun remove_if :: "('a \<Rightarrow> bool option) \<Rightarrow> 'a list \<Rightarrow> 'a list option" where
  "remove_if P [] = Some []"
| "remove_if P (x # xs) =
     (case P x of
        None \<Rightarrow> None
      | Some b \<Rightarrow> (case remove_if P xs of
                     None \<Rightarrow> None
                   | Some ys \<Rightarrow> Some (if b then ys else x # ys)))"

definition removePending ::
  "file_locks \<Rightarrow> nat \<Rightarrow> (lock_range \<Rightarrow> bool option) \<Rightarrow> file_locks option" where
  "removePending fl inode P =
     (case pending_locks fl inode of
        None \<Rightarrow> Some fl
      | Some queue \<Rightarrow>
          (case remove_if P queue of
             None \<Rightarrow> None
           | Some queue' \<Rightarrow>
               Some (fl\<lparr>pending_locks := (pending_locks fl)(inode :=
                          (if queue' = [] then None else Some queue'))\<rparr>)))"

definition clear :: "file_locks \<Rightarrow> file_locks" where
  "clear fl = fl\<lparr>active_locks := Map.empty\<rparr>"

definition insertActive :: "file_locks \<Rightarrow> nat \<Rightarrow> lock_range \<Rightarrow> file_locks option" where
  "insertActive fl inode lock =
     map_option (\<lambda>locks. fl\<lparr>active_locks := (active_locks fl)(inode \<mapsto> locks)\<rparr>)
       (insert_range (entry (active_locks fl) inode) lock)"

definition insertPending :: "file_locks \<Rightarrow> nat \<Rightarrow> lock_range \<Rightarrow> file_locks" where
  "insertPending fl inode lock =
     fl\<lparr>pending_locks := (pending_locks fl)(inode \<mapsto> queue_insert lock (entry (pending_locks fl) inode))\<rparr>"

definition getActiveLocks :: "file_locks \<Rightarrow> nat \<Rightarrow> lock_ranges option" where
  "getActiveLocks fl inode = active_locks fl inode"

definition getPendingLocks :: "file_locks \<Rightarrow> nat \<Rightarrow> lock_ranges option" where
  "getPendingLocks fl inode = pending_locks fl inode"

section \<open>Listing and storing locks\<close>

definition type_code :: "lock_type \<Rightarrow> nat" where
  "type_code t = (case t of kInvalid \<Rightarrow> 0 | kUnlock \<Rightarrow> 1 | kShared \<Rightarrow> 2 | kExclusive \<Rightarrow> 4)"

text \<open>
  The cast of a stored 16-bit type back to the enumeration; a code with no enumerator is
  \<^const>\<open>None\<close>.
\<close>

definition code_type :: "nat \<Rightarrow> lock_type option" where
  "code_type c = (if c = 0 then Some kInvalid else if c = 1 then Some kUnlock
     else if c = 2 then Some kShared else if c = 4 then Some kExclusive else None)"

record lock_info =
  li_version :: nat
  li_inode :: nat
  li_owner :: nat
  li_sessionid :: nat
  li_type :: nat
  li_start :: nat
  li_end :: nat

definition info_of :: "nat \<Rightarrow> lock_range \<Rightarrow> lock_owner \<Rightarrow> lock_info" where
  "info_of inode lock owner =
     \<lparr>li_version = 0, li_inode = inode, li_owner = ow_owner owner, li_sessionid = ow_sessionid owner,
      li_type = type_code (lr_type lock), li_start = lr_start lock, li_end = lr_end lock\<rparr>"

text \<open>
  The inner loop of both copy functions appends the owners from the iterator on and stops the whole
  function when the count is used up (the flag of the result).
\<close>

fun copy_owners ::
  "nat \<Rightarrow> lock_range \<Rightarrow> lock_owner list \<Rightarrow> int \<Rightarrow> lock_info list \<Rightarrow> bool \<times> int \<times> lock_info list" where
  "copy_owners inode lock [] cnt data = (False, cnt, data)"
| "copy_owners inode lock (owner # owners) cnt data =
     (let data' = data @ [info_of inode lock owner]
      in if cnt - 1 \<le> 0 then (True, cnt - 1, data')
         else copy_owners inode lock owners (cnt - 1) data')"

fun copy_locks ::
  "nat \<Rightarrow> lock_ranges \<Rightarrow> int \<Rightarrow> int \<Rightarrow> int \<Rightarrow> lock_info list \<Rightarrow> (bool \<times> int \<times> int \<times> lock_info list) option" where
  "copy_locks inode [] index pos cnt data = Some (False, pos, cnt, data)"
| "copy_locks inode (lock # locks) index pos cnt data =
     (let n = int (length (lr_owners lock)) in
      if pos + n \<le> index then copy_locks inode locks index (pos + n) cnt data
      else if n = 0 then None
      else let skip = max (index - pos) 0;
               (stop, cnt', data') = copy_owners inode lock (drop (nat skip) (lr_owners lock)) cnt data
           in if stop then Some (True, pos + skip, cnt', data')
              else copy_locks inode locks index (pos + skip) cnt' data')"

fun copy_entries ::
  "(nat \<times> lock_ranges) list \<Rightarrow> int \<Rightarrow> int \<Rightarrow> int \<Rightarrow> lock_info list \<Rightarrow> lock_info list option" where
  "copy_entries [] index pos cnt data = Some data"
| "copy_entries ((inode, locks) # entries) index pos cnt data =
     (case copy_locks inode locks index pos cnt data of
        None \<Rightarrow> None
      | Some (stop, pos', cnt', data') \<Rightarrow>
          if stop then Some data' else copy_entries entries index pos' cnt' data')"

text \<open>\<open>order\<close> lists the keys of the table as the hash table iterates over them.\<close>

definition entries_of :: "(nat \<rightharpoonup> lock_ranges) \<Rightarrow> nat list \<Rightarrow> (nat \<times> lock_ranges) list" where
  "entries_of m order = List.map_filter (\<lambda>i. map_option (Pair i) (m i)) order"

definition copyToVector :: "(nat \<times> lock_ranges) list \<Rightarrow> int \<Rightarrow> int \<Rightarrow> lock_info list option" where
  "copyToVector entries index cnt =
     (if cnt \<le> 0 then Some [] else copy_entries entries index 0 cnt [])"

definition copyInodeToVector :: "lock_ranges \<Rightarrow> nat \<Rightarrow> int \<Rightarrow> int \<Rightarrow> lock_info list option" where
  "copyInodeToVector locks inode index cnt =
     (if cnt \<le> 0 then Some []
      else map_option (\<lambda>(stop, pos, cnt', data). data) (copy_locks inode locks index 0 cnt []))"

definition copyActiveToVector :: "file_locks \<Rightarrow> nat list \<Rightarrow> int \<Rightarrow> int \<Rightarrow> lock_info list option" where
  "copyActiveToVector fl order = copyToVector (entries_of (active_locks fl) order)"

definition copyPendingToVector :: "file_locks \<Rightarrow> nat list \<Rightarrow> int \<Rightarrow> int \<Rightarrow> lock_info list option" where
  "copyPendingToVector fl order = copyToVector (entries_of (pending_locks fl) order)"

definition copyActiveInode :: "file_locks \<Rightarrow> nat \<Rightarrow> int \<Rightarrow> int \<Rightarrow> lock_info list option" where
  "copyActiveInode fl inode index cnt =
     (case active_locks fl inode of
        None \<Rightarrow> Some []
      | Some locks \<Rightarrow> copyInodeToVector locks inode index cnt)"

definition copyPendingInode :: "file_locks \<Rightarrow> nat \<Rightarrow> int \<Rightarrow> int \<Rightarrow> lock_info list option" where
  "copyPendingInode fl inode index cnt =
     (case pending_locks fl inode of
        None \<Rightarrow> Some []
      | Some locks \<Rightarrow> copyInodeToVector locks inode index cnt)"

text \<open>
  The stored form: a count followed by that many records, for the granted locks and then for the
  waiting ones. The byte encoding of a record and the file are not modelled: a stream is the list
  of its items, and reading past its end is the exception (\<^const>\<open>None\<close>).
\<close>

datatype lock_item = Count nat | Record lock_info

definition infos :: "(nat \<times> lock_ranges) list \<Rightarrow> lock_info list" where
  "infos entries =
     concat (map (\<lambda>(inode, locks). concat (map (\<lambda>lock. map (info_of inode lock) (lr_owners lock)) locks)) entries)"

definition store_table :: "(nat \<times> lock_ranges) list \<Rightarrow> lock_item list" where
  "store_table entries =
     Count (sum_list (map (\<lambda>(inode, locks). sum_list (map (\<lambda>lock. length (lr_owners lock)) locks)) entries))
     # map Record (infos entries)"

definition store_locks :: "file_locks \<Rightarrow> nat list \<Rightarrow> nat list \<Rightarrow> lock_item list" where
  "store_locks fl active_order pending_order =
     store_table (entries_of (active_locks fl) active_order)
     @ store_table (entries_of (pending_locks fl) pending_order)"

definition lock_of_info :: "lock_info \<Rightarrow> lock_range option" where
  "lock_of_info info =
     map_option (\<lambda>t. LockRange t (li_start info) (li_end info)
         \<lparr>ow_owner = li_owner info, ow_sessionid = li_sessionid info, ow_reqid = 0, ow_msgid = 0\<rparr>)
       (code_type (li_type info))"

fun load_records ::
  "nat \<Rightarrow> lock_item list \<Rightarrow> (file_locks \<Rightarrow> nat \<Rightarrow> lock_range \<Rightarrow> file_locks option) \<Rightarrow> file_locks
     \<Rightarrow> (file_locks \<times> lock_item list) option" where
  "load_records 0 items ins fl = Some (fl, items)"
| "load_records (Suc n) (Record info # items) ins fl =
     (case lock_of_info info of
        None \<Rightarrow> None
      | Some lock \<Rightarrow> (case ins fl (li_inode info) lock of
                        None \<Rightarrow> None
                      | Some fl' \<Rightarrow> load_records n items ins fl'))"
| "load_records (Suc n) _ ins fl = None"

fun load_table ::
  "lock_item list \<Rightarrow> (file_locks \<Rightarrow> nat \<Rightarrow> lock_range \<Rightarrow> file_locks option) \<Rightarrow> file_locks
     \<Rightarrow> (file_locks \<times> lock_item list) option" where
  "load_table (Count n # items) ins fl = load_records n items ins fl"
| "load_table _ ins fl = None"

definition append_pending :: "file_locks \<Rightarrow> nat \<Rightarrow> lock_range \<Rightarrow> file_locks option" where
  "append_pending fl inode lock =
     Some (fl\<lparr>pending_locks := (pending_locks fl)(inode \<mapsto> entry (pending_locks fl) inode @ [lock])\<rparr>)"

definition load_locks :: "file_locks \<Rightarrow> lock_item list \<Rightarrow> (file_locks \<times> lock_item list) option" where
  "load_locks fl items =
     (case load_table items insertActive fl of
        None \<Rightarrow> None
      | Some (fl', items') \<Rightarrow> load_table items' append_pending fl')"

section \<open>Invariant and view\<close>

definition wf_pending :: "lock_ranges \<Rightarrow> bool" where
  "wf_pending q \<longleftrightarrow> (\<forall>r \<in> set q. wf_lock r \<and> \<not> unlocking r) \<and> sorted_wrt (\<lambda>a b. \<not> range_less b a) q"

definition wf_file_locks :: "file_locks \<Rightarrow> bool" where
  "wf_file_locks fl \<longleftrightarrow> (\<forall>i. wf_ranges (entry (active_locks fl) i) \<and> wf_pending (entry (pending_locks fl) i))"

text \<open>What is granted on an inode, byte by byte and owner by owner, and who waits.\<close>

definition granted :: "file_locks \<Rightarrow> nat \<Rightarrow> nat \<Rightarrow> owner_key \<Rightarrow> lock_type option" where
  "granted fl i = held (entry (active_locks fl) i)"

definition waiting :: "file_locks \<Rightarrow> nat \<Rightarrow> lock_range multiset" where
  "waiting fl i = mset (entry (pending_locks fl) i)"

section \<open>Queues\<close>

lemma entry_upd [simp]:
  "entry (m(i := Some l)) j = (if j = i then l else entry m j)"
  "entry (m(i := None)) j = (if j = i then [] else entry m j)"
  "entry Map.empty j = []"
  by (simp_all add: entry_def)

lemma entry_Some: "m i = Some l \<Longrightarrow> entry m i = l"
  by (simp add: entry_def)

lemma entry_None: "m i = None \<Longrightarrow> entry m i = []"
  by (simp add: entry_def)

lemma range_less_below: "range_less b l \<Longrightarrow> \<not> range_less b a \<Longrightarrow> range_less a l"
  by (auto simp: range_less_def)

lemma range_less_asym: "range_less a l \<Longrightarrow> \<not> range_less l a"
  by (auto simp: range_less_def)

lemma insert_at_partition_point:
  "insert_at (partition_point P xs) x xs = takeWhile P xs @ x # dropWhile P xs"
  by (simp add: insert_at_def)

lemma mset_queue_insert [simp]: "mset (queue_insert l q) = add_mset l (mset q)"
  unfolding queue_insert_def insert_at_partition_point
  by (metis add_mset_add_single mset.simps(2) mset_append takeWhile_dropWhile_id union_mset_add_mset_right)

lemma set_queue_insert [simp]: "set (queue_insert l q) = insert l (set q)"
  by (simp add: queue_insert_def)

lemma not_below_lower_bound:
  assumes "sorted_wrt (\<lambda>a b. \<not> range_less b a) q" and "y \<in> set (dropWhile (\<lambda>x. range_less x l) q)"
  shows "\<not> range_less y l"
proof -
  have "sorted_wrt (\<lambda>a b. range_less b l \<longrightarrow> range_less a l) q"
    by (rule sorted_wrt_mono_rel [OF _ assms(1)]) (blast intro: range_less_below)
  then show ?thesis using assms(2) by (rule dropWhile_none)
qed

lemma sorted_queue_insert:
  assumes "sorted_wrt (\<lambda>a b. \<not> range_less b a) q"
  shows "sorted_wrt (\<lambda>a b. \<not> range_less b a) (queue_insert l q)"
proof -
  let ?P = "\<lambda>x. range_less x l"
  have "sorted_wrt (\<lambda>a b. \<not> range_less b a) (takeWhile ?P q @ dropWhile ?P q)"
    using assms by (simp only: takeWhile_dropWhile_id)
  moreover have "\<forall>y \<in> set (takeWhile ?P q). \<not> range_less l y"
    by (blast dest: takeWhile_all range_less_asym)
  moreover have "\<forall>y \<in> set (dropWhile ?P q). \<not> range_less y l"
    using not_below_lower_bound [OF assms] by blast
  ultimately show ?thesis
    unfolding queue_insert_def insert_at_partition_point sorted_wrt_append sorted_wrt.simps list.set
    by blast
qed

lemma wf_pending_queue_insert [inv_intros]:
  "wf_pending q \<Longrightarrow> wf_lock l \<Longrightarrow> \<not> unlocking l \<Longrightarrow> wf_pending (queue_insert l q)"
  by (auto simp: wf_pending_def sorted_queue_insert)

lemma wf_pending_Nil [simp]: "wf_pending []"
  by (simp add: wf_pending_def)

lemma wf_pending_filter: "wf_pending q \<Longrightarrow> wf_pending (filter P q)"
  by (auto simp: wf_pending_def sorted_wrt_filter)

lemma wf_pending_cut: "wf_pending (xs @ ys @ zs) \<Longrightarrow> wf_pending (xs @ zs)"
  unfolding wf_pending_def using sorted_wrt_drop_mid by auto

lemma wf_ranges_Nil [simp]: "wf_ranges []"
  by (rule lr.invar_empty)

section \<open>Applying a lock\<close>

lemma wf_file_locksD:
  "wf_file_locks fl \<Longrightarrow> wf_ranges (entry (active_locks fl) i)"
  "wf_file_locks fl \<Longrightarrow> wf_pending (entry (pending_locks fl) i)"
  by (simp_all add: wf_file_locks_def)

lemma wf_FileLocks: "wf_file_locks FileLocks"
  by (simp add: wf_file_locks_def FileLocks_def)

lemma wf_enqueue [inv_intros]:
  "wf_file_locks fl \<Longrightarrow> wf_lock l \<Longrightarrow> \<not> unlocking l \<Longrightarrow> wf_file_locks (enqueue fl i l)"
  by (simp add: wf_file_locks_def enqueue_def wf_pending_queue_insert)

lemma wf_refresh:
  "wf_file_locks fl \<Longrightarrow> wf_file_locks (fl\<lparr>active_locks := (active_locks fl)(i \<mapsto> entry (active_locks fl) i)\<rparr>)"
  by (simp add: wf_file_locks_def)

lemma set_lock_empty:
  "lr_start l = lr_end l \<Longrightarrow> set_lock l h = h"
  by (auto simp: set_lock_def covers_def fun_eq_iff)

lemma apply_lock_total:
  assumes "wf_file_locks fl" and "wf_request l" "lr_start l \<le> lr_end l"
  shows "\<exists>ok fl'. apply_lock fl i l nb = Some (ok, fl')
     \<and> fits (entry (active_locks fl) i) l = Some ok
     \<and> granted fl' = (if ok then (granted fl)(i := set_lock l (granted fl i)) else granted fl)
     \<and> waiting fl' = (if \<not> ok \<and> \<not> nb then (waiting fl)(i := add_mset l (waiting fl i)) else waiting fl)
     \<and> (wf_lock l \<or> ok \<longrightarrow> wf_file_locks fl')"
proof -
  let ?d = "entry (active_locks fl) i"
  have d: "wf_ranges ?d" using assms(1) by (rule wf_file_locksD)
  have "findCollision ?d l \<noteq> None"
    using findCollision_complete [OF d assms(3)] by simp
  then obtain ok where ok: "fits ?d l = Some ok" by (auto simp: fits_def)
  show ?thesis
  proof (cases ok)
    case True
    with ok insert_range_refines [OF d assms(2,3)] obtain d' where
      d': "insert_range ?d l = Some d'" "wf_ranges d'" "held d' = set_lock l (held ?d)" by auto
    show ?thesis
      using ok True d' assms(1)
      by (intro exI [of _ True])
         (auto simp: apply_lock_def granted_def waiting_def wf_file_locks_def fun_eq_iff)
  next
    case False
    with ok d assms(3) have nu: "\<not> unlocking l" using fits_unlocking by fastforce
    show ?thesis
      using ok False nu wf_enqueue [OF wf_refresh [OF assms(1)], of l] wf_refresh [OF assms(1)]
      by (intro exI [of _ False])
         (auto simp: apply_lock_def granted_def waiting_def enqueue_def fun_eq_iff)
  qed
qed

lemma apply_lock_rule:
  assumes "wf_file_locks fl" and "wf_lock l"
  shows "\<exists>fl'. apply_lock fl i l nb = Some (unlocking l \<or> lock_rule l (granted fl i), fl')
     \<and> wf_file_locks fl'"
proof -
  have "fits (entry (active_locks fl) i) l = Some (unlocking l \<or> lock_rule l (granted fl i))"
    using lr.admits_rule [OF wf_file_locksD(1) [OF assms(1)] assms(2)] by (simp add: granted_def)
  then show ?thesis
    using apply_lock_total [OF assms(1), of l i nb] assms(2) by (auto simp: wf_lock_def)
qed

section \<open>Removing locks and waiting requests\<close>

lemma drop_owners_set:
  "x \<in> set (fst (drop_owners P ls acc)) \<Longrightarrow>
     \<exists>y \<in> set ls. x = y\<lparr>lr_owners := filter (\<lambda>o'. \<not> P o') (lr_owners y)\<rparr> \<and> lr_owners x \<noteq> []"
  by (induction P ls acc rule: drop_owners.induct) (auto simp: Let_def split: prod.splits if_splits)

lemma wf_range_keep_owners:
  assumes "wf_range y" "filter P (lr_owners y) \<noteq> []"
  shows "wf_range (y\<lparr>lr_owners := filter P (lr_owners y)\<rparr>)"
proof -
  have "length (filter P (lr_owners y)) = 1" if "length (lr_owners y) = 1"
    using assms(2) that by (cases "lr_owners y") (auto split: if_splits)
  with assms show ?thesis
    by (auto simp: wf_range_def sorted_owners_def sorted_wrt_map sorted_wrt_filter)
qed

lemma wf_drop_owners [inv_intros]: "wf_ranges ls \<Longrightarrow> wf_ranges (fst (drop_owners P ls acc))"
proof (induction P ls acc rule: drop_owners.induct)
  case (2 P l ls s e)
  have wf: "wf_range l" "wf_ranges ls" and before: "\<forall>y \<in> set ls. before l y"
    using "2.prems" by (auto simp: wf_ranges_def)
  define rest where "rest = filter (\<lambda>o'. \<not> P o') (lr_owners l)"
  define acc where "acc = (if length rest \<noteq> length (lr_owners l)
    then (min s (lr_start l), max e (lr_end l)) else (s, e))"
  have IH: "wf_ranges (fst (drop_owners P ls acc))"
    using "2.IH" [OF rest_def acc_def wf(2)] .
  have "before (l\<lparr>lr_owners := rest\<rparr>) x" if "x \<in> set (fst (drop_owners P ls acc))" for x
    using drop_owners_set [OF that] before by (auto simp: before_def)
  with IH wf_range_keep_owners [OF wf(1), of "\<lambda>o'. \<not> P o'"] show ?case
    by (auto simp: Let_def wf_ranges_def rest_def [symmetric] acc_def [symmetric] split: prod.splits)
qed simp

lemma held_Cons:
  "held (l # ls) p k = (if covers l p \<and> k \<in> keys l then Some (lr_type l) else held ls p k)"
  by (simp add: held_def)

lemma keys_keep_owners:
  "(\<And>x. P x \<longleftrightarrow> Q (okey x)) \<Longrightarrow>
     keys (l\<lparr>lr_owners := filter (\<lambda>x. \<not> P x) (lr_owners l)\<rparr>) = {k \<in> keys l. \<not> Q k}"
  by (auto simp: keys_def)

lemma held_drop_owners:
  assumes "\<And>x. P x \<longleftrightarrow> Q (okey x)"
  shows "held (fst (drop_owners P ls acc)) p k = (if Q k then None else held ls p k)"
  using assms
proof (induction P ls acc rule: drop_owners.induct)
  case (2 P l ls s e)
  have "covers (l\<lparr>lr_owners := rest\<rparr>) p = covers l p" for rest by (simp add: covers_def)
  moreover have "filter (\<lambda>x. \<not> P x) (lr_owners l) = [] \<Longrightarrow> k \<in> keys l \<Longrightarrow> Q k"
    using "2.prems" by (auto simp: keys_def filter_empty_conv)
  ultimately show ?case
    using "2.IH" [OF refl refl "2.prems"]
    by (auto simp: Let_def held_Cons keys_keep_owners [where P = P and Q = Q, OF "2.prems"] split: prod.splits)
qed (simp add: held_def)

text \<open>The returned range is the hull of the locks that lost an owner.\<close>

lemma drop_owners_hull:
  "snd (drop_owners P ls (s, e)) =
     (fold min (map lr_start (filter (\<lambda>l. \<exists>x \<in> set (lr_owners l). P x) ls)) s,
      fold max (map lr_end (filter (\<lambda>l. \<exists>x \<in> set (lr_owners l). P x) ls)) e)"
proof (induction ls arbitrary: s e)
  case (Cons l ls)
  have "length (filter (\<lambda>x. \<not> P x) (lr_owners l)) \<noteq> length (lr_owners l)
     \<longleftrightarrow> (\<exists>x \<in> set (lr_owners l). P x)"
    by (metis filter_id_conv length_filter_less less_irrefl)
  then show ?case
    using Cons.IH by (auto simp: Let_def split_beta min.commute max.commute)
qed simp

lemma fold_min_le: "fold min xs (s::nat) \<le> s \<and> (\<forall>x \<in> set xs. fold min xs s \<le> x)"
proof (induction xs arbitrary: s)
  case (Cons a xs)
  from Cons.IH [of "min a s"] show ?case by simp
qed simp

lemma fold_max_ge: "(s::nat) \<le> fold max xs s \<and> (\<forall>x \<in> set xs. x \<le> fold max xs s)"
proof (induction xs arbitrary: s)
  case (Cons a xs)
  from Cons.IH [of "max a s"] show ?case by simp
qed simp

lemma drop_owners_covers:
  assumes "l \<in> set ls" "x \<in> set (lr_owners l)" "P x"
  shows "fst (snd (drop_owners P ls acc)) \<le> lr_start l \<and> lr_end l \<le> snd (snd (drop_owners P ls acc))"
proof -
  obtain s e where acc: "acc = (s, e)" by (cases acc)
  let ?ls = "filter (\<lambda>l. \<exists>x \<in> set (lr_owners l). P x) ls"
  have "l \<in> set ?ls" using assms by auto
  then show ?thesis
    unfolding acc drop_owners_hull
    using fold_min_le [of "map lr_start ?ls" s] fold_max_ge [of e "map lr_end ?ls"] by simp
qed

lemma unlock_owners_spec:
  assumes "wf_file_locks fl" and "\<And>x. P x \<longleftrightarrow> Q (okey x)" and "unlock_owners fl i P = (rg, fl')"
  shows "wf_file_locks fl'"
    and "granted fl' = (granted fl)(i := (\<lambda>p k. if Q k then None else granted fl i p k))"
    and "waiting fl' = waiting fl"
    and "granted fl i p k \<noteq> None \<Longrightarrow> Q k \<Longrightarrow> fst rg \<le> p \<and> p < snd rg"
proof -
  let ?d = "entry (active_locks fl) i"
  have eq: "entry (active_locks fl') = (entry (active_locks fl))(i := fst (drop_owners P ?d (uint64_max, 0)))
     \<and> pending_locks fl' = pending_locks fl \<and> rg = snd (drop_owners P ?d (uint64_max, 0))"
    using assms(3) unfolding unlock_owners_def
    by (cases "active_locks fl i") (auto simp: entry_None entry_Some fun_eq_iff split: prod.splits)
  show "wf_file_locks fl'"
    using eq assms(1) wf_drop_owners by (auto simp: wf_file_locks_def)
  show "granted fl' = (granted fl)(i := (\<lambda>p k. if Q k then None else granted fl i p k))"
    using eq held_drop_owners [where P = P and Q = Q, OF assms(2)] by (auto simp: granted_def fun_eq_iff)
  show "waiting fl' = waiting fl"
    using eq by (auto simp: waiting_def)
  assume "granted fl i p k \<noteq> None" and Q: "Q k"
  then obtain l x where "l \<in> set ?d" "covers l p" "x \<in> set (lr_owners l)" "okey x = k"
    by (auto simp: granted_def held_def keys_def find_None_iff)
  with Q assms(2) drop_owners_covers [of l ?d x P "(uint64_max, 0)"] eq
  show "fst rg \<le> p \<and> p < snd rg" by (auto simp: covers_def)
qed

lemma remove_if_filter:
  "(\<And>x. x \<in> set xs \<Longrightarrow> P x = Some (Q x)) \<Longrightarrow> remove_if P xs = Some (filter (\<lambda>x. \<not> Q x) xs)"
  by (induction xs) auto

lemma removePending_spec:
  assumes "wf_file_locks fl" and "\<And>x. x \<in> set (entry (pending_locks fl) i) \<Longrightarrow> P x = Some (Q x)"
  shows "\<exists>fl'. removePending fl i P = Some fl' \<and> wf_file_locks fl' \<and> granted fl' = granted fl
     \<and> waiting fl' = (waiting fl)(i := filter_mset (\<lambda>x. \<not> Q x) (waiting fl i))"
proof (cases "pending_locks fl i")
  case None
  with assms(1) show ?thesis
    by (auto simp: removePending_def waiting_def fun_eq_iff entry_None)
next
  case (Some q)
  then have q: "entry (pending_locks fl) i = q" by (rule entry_Some)
  have rq: "remove_if P q = Some (filter (\<lambda>x. \<not> Q x) q)"
    using assms(2) q by (intro remove_if_filter) simp
  have "wf_pending (filter (\<lambda>x. \<not> Q x) q)"
    using wf_file_locksD(2) [OF assms(1), of i] q by (simp add: wf_pending_filter)
  with assms(1) Some rq q show ?thesis
    by (auto simp: removePending_def wf_file_locks_def granted_def waiting_def fun_eq_iff
        filter_empty_conv)
qed

lemma single_owner_predicate:
  assumes "wf_file_locks fl" and "x \<in> set (entry (pending_locks fl) i)"
  shows "map_option Q (the_owner x) = Some (Q (hd (lr_owners x)))"
proof -
  have "wf_lock x" using wf_file_locksD(2) [OF assms(1), of i] assms(2) by (auto simp: wf_pending_def)
  then show ?thesis by (auto simp: wf_lock_def wf_request_def the_owner_def)
qed

lemma unlock_inode_spec:
  assumes "wf_file_locks fl"
  shows "wf_file_locks (unlock_inode fl i)"
    and "granted (unlock_inode fl i) = (granted fl)(i := (\<lambda>p k. None))"
    and "waiting (unlock_inode fl i) = waiting fl"
  using assms by (auto simp: wf_file_locks_def granted_def waiting_def unlock_inode_def fun_eq_iff held_def)

section \<open>Candidates\<close>

lemma gather_bounds:
  assumes "s \<le> e"
  shows "partition_point (\<lambda>l. lr_start l < s) q \<le> partition_point (\<lambda>l. \<not> e < lr_start l) q"
  using assms by (intro partition_point_mono) auto

lemma gatherCandidates_keeps:
  assumes "wf_file_locks fl" and "gatherCandidates fl i s e = Some (cs, fl')"
  shows "wf_file_locks fl'" "granted fl' = granted fl" "waiting fl = (waiting fl')(i := mset cs + waiting fl' i)"
    "\<forall>c \<in> set cs. wf_lock c \<and> \<not> unlocking c"
proof -
  have "wf_file_locks fl' \<and> granted fl' = granted fl \<and> waiting fl = (waiting fl')(i := mset cs + waiting fl' i)
    \<and> (\<forall>c \<in> set cs. wf_lock c \<and> \<not> unlocking c)"
  proof (cases "pending_locks fl i")
    case None
    then show ?thesis using assms by (auto simp: gatherCandidates_def)
  next
    case (Some q)
    define a where "a = (let n = partition_point (\<lambda>l. lr_start l < s) q in if n \<noteq> 0 then n - 1 else n)"
    define b where "b = partition_point (\<lambda>l. \<not> e < lr_start l) q"
    have q: "entry (pending_locks fl) i = q" using Some by (rule entry_Some)
    have ab: "a \<le> b" and r: "cs = drop a (take b q)" "fl' = fl\<lparr>pending_locks := (pending_locks fl)(i \<mapsto> take a q @ drop b q)\<rparr>"
      using assms(2) Some by (auto simp: gatherCandidates_def Let_def a_def b_def split: if_splits)
    have split: "take a q @ drop a (take b q) @ drop b q = q" using ab by (rule take_cut_drop)
    have wf: "wf_pending (take a q @ drop a (take b q) @ drop b q)"
      using wf_file_locksD(2) [OF assms(1), of i] unfolding q split .
    have perm: "mset q = mset cs + mset (take a q @ drop b q)"
      using arg_cong [OF split, of mset] r(1) by (simp add: union_ac)
    have "\<forall>c \<in> set cs. wf_lock c \<and> \<not> unlocking c" using wf r(1) unfolding wf_pending_def by auto
    then show ?thesis
      using assms(1) wf_pending_cut [OF wf] perm q r(2)
      by (auto simp: wf_file_locks_def granted_def waiting_def fun_eq_iff)
  qed
  then show "wf_file_locks fl'" "granted fl' = granted fl" "waiting fl = (waiting fl')(i := mset cs + waiting fl' i)"
    "\<forall>c \<in> set cs. wf_lock c \<and> \<not> unlocking c" by blast+
qed

lemma gatherCandidates_spec:
  assumes "wf_file_locks fl" and "s \<le> e"
  shows "\<exists>cs fl'. gatherCandidates fl i s e = Some (cs, fl') \<and> wf_file_locks fl'
     \<and> granted fl' = granted fl
     \<and> waiting fl = (waiting fl')(i := mset cs + waiting fl' i)
     \<and> (\<forall>c \<in> set cs. wf_lock c \<and> \<not> unlocking c)"
proof -
  have "gatherCandidates fl i s e \<noteq> None"
    using gather_bounds [OF assms(2)] by (cases "pending_locks fl i") (auto simp: gatherCandidates_def Let_def not_less intro: le_trans [OF diff_le_self])
  then obtain cs fl' where g: "gatherCandidates fl i s e = Some (cs, fl')" by auto
  then show ?thesis using gatherCandidates_keeps [OF assms(1) g] by blast
qed

lemma wf_pending_starts:
  assumes "wf_pending q"
  shows "sorted_wrt (\<lambda>a b. lr_start a \<le> lr_start b) q"
proof (rule sorted_wrt_mono_rel)
  show "sorted_wrt (\<lambda>a b. \<not> range_less b a) q" using assms by (simp add: wf_pending_def)
  show "lr_start a \<le> lr_start b" if "\<not> range_less b a" for a b
    using that by (simp add: range_less_def)
qed

text \<open>
  Which requests are tried again after a change in a range: those that start in the range, and the last
  one of those that start before it.
\<close>

definition candidates :: "lock_ranges \<Rightarrow> nat \<Rightarrow> nat \<Rightarrow> lock_ranges" where
  "candidates q s e =
     (let before = filter (\<lambda>c. lr_start c < s) q
      in (if before = [] then [] else [last before]) @ filter (\<lambda>c. s \<le> lr_start c \<and> lr_start c \<le> e) q)"

lemma filter_sorted_split:
  fixes s e :: nat
  assumes "sorted_wrt (\<lambda>a b. lr_start a \<le> lr_start b) q" "s \<le> e"
  shows "filter (\<lambda>c. \<not> e < lr_start c) q = filter (\<lambda>c. lr_start c < s) q @ filter (\<lambda>c. s \<le> lr_start c \<and> lr_start c \<le> e) q"
  using assms(1)
proof (induction q)
  case (Cons c q)
  show ?case
  proof (cases "lr_start c < s")
    case False
    then have "filter (\<lambda>c. lr_start c < s) q = []" using Cons.prems by (auto simp: filter_empty_conv)
    then show ?thesis using Cons False by auto
  qed (use Cons assms(2) in auto)
qed simp

lemma gatherCandidates_eq:
  assumes "wf_file_locks fl" "s \<le> e"
  shows "map_option fst (gatherCandidates fl i s e) = Some (candidates (entry (pending_locks fl) i) s e)"
proof (cases "pending_locks fl i")
  case None
  then show ?thesis by (simp add: gatherCandidates_def candidates_def entry_None)
next
  case (Some q)
  have q: "entry (pending_locks fl) i = q" using Some by (rule entry_Some)
  have st: "sorted_wrt (\<lambda>a b. lr_start a \<le> lr_start b) q" using wf_pending_starts wf_file_locksD(2) [OF assms(1), of i] q by simp
  define A where "A = filter (\<lambda>c. lr_start c < s) q"
  define B where "B = filter (\<lambda>c. s \<le> lr_start c \<and> lr_start c \<le> e) q"
  have "takeWhile (\<lambda>c. lr_start c < s) q = A"
    unfolding A_def by (rule takeWhile_sorted, rule sorted_wrt_mono_rel [OF _ st]) simp
  then have a: "partition_point (\<lambda>c. lr_start c < s) q = length A" by (simp add: partition_point_def)
  have "takeWhile (\<lambda>c. \<not> e < lr_start c) q = filter (\<lambda>c. \<not> e < lr_start c) q"
    by (rule takeWhile_sorted, rule sorted_wrt_mono_rel [OF _ st]) simp
  then have tb: "takeWhile (\<lambda>c. \<not> e < lr_start c) q = A @ B" using filter_sorted_split [OF st assms(2)] by (simp add: A_def B_def)
  then have b: "partition_point (\<lambda>c. \<not> e < lr_start c) q = length (A @ B)" by (simp add: partition_point_def)
  have t: "take (length (A @ B)) q = A @ B" using take_partition_point [of "\<lambda>c. \<not> e < lr_start c" q] tb b by simp
  have "drop (length A - 1) (A @ B) = (if A = [] then [] else [last A]) @ B" by (cases A rule: rev_cases) simp_all
  moreover have "\<not> length A + length B < length A - Suc 0" by simp
  ultimately show ?thesis
    using Some t by (simp add: gatherCandidates_def candidates_def Let_def q a b tb A_def [symmetric] B_def [symmetric])
qed

text \<open>A request that stays in the queue starts outside of the regarded range.\<close>

lemma gatherCandidates_left:
  assumes "wf_file_locks fl" and "gatherCandidates fl i s e = Some (cs, fl')"
    and "c \<in># waiting fl' i" "pending_locks fl i \<noteq> None"
  shows "lr_start c < s \<or> e < lr_start c"
proof -
  obtain q where Some: "pending_locks fl i = Some q" using assms(4) by auto
  have q: "sorted_wrt (\<lambda>a b. lr_start a \<le> lr_start b) q"
    using wf_pending_starts [OF wf_file_locksD(2) [OF assms(1), of i]] entry_Some [of "pending_locks fl" i q] Some
    by simp
  define a where "a = partition_point (\<lambda>l. lr_start l < s) q"
  have "waiting fl' i = mset (take (a - 1) q @ dropWhile (\<lambda>l. \<not> e < lr_start l) q)"
    using assms(2) Some unfolding a_def
    by (auto simp: gatherCandidates_def Let_def waiting_def split: if_splits)
  with assms(3) consider "c \<in> set (take a q)" | "c \<in> set (dropWhile (\<lambda>l. \<not> e < lr_start l) q)"
    using set_take_subset_set_take [of "a - 1" a q] by auto
  then show ?thesis
  proof cases
    case 1
    then show ?thesis using takeWhile_all [of c "\<lambda>l. lr_start l < s" q] by (simp add: a_def)
  next
    case 2
    have "sorted_wrt (\<lambda>a b. \<not> e < lr_start b \<longrightarrow> \<not> e < lr_start a) q"
      by (rule sorted_wrt_mono_rel [OF _ q]) simp
    from dropWhile_none [OF this 2] show ?thesis by simp
  qed
qed

section \<open>Listing\<close>

lemma copy_owners_spec:
  "cnt > 0 \<Longrightarrow> copy_owners i l os cnt data =
     (if int (length os) \<ge> cnt then (True, 0, data @ take (nat cnt) (map (info_of i l) os))
      else (False, cnt - int (length os), data @ map (info_of i l) os))"
proof (induction i l os cnt data rule: copy_owners.induct)
  case (2 i l x os cnt data)
  show ?case
  proof (cases "cnt = 1")
    case False
    with "2.prems" have "nat cnt = Suc (nat (cnt - 1))" by simp
    with 2 False show ?thesis by (auto simp: Let_def)
  qed (simp add: Let_def)
qed simp

definition flat :: "nat \<Rightarrow> lock_ranges \<Rightarrow> lock_info list" where
  "flat i ls = concat (map (\<lambda>l. map (info_of i l) (lr_owners l)) ls)"

lemma infos_Cons: "infos ((i, ls) # es) = flat i ls @ infos es"
  by (simp add: infos_def flat_def)

lemma flat_simps [simp]:
  "flat i [] = []" "flat i (l # ls) = map (info_of i l) (lr_owners l) @ flat i ls"
  by (simp_all add: flat_def)

lemma copy_locks_spec:
  assumes "cnt > 0" and "\<And>l. l \<in> set ls \<Longrightarrow> lr_owners l \<noteq> []"
  shows "copy_locks i ls index pos cnt data =
     (let found = drop (nat (index - pos)) (flat i ls);
          pos' = max pos (min index (pos + int (length (flat i ls))))
      in if cnt \<le> int (length found) then Some (True, pos', 0, data @ take (nat cnt) found)
         else Some (False, pos', cnt - int (length found), data @ found))"
  using assms
proof (induction ls arbitrary: pos cnt data)
  case (Cons l ls)
  define n where "n = int (length (lr_owners l))"
  have n: "n > 0" using Cons.prems(2) [of l] by (auto simp: n_def)
  note IH = Cons.IH [OF _ Cons.prems(2)]
  show ?case
  proof (cases "pos + n \<le> index")
    case True
    then have *: "nat (index - pos) = length (lr_owners l) + nat (index - (pos + n))" by (simp add: n_def)
    show ?thesis using True IH [OF Cons.prems(1)] unfolding *
      by (simp add: n_def Let_def)
  next
    case False
    define os where "os = drop (nat (max (index - pos) 0)) (lr_owners l)"
    have os: "int (length os) = n - max (index - pos) 0" "nat (index - pos) \<le> length (lr_owners l)"
      "drop (nat (index - pos)) (lr_owners l) = os"
      using False n by (auto simp: os_def n_def max_def)
    show ?thesis
    proof (cases "cnt \<le> int (length os)")
      case True
      then show ?thesis
        using False n os copy_owners_spec [OF Cons.prems(1), of i l os data]
        by (simp add: Let_def n_def [symmetric] os_def [symmetric] drop_map)
    next
      case less: False
      then have rest: "0 < cnt - int (length os)" by simp
      have "pos + max (index - pos) 0 = max pos index"
        "nat (cnt - (n - max (index - pos) 0)) = nat cnt - length os"
        "length os \<le> nat cnt" "max (max pos index) (min index y) = max pos index" for y
        using less unfolding os(1) [symmetric] by (auto simp: max_def)
      then show ?thesis
        using False n os less copy_owners_spec [OF Cons.prems(1), of i l os data] IH [OF rest]
        by (simp add: Let_def n_def [symmetric] os_def [symmetric] drop_map)
    qed
  qed
qed simp

lemma copy_entries_spec:
  assumes "cnt > 0" and "\<And>i ls l. (i, ls) \<in> set es \<Longrightarrow> l \<in> set ls \<Longrightarrow> lr_owners l \<noteq> []"
  shows "copy_entries es index pos cnt data = Some (data @ take (nat cnt) (drop (nat (index - pos)) (infos es)))"
  using assms
proof (induction es arbitrary: pos cnt data)
  case (Cons e es)
  obtain i ls where e: "e = (i, ls)" by (cases e)
  define F where "F = flat i ls"
  define pos' where "pos' = max pos (min index (pos + int (length F)))"
  have pos': "nat (index - pos') = nat (index - pos) - length F"
    by (auto simp: pos'_def max_def min_def)
  note cl = copy_locks_spec [OF Cons.prems(1), of ls i index pos data, folded F_def, folded pos'_def]
  have owners: "\<And>l. l \<in> set ls \<Longrightarrow> lr_owners l \<noteq> []" using Cons.prems(2) [of i ls] e by auto
  have tail: "\<And>i ls l. (i, ls) \<in> set es \<Longrightarrow> l \<in> set ls \<Longrightarrow> lr_owners l \<noteq> []"
    using Cons.prems(2) by (meson list.set_intros(2))
  define found where "found = drop (nat (index - pos)) F"
  show ?case
  proof (cases "cnt \<le> int (length found)")
    case True
    then have "nat cnt - length found = 0" by simp
    with True cl [OF owners] show ?thesis
      by (simp add: e infos_Cons F_def [symmetric] found_def Let_def)
  next
    case False
    then have rest: "0 < cnt - int (length found)" "nat (cnt - int (length found)) = nat cnt - length found"
      "length found \<le> nat cnt" by auto
    show ?thesis
      using False cl [OF owners] rest(2,3)
        Cons.IH [where pos = pos' and data = "data @ found", OF rest(1) tail]
      by (simp add: e infos_Cons F_def [symmetric] found_def [symmetric] Let_def pos')
  qed
qed (simp add: infos_def)

lemma copyToVector_spec:
  assumes "\<And>i ls l. (i, ls) \<in> set es \<Longrightarrow> l \<in> set ls \<Longrightarrow> lr_owners l \<noteq> []"
  shows "copyToVector es index cnt = Some (take (nat cnt) (drop (nat index) (infos es)))"
  using copy_entries_spec [of cnt es index 0 "[]"] assms by (auto simp: copyToVector_def)

lemma copyInodeToVector_spec:
  assumes "\<And>l. l \<in> set ls \<Longrightarrow> lr_owners l \<noteq> []"
  shows "copyInodeToVector ls i index cnt = Some (take (nat cnt) (drop (nat index) (flat i ls)))"
  using copy_locks_spec [of cnt ls i index 0 "[]"] assms by (auto simp: copyInodeToVector_def Let_def)

lemma wf_owners_nonempty:
  assumes "wf_file_locks fl"
  shows "active_locks fl i = Some ls \<Longrightarrow> l \<in> set ls \<Longrightarrow> lr_owners l \<noteq> []"
    and "pending_locks fl i = Some ls \<Longrightarrow> l \<in> set ls \<Longrightarrow> lr_owners l \<noteq> []"
proof -
  show "lr_owners l \<noteq> []" if "active_locks fl i = Some ls" "l \<in> set ls"
    using wf_ranges_range [OF wf_file_locksD(1) [OF assms, of i], of l] that entry_Some
    by (fastforce simp: wf_range_def)
  show "lr_owners l \<noteq> []" if "pending_locks fl i = Some ls" "l \<in> set ls"
  proof -
    have "wf_lock l"
      using wf_file_locksD(2) [OF assms, of i] that entry_Some [of "pending_locks fl" i ls]
      by (simp add: wf_pending_def)
    then show ?thesis by (auto simp: wf_lock_def wf_request_def)
  qed
qed

lemma entries_of_mem: "(i, ls) \<in> set (entries_of m order) \<longleftrightarrow> i \<in> set order \<and> m i = Some ls"
  by (auto simp: entries_of_def map_filter_def image_iff)

section \<open>Storing and loading\<close>

text \<open>
  Request and message identifiers are not stored: a loaded owner has both zero.
\<close>

definition bare :: "lock_owner \<Rightarrow> lock_owner" where
  "bare x = x\<lparr>ow_reqid := 0, ow_msgid := 0\<rparr>"

definition reqs :: "lock_ranges \<Rightarrow> lock_ranges" where
  "reqs ls = concat (map (\<lambda>l. map (\<lambda>x. LockRange (lr_type l) (lr_start l) (lr_end l) (bare x)) (lr_owners l)) ls)"

lemma okey_bare [simp]: "okey (bare x) = okey x"
  by (simp add: okey_def bare_def)

lemma lock_of_info_of [simp]:
  "lock_of_info (info_of i l x) = Some (LockRange (lr_type l) (lr_start l) (lr_end l) (bare x))"
  by (cases "lr_type l"; cases x) (simp_all add: lock_of_info_def info_of_def code_type_def type_code_def bare_def)

lemma LockRange_simps [simp]:
  "lr_type (LockRange t s e x) = t" "lr_start (LockRange t s e x) = s" "lr_end (LockRange t s e x) = e"
  "lr_owners (LockRange t s e x) = [x]" "rkey (LockRange t s e x) = okey x"
  "covers (LockRange t s e x) p \<longleftrightarrow> s \<le> p \<and> p < e"
  "unlocking (LockRange t s e x) \<longleftrightarrow> t = kUnlock"
  "wf_request (LockRange t s e x) \<longleftrightarrow> t \<noteq> kInvalid"
  "wf_lock (LockRange t s e x) \<longleftrightarrow> t \<noteq> kInvalid \<and> s < e"
  by (simp_all add: LockRange_def rkey_def covers_def unlocking_def wf_request_def wf_lock_def)

lemma reqs_mem:
  "r \<in> set (reqs d) \<longleftrightarrow>
     (\<exists>l \<in> set d. \<exists>x \<in> set (lr_owners l). r = LockRange (lr_type l) (lr_start l) (lr_end l) (bare x))"
  by (auto simp: reqs_def)

lemma reqs_consistent:
  assumes wf: "wf_ranges d" and "r \<in> set (reqs d)"
  shows "wf_lock r \<and> lock_rule r (held d) \<and> set_lock r (held d) = held d"
proof -
  obtain l x where l: "l \<in> set d" "x \<in> set (lr_owners l)"
    and r: "r = LockRange (lr_type l) (lr_start l) (lr_end l) (bare x)"
    using assms(2) by (auto simp: reqs_mem)
  have wl: "wf_range l" using wf_ranges_range [OF wf l(1)] .
  have rule: "lock_rule r (held d)"
    unfolding lock_rule_def
  proof (intro allI impI)
    fix p k t assume p: "covers r p" and h: "held d p k = Some t" and k: "k \<noteq> rkey r"
    obtain y where y: "y \<in> set d" "covers y p" "k \<in> keys y" "lr_type y = t"
      using h by (auto simp: held_iff [OF wf] lock_at_def)
    have "y = l" using lock_at_unique [OF wf y(1) l(1) y(2), of] p by (simp add: r covers_def)
    moreover have "length (lr_owners l) \<noteq> 1"
      using l(2) y(3) k \<open>y = l\<close> by (auto simp: keys_def r length_Suc_conv)
    ultimately show "lr_type r = kShared \<and> t = kShared"
      using wl y(4) by (auto simp: wf_range_def r)
  qed
  have "held d p (okey x) = Some (lr_type l)" if "covers l p" for p
    using that l wl unfolding held_iff [OF wf] lock_at_def keys_def
    by (intro bexI [OF _ l(1)]) auto
  then have "set_lock r (held d) = held d"
    using wl by (auto simp: set_lock_def fun_eq_iff r covers_def wf_range_def)
  with rule wl show ?thesis by (auto simp: r wf_range_def)
qed

lemma fold_set_lock:
  assumes "\<And>r. r \<in> set rs \<Longrightarrow> set_lock r h = h"
  shows "fold set_lock rs h0 p k = (if \<exists>r \<in> set rs. covers r p \<and> k = rkey r then h p k else h0 p k)"
  using assms
proof (induction rs arbitrary: h0)
  case (Cons r rs)
  have "set_lock r h p k = h p k" using Cons.prems [of r] by simp
  then have "covers r p \<Longrightarrow> k = rkey r \<Longrightarrow> set_lock r h0 p k = h p k" by (simp add: set_lock_def)
  moreover have "\<not> (covers r p \<and> k = rkey r) \<Longrightarrow> set_lock r h0 p k = h0 p k" by (auto simp: set_lock_def)
  ultimately show ?case using Cons.IH Cons.prems by auto
qed simp

lemma reload_ranges:
  assumes wf: "wf_ranges d"
  shows "\<exists>d'. fold_opt insert_range [] (reqs d) = Some d' \<and> wf_ranges d' \<and> held d' = held d"
proof -
  note consistent = reqs_consistent [OF wf]
  have "\<exists>d'. fold_opt insert_range [] (reqs d) = Some d' \<and> wf_ranges d'
      \<and> held d' = fold set_lock (reqs d) (held [])"
    by (rule lr.insert_consistent [OF consistent]) (auto simp: sub_view_def held_def)
  moreover have "fold set_lock (reqs d) (held []) = held d"
  proof (intro ext)
    fix p k
    have "\<exists>r \<in> set (reqs d). covers r p \<and> k = rkey r" if h: "held d p k = Some t" for t
    proof -
      obtain l x where "l \<in> set d" "covers l p" "x \<in> set (lr_owners l)" "k = okey x"
        using h by (auto simp: held_iff [OF wf] lock_at_def keys_def)
      then show ?thesis
        by (intro bexI [of _ "LockRange (lr_type l) (lr_start l) (lr_end l) (bare x)"])
           (auto simp: reqs_mem covers_def)
    qed
    then have "held d p k = None" if "\<not> (\<exists>r \<in> set (reqs d). covers r p \<and> k = rkey r)"
      using that by (cases "held d p k") auto
    moreover have "fold set_lock (reqs d) (held []) p k =
        (if \<exists>r \<in> set (reqs d). covers r p \<and> k = rkey r then held d p k else held [] p k)"
      by (rule fold_set_lock) (simp add: consistent)
    ultimately show "fold set_lock (reqs d) (held []) p k = held d p k"
      by (simp add: held_def [of "[]"])
  qed
  ultimately show ?thesis by metis
qed

definition load_step ::
  "(file_locks \<Rightarrow> nat \<Rightarrow> lock_range \<Rightarrow> file_locks option) \<Rightarrow> file_locks \<Rightarrow> lock_info \<Rightarrow> file_locks option" where
  "load_step ins fl info = Option.bind (lock_of_info info) (ins fl (li_inode info))"

lemma load_records_fold:
  "load_records (length xs) (map Record xs @ items) ins fl =
     map_option (\<lambda>fl'. (fl', items)) (fold_opt (load_step ins) fl xs)"
proof (induction xs arbitrary: fl)
  case (Cons x xs)
  then show ?case by (simp add: load_step_def split: option.splits)
qed simp

lemma load_store_table:
  "load_table (store_table es @ items) ins fl = map_option (\<lambda>fl'. (fl', items)) (fold_opt (load_step ins) fl (infos es))"
proof -
  have "sum_list (map (\<lambda>(i, ls). sum_list (map (\<lambda>l. length (lr_owners l)) ls)) es) = length (infos es)"
    by (induction es) (auto simp: infos_def length_concat comp_def)
  then show ?thesis by (simp add: store_table_def load_records_fold)
qed

lemma load_active_list:
  assumes "list_all2 (\<lambda>x r. li_inode x = i \<and> lock_of_info x = Some r) xs rs"
    and "fold_opt insert_range (entry (active_locks fl) i) rs = Some d"
  shows "\<exists>fl'. fold_opt (load_step insertActive) fl xs = Some fl' \<and> pending_locks fl' = pending_locks fl
     \<and> (\<forall>j. entry (active_locks fl') j = (if j = i then d else entry (active_locks fl) j))"
  using assms
proof (induction xs rs arbitrary: fl rule: list_all2_induct)
  case (Cons x xs r rs)
  then obtain d1 where d1: "insert_range (entry (active_locks fl) i) r = Some d1"
    "fold_opt insert_range d1 rs = Some d" by (auto split: option.splits)
  define fl1 where "fl1 = fl\<lparr>active_locks := (active_locks fl)(i \<mapsto> d1)\<rparr>"
  have step: "load_step insertActive fl x = Some fl1"
    using Cons.hyps d1 by (simp add: load_step_def insertActive_def fl1_def)
  have "fold_opt insert_range (entry (active_locks fl1) i) rs = Some d"
    using d1(2) by (simp add: fl1_def)
  from Cons.IH [OF this] step show ?case by (auto simp: fl1_def)
qed auto

lemma flat_reqs:
  "list_all2 (\<lambda>x r. li_inode x = i \<and> lock_of_info x = Some r) (flat i ls) (reqs ls)"
proof (induction ls)
  case (Cons l ls)
  have "list_all2 (\<lambda>x r. li_inode x = i \<and> lock_of_info x = Some r) (map (info_of i l) xs)
      (map (\<lambda>x. LockRange (lr_type l) (lr_start l) (lr_end l) (bare x)) xs)" for xs
    by (simp add: list.rel_map list.rel_refl) (simp add: info_of_def list.rel_refl)
  with Cons.IH show ?case by (simp add: reqs_def list_all2_appendI)
qed (simp add: reqs_def)

text \<open>The table \<open>fl'\<close> shows, for the listed inodes, the given locks, and \<open>fl\<close> elsewhere.\<close>

definition loaded :: "(nat \<times> lock_ranges) list \<Rightarrow> file_locks \<Rightarrow> file_locks \<Rightarrow> bool" where
  "loaded es fl fl' \<longleftrightarrow> pending_locks fl' = pending_locks fl
     \<and> (\<forall>i. i \<notin> fst ` set es \<longrightarrow> entry (active_locks fl') i = entry (active_locks fl) i)
     \<and> (\<forall>i ls. (i, ls) \<in> set es \<longrightarrow>
          wf_ranges (entry (active_locks fl') i) \<and> held (entry (active_locks fl') i) = held ls)"

lemma load_active_entries:
  assumes "\<And>i ls. (i, ls) \<in> set es \<Longrightarrow> wf_ranges ls" and "distinct (map fst es)"
    and "\<And>i. i \<in> fst ` set es \<Longrightarrow> entry (active_locks fl) i = []"
  shows "\<exists>fl'. fold_opt (load_step insertActive) fl (infos es) = Some fl' \<and> loaded es fl fl'"
  using assms
proof (induction es arbitrary: fl)
  case (Cons e es)
  obtain i ls where e: "e = (i, ls)" by (cases e)
  obtain d where d: "fold_opt insert_range [] (reqs ls) = Some d" "wf_ranges d" "held d = held ls"
    using reload_ranges [of ls] Cons.prems(1) [of i ls] e by auto
  have "entry (active_locks fl) i = []" using Cons.prems(3) e by simp
  with load_active_list [OF flat_reqs, of fl i ls d] d(1) obtain fl1 where
    fl1: "fold_opt (load_step insertActive) fl (flat i ls) = Some fl1" "pending_locks fl1 = pending_locks fl"
      "\<And>j. entry (active_locks fl1) j = (if j = i then d else entry (active_locks fl) j)"
    by auto
  have fresh: "i \<notin> fst ` set es" using Cons.prems(2) e by simp
  have "\<exists>fl2. fold_opt (load_step insertActive) fl1 (infos es) = Some fl2 \<and> loaded es fl1 fl2"
  proof (rule Cons.IH)
    show "wf_ranges ls'" if "(i', ls') \<in> set es" for i' ls'
      using Cons.prems(1) that by (meson list.set_intros(2))
    show "distinct (map fst es)" using Cons.prems(2) by simp
    show "entry (active_locks fl1) j = []" if "j \<in> fst ` set es" for j
      using Cons.prems(3) [of j] that fresh fl1(3) by auto
  qed
  then obtain fl2 where fl2: "fold_opt (load_step insertActive) fl1 (infos es) = Some fl2" "loaded es fl1 fl2"
    by blast
  have "entry (active_locks fl2) i = d" using fl2(2) fresh fl1(3) by (simp add: loaded_def)
  then have "loaded (e # es) fl fl2"
    using fl2(2) fl1 d fresh by (auto simp: loaded_def e)
  with fl1(1) fl2(1) show ?case by (simp add: e infos_Cons fold_opt_append)
qed (simp add: infos_def loaded_def)


lemma load_pending_list:
  assumes "list_all2 (\<lambda>x r. li_inode x = i \<and> lock_of_info x = Some r) xs rs"
  shows "\<exists>fl'. fold_opt (load_step append_pending) fl xs = Some fl' \<and> active_locks fl' = active_locks fl
     \<and> (\<forall>j. entry (pending_locks fl') j = entry (pending_locks fl) j @ (if j = i then rs else []))"
  using assms
proof (induction xs rs arbitrary: fl rule: list_all2_induct)
  case (Cons x xs r rs)
  define fl1 where "fl1 = fl\<lparr>pending_locks := (pending_locks fl)(i \<mapsto> entry (pending_locks fl) i @ [r])\<rparr>"
  have "load_step append_pending fl x = Some fl1"
    using Cons.hyps by (simp add: load_step_def append_pending_def fl1_def)
  moreover have "entry (pending_locks fl1) j = entry (pending_locks fl) j @ (if j = i then [r] else [])" for j
    by (simp add: fl1_def)
  moreover have "active_locks fl1 = active_locks fl" by (simp add: fl1_def)
  ultimately show ?case using Cons.IH [of fl1] by auto
qed auto

lemma load_pending_entries:
  assumes "distinct (map fst es)"
  shows "\<exists>fl'. fold_opt (load_step append_pending) fl (infos es) = Some fl' \<and> active_locks fl' = active_locks fl
     \<and> (\<forall>j. entry (pending_locks fl') j = entry (pending_locks fl) j
            @ (case map_of es j of None \<Rightarrow> [] | Some ls \<Rightarrow> reqs ls))"
  using assms
proof (induction es arbitrary: fl)
  case (Cons e es)
  obtain i ls where e: "e = (i, ls)" by (cases e)
  obtain fl1 where fl1: "fold_opt (load_step append_pending) fl (flat i ls) = Some fl1"
    "active_locks fl1 = active_locks fl"
    "\<And>j. entry (pending_locks fl1) j = entry (pending_locks fl) j @ (if j = i then reqs ls else [])"
    using load_pending_list [OF flat_reqs] by blast
  have fresh: "map_of es i = None" using Cons.prems e by (simp add: map_of_eq_None_iff)
  obtain fl2 where fl2: "fold_opt (load_step append_pending) fl1 (infos es) = Some fl2"
    "active_locks fl2 = active_locks fl1"
    "\<And>j. entry (pending_locks fl2) j = entry (pending_locks fl1) j
        @ (case map_of es j of None \<Rightarrow> [] | Some ls \<Rightarrow> reqs ls)"
    using Cons.IH [of fl1] Cons.prems by auto
  show ?case
    using fl1 fl2 fresh by (auto simp: e infos_Cons fold_opt_append)
qed (simp add: infos_def)

lemma distinct_entries_of: "distinct order \<Longrightarrow> distinct (map fst (entries_of m order))"
proof -
  have "map fst (entries_of m order) = filter (\<lambda>i. m i \<noteq> None) order"
    by (induction order) (auto simp: entries_of_def map_filter_def)
  then show "distinct order \<Longrightarrow> ?thesis" by simp
qed

lemma map_of_entries_of:
  assumes "distinct order" "set order = dom m"
  shows "map_of (entries_of m order) = m"
proof
  fix i
  have d: "distinct (map fst (entries_of m order))" by (rule distinct_entries_of [OF assms(1)])
  show "map_of (entries_of m order) i = m i"
  proof (cases "m i")
    case None
    then have "i \<notin> fst ` set (entries_of m order)" by (auto simp: entries_of_mem)
    with None show ?thesis by (simp add: map_of_eq_None_iff)
  next
    case (Some ls)
    then have "(i, ls) \<in> set (entries_of m order)" using assms(2) by (auto simp: entries_of_mem)
    with d Some show ?thesis by simp
  qed
qed

definition bare_lock :: "lock_range \<Rightarrow> lock_range" where
  "bare_lock l = l\<lparr>lr_owners := map bare (lr_owners l)\<rparr>"

lemma reqs_pending:
  "\<forall>l \<in> set q. length (lr_owners l) = 1 \<Longrightarrow> reqs q = map bare_lock q"
proof (induction q)
  case (Cons l q)
  then obtain x where "lr_owners l = [x]" by (auto simp: length_Suc_conv)
  with Cons show ?case by (cases l) (simp add: reqs_def bare_lock_def LockRange_def)
qed (simp add: reqs_def)

lemma wf_pending_bare: "wf_pending q \<Longrightarrow> wf_pending (map bare_lock q)"
proof -
  have *: "range_less (bare_lock a) (bare_lock b) = range_less a b" "wf_lock (bare_lock a) = wf_lock a"
    "unlocking (bare_lock a) = unlocking a" for a b
    by (simp_all add: range_less_def bare_lock_def wf_lock_def wf_request_def unlocking_def)
  show "wf_pending q \<Longrightarrow> ?thesis" by (auto simp: wf_pending_def sorted_wrt_map *)
qed

lemma load_store_locks:
  assumes wf: "wf_file_locks fl"
    and "distinct ao" "set ao = dom (active_locks fl)" and "distinct po" "set po = dom (pending_locks fl)"
  shows "\<exists>fl'. load_locks FileLocks (store_locks fl ao po) = Some (fl', []) \<and> wf_file_locks fl'
     \<and> granted fl' = granted fl
     \<and> (\<forall>i. entry (pending_locks fl') i = map bare_lock (entry (pending_locks fl) i))"
proof -
  let ?ae = "entries_of (active_locks fl) ao" and ?pe = "entries_of (pending_locks fl) po"
  have wa: "wf_ranges ls" if "(i, ls) \<in> set ?ae" for i ls
    using wf_file_locksD(1) [OF wf, of i] that by (simp add: entries_of_mem entry_Some)
  have "\<exists>fl1. fold_opt (load_step insertActive) FileLocks (infos ?ae) = Some fl1 \<and> loaded ?ae FileLocks fl1"
    by (rule load_active_entries [OF _ distinct_entries_of [OF assms(2)]])
       (use wa in \<open>auto simp: FileLocks_def\<close>)
  then obtain fl1 where fl1: "fold_opt (load_step insertActive) FileLocks (infos ?ae) = Some fl1"
    "loaded ?ae FileLocks fl1" by blast
  obtain fl2 where fl2: "fold_opt (load_step append_pending) fl1 (infos ?pe) = Some fl2"
    "active_locks fl2 = active_locks fl1"
    "\<And>j. entry (pending_locks fl2) j = entry (pending_locks fl1) j
        @ (case pending_locks fl j of None \<Rightarrow> [] | Some ls \<Rightarrow> reqs ls)"
    using load_pending_entries [where fl = fl1, OF distinct_entries_of [OF assms(4), of "pending_locks fl"]]
    unfolding map_of_entries_of [OF assms(4,5)] by blast
  have pend: "entry (pending_locks fl2) i = map bare_lock (entry (pending_locks fl) i)" for i
  proof -
    have "\<forall>l \<in> set (entry (pending_locks fl) i). length (lr_owners l) = 1"
      using wf_file_locksD(2) [OF wf, of i] by (auto simp: wf_pending_def wf_lock_def wf_request_def)
    then show ?thesis
      using fl2(3) [of i] fl1(2)
      by (auto simp: loaded_def FileLocks_def reqs_pending entry_def split: option.splits)
  qed
  have act: "wf_ranges (entry (active_locks fl2) i) \<and> held (entry (active_locks fl2) i) = granted fl i" for i
  proof (cases "active_locks fl i")
    case None
    then have "i \<notin> fst ` set ?ae" by (auto simp: entries_of_mem)
    with fl1(2) None fl2(2) show ?thesis by (simp add: loaded_def FileLocks_def granted_def entry_None)
  next
    case (Some ls)
    then have "(i, ls) \<in> set ?ae" using assms(3) by (auto simp: entries_of_mem)
    with fl1(2) Some fl2(2) show ?thesis by (auto simp: loaded_def granted_def entry_Some)
  qed
  have "load_locks FileLocks (store_locks fl ao po) = Some (fl2, [])"
    using fl1(1) fl2(1) load_store_table [of ?pe "[]"]
    by (simp add: load_locks_def store_locks_def load_store_table)
  moreover have "wf_file_locks fl2"
    using act pend wf_file_locksD(2) [OF wf] by (simp add: wf_file_locks_def wf_pending_bare)
  moreover have "granted fl2 = granted fl" using act by (simp add: granted_def fun_eq_iff)
  ultimately show ?thesis using pend by blast
qed


section \<open>Properties\<close>

text \<open>C20: Storing the lock table and loading it into an empty one gives back the same granted locks,
  byte by byte and owner by owner, and the same queues up to the request and message identifiers,
  which are not stored. The order in which the hash tables are iterated does not matter.\<close>

theorem store_load_roundtrip:
  assumes "wf_file_locks fl" and "distinct ao" "set ao = dom (active_locks fl)"
    and "distinct po" "set po = dom (pending_locks fl)"
  shows "\<exists>fl'. load_locks FileLocks (store_locks fl ao po) = Some (fl', []) \<and> wf_file_locks fl'
     \<and> granted fl' = granted fl
     \<and> (\<forall>i. entry (pending_locks fl') i = map bare_lock (entry (pending_locks fl) i))"
  by (rule load_store_locks [OF assms])

theorem store_load_roundtrip_witness:
  defines "a \<equiv> \<lparr>ow_owner = 1, ow_sessionid = 1, ow_reqid = 5, ow_msgid = 6\<rparr>"
    and "b \<equiv> \<lparr>ow_owner = 2, ow_sessionid = 1, ow_reqid = 7, ow_msgid = 8\<rparr>"
  shows "\<exists>fl'. load_locks FileLocks (store_locks \<lparr>active_locks = [7 \<mapsto> [LockRange kExclusive 0 10 a]],
         pending_locks = [7 \<mapsto> [LockRange kShared 4 20 b]]\<rparr> [7] [7]) = Some (fl', [])
     \<and> granted fl' = granted \<lparr>active_locks = [7 \<mapsto> [LockRange kExclusive 0 10 a]],
         pending_locks = [7 \<mapsto> [LockRange kShared 4 20 b]]\<rparr>
     \<and> entry (pending_locks fl') 7 = [LockRange kShared 4 20 (bare b)]"
proof -
  let ?fl = "\<lparr>active_locks = [7 \<mapsto> [LockRange kExclusive 0 10 a]],
         pending_locks = [7 \<mapsto> [LockRange kShared 4 20 b]]\<rparr>"
  have "wf_file_locks ?fl"
    by (simp add: wf_file_locks_def wf_pending_def wf_ranges_def wf_range_def sorted_owners_def)
  moreover have "bare_lock (LockRange kShared 4 20 b) = LockRange kShared 4 20 (bare b)"
    by (simp add: bare_lock_def LockRange_def)
  ultimately show ?thesis using store_load_roundtrip [of ?fl "[7]" "[7]"] by auto
qed

text \<open>The listing of granted locks never fails on a well-formed table and returns the requested
  page, \<open>cnt\<close> entries from position \<open>index\<close> on, of the table flattened to one entry per lock and
  owner; a negative position counts as zero and a count that is not positive gives no entries.\<close>

theorem list_active_page:
  assumes "wf_file_locks fl"
  shows "copyActiveToVector fl order index cnt =
     Some (take (nat cnt) (drop (nat index) (infos (entries_of (active_locks fl) order))))"
  unfolding copyActiveToVector_def
  by (rule copyToVector_spec) (auto simp: entries_of_mem dest: wf_owners_nonempty [OF assms])

theorem list_active_page_witness:
  defines "a \<equiv> \<lparr>ow_owner = 1, ow_sessionid = 1, ow_reqid = 5, ow_msgid = 6\<rparr>"
    and "b \<equiv> \<lparr>ow_owner = 2, ow_sessionid = 1, ow_reqid = 7, ow_msgid = 8\<rparr>"
  defines "fl \<equiv> \<lparr>active_locks = [7 \<mapsto> [(LockRange kShared 0 10 a)\<lparr>lr_owners := [a, b]\<rparr>]], pending_locks = Map.empty\<rparr>"
  shows "copyActiveToVector fl [7] 1 5 = Some [info_of 7 (LockRange kShared 0 10 a) b]"
proof -
  have "wf_file_locks fl"
    by (simp add: fl_def wf_file_locks_def wf_ranges_def wf_range_def sorted_owners_def a_def b_def okey_def less_prod_def')
  from list_active_page [OF this, of "[7]" 1 5] show ?thesis
    by (simp add: fl_def infos_def entries_of_def map_filter_def info_of_def)
qed

text \<open>C21: Clearing a set of owners from an inode removes exactly their locks, keeps the table well
  formed, and returns a range that covers every byte on which a lock was removed.\<close>

theorem unlock_owners_exact:
  assumes "wf_file_locks fl" and "\<And>x. P x \<longleftrightarrow> Q (okey x)" and "unlock_owners fl i P = (rg, fl')"
  shows "wf_file_locks fl' \<and> waiting fl' = waiting fl
     \<and> granted fl' = (granted fl)(i := (\<lambda>p k. if Q k then None else granted fl i p k))
     \<and> (\<forall>p k. granted fl i p k \<noteq> None \<and> Q k \<longrightarrow> fst rg \<le> p \<and> p < snd rg)"
  using unlock_owners_spec(1-3) [where P = P and Q = Q, OF assms]
    unlock_owners_spec(4) [where P = P and Q = Q, OF assms] by blast

theorem unlock_owners_exact_witness:
  defines "a \<equiv> \<lparr>ow_owner = 1, ow_sessionid = 1, ow_reqid = 5, ow_msgid = 6\<rparr>"
  defines "fl \<equiv> \<lparr>active_locks = [7 \<mapsto> [LockRange kExclusive 3 10 a]], pending_locks = Map.empty\<rparr>"
  shows "granted (snd (unlock_owners fl 7 (\<lambda>x. ow_sessionid x = 1))) 7 4 (1, 1) = None
     \<and> fst (unlock_owners fl 7 (\<lambda>x. ow_sessionid x = 1)) = (3, 10)"
proof -
  have "wf_file_locks fl"
    by (simp add: fl_def wf_file_locks_def wf_ranges_def wf_range_def sorted_owners_def)
  moreover have "unlock_owners fl 7 (\<lambda>x. ow_sessionid x = 1) =
      ((3, 10), \<lparr>active_locks = [7 \<mapsto> []], pending_locks = Map.empty\<rparr>)"
    by (simp add: unlock_owners_def fl_def a_def uint64_max_def Let_def)
  ultimately show ?thesis
    using unlock_owners_exact [of fl "\<lambda>x. ow_sessionid x = 1" "\<lambda>k. snd k = 1" 7 "(3, 10)" "\<lparr>active_locks = [7 \<mapsto> []], pending_locks = Map.empty\<rparr>"]
    by (simp add: okey_def)
qed

end
