(* ===== verification/LockOps.thy ===== *)
theory LockOps
  imports FileLocks "HOL-Library.Word"
begin

text \<open>
  The lock operations of the master (\<^verbatim>\<open>FilesystemOperationsBase\<close> in
  \<^verbatim>\<open>src/src/master/filesystem_operations.cc\<close>), the range computation of the request
  handlers in \<^verbatim>\<open>matoclserv.cc\<close>, and the replay of the changelog entries the operations
  write (\<^verbatim>\<open>restore.cc\<close>).

  The metadata is reduced to what these functions touch: the set of existing inodes, the two lock
  tables, the metadata version and the changelog. All callers of the operations use a context without
  session data, and only that path of \<^verbatim>\<open>getNodeForOperation\<close> is modelled.
\<close>

section \<open>State\<close>

datatype status = STATUS_OK | ERROR_ENOENT | ERROR_EINVAL | ERROR_WAITING

datatype personality = kMaster | kShadow

text \<open>Changelog entries, with the fields in the order in which they are written.\<close>

datatype lock_entry =
    FLCK nat nat nat nat nat nat nat
  | CLRLCK nat nat nat
  | FLCKINODE nat nat
  | RMPLOCK nat nat nat nat nat

record metadata =
  nodes :: "nat set"
  flockLocks :: file_locks
  posixLocks :: file_locks
  metadataVersion :: nat
  changelog :: "(nat \<times> lock_entry) list"

definition kFlock :: nat where "kFlock = 0"
definition kPosix :: nat where "kPosix = 1"

definition kUnlock_op :: nat where "kUnlock_op = 1"
definition kShared_op :: nat where "kShared_op = 2"
definition kExclusive_op :: nat where "kExclusive_op = 4"
definition kRelease_op :: nat where "kRelease_op = 32"

lemmas op_codes = kFlock_def kPosix_def kUnlock_op_def kShared_op_def kExclusive_op_def kRelease_op_def

text \<open>
  \<^verbatim>\<open>changeLog\<close> takes the current version for the entry and increases it; a replica only
  increases it.
\<close>

definition log_or_bump :: "personality \<Rightarrow> lock_entry \<Rightarrow> metadata \<Rightarrow> metadata" where
  "log_or_bump pers e md =
     (if pers = kMaster
      then md\<lparr>changelog := changelog md @ [(metadataVersion md, e)], metadataVersion := metadataVersion md + 1\<rparr>
      else md\<lparr>metadataVersion := metadataVersion md + 1\<rparr>)"

section \<open>Operations\<close>

definition getNodeForOperation :: "metadata \<Rightarrow> nat \<Rightarrow> nat \<Rightarrow> status" where
  "getNodeForOperation md modemask inode = (if inode \<in> nodes md then STATUS_OK else ERROR_ENOENT)"

definition checkLockPermissions :: "metadata \<Rightarrow> nat \<Rightarrow> nat \<Rightarrow> status" where
  "checkLockPermissions md inode oper =
     (let modemask = (if oper = kExclusive_op then 2 else if oper = kShared_op then 4 else 0)
      in getNodeForOperation md modemask inode)"

definition int64_max :: nat where
  "int64_max = 9223372036854775807"

record flock_wrapper =
  l_type :: nat
  l_start :: nat
  l_len :: nat

definition posixLockProbe ::
  "metadata \<Rightarrow> nat \<Rightarrow> nat \<Rightarrow> nat \<Rightarrow> lock_owner \<Rightarrow> nat \<Rightarrow> flock_wrapper \<Rightarrow> (status \<times> flock_wrapper) option" where
  "posixLockProbe md inode start end' owner oper info =
     (if oper \<noteq> kShared_op \<and> oper \<noteq> kExclusive_op \<and> oper \<noteq> kUnlock_op then Some (ERROR_EINVAL, info)
      else if checkLockPermissions md inode oper \<noteq> STATUS_OK
      then Some (checkLockPermissions md inode oper, info)
      else case code_type oper of
             None \<Rightarrow> None
           | Some type \<Rightarrow>
               (case probe_collision (posixLocks md) inode type start end' owner of
                  None \<Rightarrow> None
                | Some None \<Rightarrow> Some (STATUS_OK, info\<lparr>l_type := kUnlock_op\<rparr>)
                | Some (Some c) \<Rightarrow>
                    Some (ERROR_WAITING,
                      info\<lparr>l_type := type_code (lr_type c), l_start := lr_start c,
                           l_len := min (lr_end c - lr_start c) int64_max\<rparr>)))"

text \<open>The loop over candidates: try each again, collect the owners of those granted.\<close>

fun apply_candidates ::
  "file_locks \<Rightarrow> nat \<Rightarrow> lock_ranges \<Rightarrow> (file_locks \<times> lock_owner list) option" where
  "apply_candidates fl inode [] = Some (fl, [])"
| "apply_candidates fl inode (candidate # queue) =
     (case apply_lock fl inode candidate False of
        None \<Rightarrow> None
      | Some (ok, fl') \<Rightarrow>
          (case apply_candidates fl' inode queue of
             None \<Rightarrow> None
           | Some (fl'', applied) \<Rightarrow> Some (fl'', (if ok then lr_owners candidate else []) @ applied)))"

definition manageLockTryLockPending ::
  "file_locks \<Rightarrow> nat \<Rightarrow> nat \<Rightarrow> nat \<Rightarrow> (file_locks \<times> lock_owner list) option" where
  "manageLockTryLockPending fl inode start end' =
     (case gatherCandidates fl inode start end' of
        None \<Rightarrow> None
      | Some (queue, fl') \<Rightarrow> apply_candidates fl' inode queue)"

text \<open>
  \<^verbatim>\<open>lockOperation\<close> on one of the two tables. The switch gives the outcome of the request
  and the range in which waiting requests are tried again; a release first drops the owner's own
  waiting requests and then falls through to an unlock of the whole file.
\<close>

definition owner_pred :: "(lock_owner \<Rightarrow> bool) \<Rightarrow> lock_range \<Rightarrow> bool option" where
  "owner_pred P lock = map_option P (the_owner lock)"

definition lock_switch ::
  "file_locks \<Rightarrow> nat \<Rightarrow> nat \<Rightarrow> nat \<Rightarrow> lock_owner \<Rightarrow> nat \<Rightarrow> bool
     \<Rightarrow> ((bool \<times> file_locks) option \<times> nat \<times> nat) option" where
  "lock_switch fl inode start end' owner oper nonblocking =
     (if oper = kShared_op then Some (sharedLock fl inode start end' owner nonblocking, start, end')
      else if oper = kExclusive_op then Some (exclusiveLock fl inode start end' owner nonblocking, start, end')
      else if oper = kRelease_op
      then Some (case removePending fl inode (owner_pred (\<lambda>x. ow_sessionid x = ow_sessionid owner \<and> ow_owner x = ow_owner owner)) of
                   None \<Rightarrow> None
                 | Some fl' \<Rightarrow> unlock fl' inode 0 uint64_max owner, 0, uint64_max)
      else if oper = kUnlock_op then Some (unlock fl inode start end' owner, start, end')
      else None)"

definition lockOperation ::
  "metadata \<Rightarrow> file_locks \<Rightarrow> nat \<Rightarrow> nat \<Rightarrow> nat \<Rightarrow> lock_owner \<Rightarrow> nat \<Rightarrow> bool
     \<Rightarrow> (status \<times> file_locks \<times> lock_owner list) option" where
  "lockOperation md locks inode start end' owner oper nonblocking =
     (let st = checkLockPermissions md inode oper in
      if st \<noteq> STATUS_OK then Some (st, locks, [])
      else case lock_switch locks inode start end' owner oper nonblocking of
             None \<Rightarrow> Some (ERROR_EINVAL, locks, [])
           | Some (None, _) \<Rightarrow> None
           | Some (Some (success, locks'), start', end'') \<Rightarrow>
               let st' = (if success then STATUS_OK else ERROR_WAITING) in
               if oper = kExclusive_op then Some (st', locks', [])
               else (case manageLockTryLockPending locks' inode start' end'' of
                       None \<Rightarrow> None
                     | Some (locks'', applied) \<Rightarrow> Some (st', locks'', applied)))"

definition flockOperation ::
  "personality \<Rightarrow> metadata \<Rightarrow> nat \<Rightarrow> lock_owner \<Rightarrow> nat \<Rightarrow> bool \<Rightarrow> (status \<times> metadata \<times> lock_owner list) option" where
  "flockOperation pers md inode owner oper nonblocking =
     map_option (\<lambda>(st, locks, applied).
         (st, log_or_bump pers (FLCK kFlock inode 0 1 (ow_owner owner) (ow_sessionid owner) oper)
                (md\<lparr>flockLocks := locks\<rparr>), applied))
       (lockOperation md (flockLocks md) inode 0 1 owner oper nonblocking)"

definition posixLockOperation ::
  "personality \<Rightarrow> metadata \<Rightarrow> nat \<Rightarrow> nat \<Rightarrow> nat \<Rightarrow> lock_owner \<Rightarrow> nat \<Rightarrow> bool
     \<Rightarrow> (status \<times> metadata \<times> lock_owner list) option" where
  "posixLockOperation pers md inode start end' owner oper nonblocking =
     map_option (\<lambda>(st, locks, applied).
         (st, log_or_bump pers (FLCK kPosix inode start end' (ow_owner owner) (ow_sessionid owner) oper)
                (md\<lparr>posixLocks := locks\<rparr>), applied))
       (lockOperation md (posixLocks md) inode start end' owner oper nonblocking)"

text \<open>The table a type code selects, and its replacement.\<close>

definition table :: "metadata \<Rightarrow> nat \<Rightarrow> file_locks option" where
  "table md type = (if type = kFlock then Some (flockLocks md)
     else if type = kPosix then Some (posixLocks md) else None)"

definition set_table :: "metadata \<Rightarrow> nat \<Rightarrow> file_locks \<Rightarrow> metadata" where
  "set_table md type fl = (if type = kFlock then md\<lparr>flockLocks := fl\<rparr> else md\<lparr>posixLocks := fl\<rparr>)"

definition locksClearSession ::
  "personality \<Rightarrow> metadata \<Rightarrow> nat \<Rightarrow> nat \<Rightarrow> nat \<Rightarrow> (status \<times> metadata \<times> lock_owner list) option" where
  "locksClearSession pers md type inode sessionid =
     (case table md type of
        None \<Rightarrow> Some (ERROR_EINVAL, md, [])
      | Some locks \<Rightarrow>
          (case removePending locks inode (owner_pred (\<lambda>x. ow_sessionid x = sessionid)) of
             None \<Rightarrow> None
           | Some locks1 \<Rightarrow>
               let (rg, locks2) = unlock_owners locks1 inode (\<lambda>x. ow_sessionid x = sessionid);
                   gathered = (if fst rg < snd rg then gatherCandidates locks2 inode (fst rg) (snd rg)
                               else Some ([], locks2))
               in case gathered of
                    None \<Rightarrow> None
                  | Some (queue, locks3) \<Rightarrow>
                      Some (STATUS_OK,
                            log_or_bump pers (CLRLCK type inode sessionid) (set_table md type locks3),
                            concat (map lr_owners queue))))"

definition locksUnlockInode ::
  "personality \<Rightarrow> metadata \<Rightarrow> nat \<Rightarrow> nat \<Rightarrow> (status \<times> metadata \<times> lock_owner list) option" where
  "locksUnlockInode pers md type inode =
     (case table md type of
        None \<Rightarrow> Some (ERROR_EINVAL, md, [])
      | Some locks \<Rightarrow>
          (case manageLockTryLockPending (unlock_inode locks inode) inode 0
                  (if type = kFlock then 1 else uint64_max) of
             None \<Rightarrow> None
           | Some (locks', applied) \<Rightarrow>
               Some (STATUS_OK, log_or_bump pers (FLCKINODE type inode) (set_table md type locks'), applied)))"

definition locksRemovePending ::
  "personality \<Rightarrow> metadata \<Rightarrow> nat \<Rightarrow> nat \<Rightarrow> nat \<Rightarrow> nat \<Rightarrow> nat \<Rightarrow> (status \<times> metadata) option" where
  "locksRemovePending pers md type ownerid sessionid inode reqid =
     (case table md type of
        None \<Rightarrow> Some (ERROR_EINVAL, md)
      | Some locks \<Rightarrow>
          map_option (\<lambda>locks'. (STATUS_OK,
              log_or_bump pers (RMPLOCK type ownerid sessionid inode reqid) (set_table md type locks')))
            (removePending locks inode (owner_pred (\<lambda>x. ow_owner x = ownerid
               \<and> ow_sessionid x = sessionid \<and> ow_reqid x = reqid))))"

definition locksListAll ::
  "metadata \<Rightarrow> nat \<Rightarrow> bool \<Rightarrow> nat list \<Rightarrow> int \<Rightarrow> int \<Rightarrow> (status \<times> lock_info list) option" where
  "locksListAll md type pending order start max_count =
     (case table md type of
        None \<Rightarrow> Some (ERROR_EINVAL, [])
      | Some locks \<Rightarrow> map_option (Pair STATUS_OK)
          (if pending then copyPendingToVector locks order start max_count
           else copyActiveToVector locks order start max_count))"

definition locksListInode ::
  "metadata \<Rightarrow> nat \<Rightarrow> bool \<Rightarrow> nat \<Rightarrow> int \<Rightarrow> int \<Rightarrow> (status \<times> lock_info list) option" where
  "locksListInode md type pending inode start max_count =
     (case table md type of
        None \<Rightarrow> Some (ERROR_EINVAL, [])
      | Some locks \<Rightarrow> map_option (Pair STATUS_OK)
          (if pending then copyPendingInode locks inode start max_count
           else copyActiveInode locks inode start max_count))"

section \<open>Request handlers\<close>

text \<open>
  \<^verbatim>\<open>matoclserv_fuse_setlk\<close> rejects negative fields and turns a length into an end
  offset, in 64-bit unsigned arithmetic; length 0 means to the end of the file. The non-blocking
  flag is a bit of the operation.
\<close>

definition lock_end :: "64 word \<Rightarrow> 64 word \<Rightarrow> nat option" where
  "lock_end start len =
     (if sint start < 0 \<or> sint len < 0 then None
      else if len = 0 then Some uint64_max
      else Some (unat (start + len)))"

definition nonblock_bit :: "nat \<Rightarrow> bool" where
  "nonblock_bit oper \<longleftrightarrow> oper div 16 mod 2 = 1"

definition strip_nonblock :: "nat \<Rightarrow> nat" where
  "strip_nonblock oper = (if nonblock_bit oper then oper - 16 else oper)"

definition fuse_setlk ::
  "metadata \<Rightarrow> nat \<Rightarrow> 64 word \<Rightarrow> 64 word \<Rightarrow> lock_owner \<Rightarrow> nat \<Rightarrow> (status option \<times> metadata \<times> lock_owner list) option" where
  "fuse_setlk md inode start len owner oper =
     (case lock_end start len of
        None \<Rightarrow> Some (Some ERROR_EINVAL, md, [])
      | Some end' \<Rightarrow>
          map_option (\<lambda>(st, md', applied).
              (if strip_nonblock oper = kRelease_op then None
               else if nonblock_bit oper \<or> st \<noteq> ERROR_WAITING then Some st else None, md', applied))
            (posixLockOperation kMaster md inode (unat start) end' owner (strip_nonblock oper) (nonblock_bit oper)))"

definition fuse_flock ::
  "metadata \<Rightarrow> nat \<Rightarrow> lock_owner \<Rightarrow> nat \<Rightarrow> (status option \<times> metadata \<times> lock_owner list) option" where
  "fuse_flock md inode owner oper =
     map_option (\<lambda>(st, md', applied).
         (if strip_nonblock oper = kRelease_op then None
          else if nonblock_bit oper \<or> st \<noteq> ERROR_WAITING then Some st else None, md', applied))
       (flockOperation kMaster md inode owner (strip_nonblock oper) (nonblock_bit oper))"

definition fuse_getlk ::
  "metadata \<Rightarrow> nat \<Rightarrow> 64 word \<Rightarrow> 64 word \<Rightarrow> lock_owner \<Rightarrow> nat \<Rightarrow> (status + flock_wrapper) option" where
  "fuse_getlk md inode start len owner oper =
     (case lock_end start len of
        None \<Rightarrow> Some (Inl ERROR_EINVAL)
      | Some end' \<Rightarrow>
          map_option (\<lambda>(st, info).
              let info' = (if l_len info = int64_max then info\<lparr>l_len := 0\<rparr> else info)
              in if st = ERROR_WAITING \<or> st = STATUS_OK then Inr info' else Inl st)
            (posixLockProbe md inode (unat start) end' owner oper
               \<lparr>l_type = oper, l_start = unat start, l_len = unat len\<rparr>))"

definition fuse_locks_interrupt ::
  "metadata \<Rightarrow> nat \<Rightarrow> nat \<Rightarrow> nat \<Rightarrow> nat \<Rightarrow> nat \<Rightarrow> metadata option" where
  "fuse_locks_interrupt md type owner sessionid inode reqid =
     map_option snd (locksRemovePending kMaster md type owner sessionid inode reqid)"

definition locks_release :: "metadata \<Rightarrow> nat \<Rightarrow> nat \<Rightarrow> (metadata \<times> lock_owner list \<times> lock_owner list) option" where
  "locks_release md inode sessionid =
     (case locksClearSession kMaster md kFlock inode sessionid of
        None \<Rightarrow> None
      | Some (_, md1, flocks) \<Rightarrow>
          map_option (\<lambda>(_, md2, posix). (md2, flocks, posix))
            (locksClearSession kMaster md1 kPosix inode sessionid))"

text \<open>
  The administrator's unlock of one owner or of a whole inode, for one lock type or for all
  (type code 2). Its range is used as it was received.
\<close>

definition kAll :: nat where "kAll = 2"

definition manage_locks_unlock_single ::
  "metadata \<Rightarrow> nat \<Rightarrow> nat \<Rightarrow> lock_owner \<Rightarrow> nat \<Rightarrow> nat \<Rightarrow> (status \<times> metadata) option" where
  "manage_locks_unlock_single md type inode owner start end0 =
     (let end' = (if end0 = 0 then uint64_max else end0) in
      case (if type = kAll \<or> type = kFlock
            then map_option (\<lambda>(st, md', a). (st, md')) (flockOperation kMaster md inode owner kUnlock_op True)
            else Some (STATUS_OK, md)) of
        None \<Rightarrow> None
      | Some (st, md1) \<Rightarrow>
          if st = STATUS_OK \<and> (type = kAll \<or> type = kPosix)
          then map_option (\<lambda>(st, md', a). (st, md'))
                 (posixLockOperation kMaster md1 inode start end' owner kUnlock_op True)
          else Some (st, md1))"

definition manage_locks_unlock_inode :: "metadata \<Rightarrow> nat \<Rightarrow> nat \<Rightarrow> (status \<times> metadata) option" where
  "manage_locks_unlock_inode md type inode =
     (case (if type = kAll \<or> type = kFlock
            then map_option (\<lambda>(st, md', a). (st, md')) (locksUnlockInode kMaster md kFlock inode)
            else Some (STATUS_OK, md)) of
        None \<Rightarrow> None
      | Some (st, md1) \<Rightarrow>
          if st = STATUS_OK \<and> (type = kAll \<or> type = kPosix)
          then map_option (\<lambda>(st, md', a). (st, md')) (locksUnlockInode kMaster md1 kPosix inode)
          else Some (st, md1))"

section \<open>Replay of the changelog\<close>

definition replay_owner :: "nat \<Rightarrow> nat \<Rightarrow> lock_owner" where
  "replay_owner owner sessionid = \<lparr>ow_owner = owner, ow_sessionid = sessionid, ow_reqid = 0, ow_msgid = 0\<rparr>"

definition do_lock_op ::
  "metadata \<Rightarrow> nat \<Rightarrow> nat \<Rightarrow> nat \<Rightarrow> nat \<Rightarrow> nat \<Rightarrow> nat \<Rightarrow> nat \<Rightarrow> (status \<times> metadata) option" where
  "do_lock_op md lock_type inode start end' owner sessionid oper =
     (if lock_type = kFlock \<or> lock_type = kPosix
      then map_option (\<lambda>(st, md', applied). (if st = ERROR_WAITING then STATUS_OK else st, md'))
             (if lock_type = kFlock
              then flockOperation kShadow md inode (replay_owner owner sessionid) oper False
              else posixLockOperation kShadow md inode start end' (replay_owner owner sessionid) oper False)
      else Some (ERROR_EINVAL, md))"

definition do_remove_pending_op :: "metadata \<Rightarrow> nat \<Rightarrow> nat \<Rightarrow> nat \<Rightarrow> nat \<Rightarrow> nat \<Rightarrow> (status \<times> metadata) option" where
  "do_remove_pending_op md lock_type ownerid sessionid inode reqid =
     locksRemovePending kShadow md lock_type ownerid sessionid inode reqid"

definition do_lock_clear_session :: "metadata \<Rightarrow> nat \<Rightarrow> nat \<Rightarrow> nat \<Rightarrow> (status \<times> metadata) option" where
  "do_lock_clear_session md lock_type inode sessionid =
     map_option (\<lambda>(st, md', applied). (st, md')) (locksClearSession kShadow md lock_type inode sessionid)"

definition do_lock_unlock_inode :: "metadata \<Rightarrow> nat \<Rightarrow> nat \<Rightarrow> (status \<times> metadata) option" where
  "do_lock_unlock_inode md lock_type inode =
     map_option (\<lambda>(st, md', applied). (st, md')) (locksUnlockInode kShadow md lock_type inode)"

fun restore_lock_entry :: "metadata \<Rightarrow> lock_entry \<Rightarrow> (status \<times> metadata) option" where
  "restore_lock_entry md (FLCK type inode start end' owner sessionid oper) =
     do_lock_op md type inode start end' owner sessionid oper"
| "restore_lock_entry md (CLRLCK type inode sessionid) = do_lock_clear_session md type inode sessionid"
| "restore_lock_entry md (FLCKINODE type inode) = do_lock_unlock_inode md type inode"
| "restore_lock_entry md (RMPLOCK type ownerid sessionid inode reqid) =
     do_remove_pending_op md type ownerid sessionid inode reqid"

section \<open>The contract of granting\<close>

text \<open>
  Candidates are granted in order, each when the lock rule admits it; the rest stay waiting. The
  result is the new state of the inode, the refused requests and the owners to wake.
\<close>

fun grant_all ::
  "(nat \<Rightarrow> owner_key \<Rightarrow> lock_type option) \<Rightarrow> lock_ranges
     \<Rightarrow> (nat \<Rightarrow> owner_key \<Rightarrow> lock_type option) \<times> lock_ranges \<times> lock_owner list" where
  "grant_all h [] = (h, [], [])"
| "grant_all h (c # cs) =
     (if lock_rule c h then (case grant_all (set_lock c h) cs of (h', w, a) \<Rightarrow> (h', w, lr_owners c @ a))
      else (case grant_all h cs of (h', w, a) \<Rightarrow> (h', c # w, a)))"

lemma apply_candidate:
  assumes "wf_file_locks fl" "wf_lock c" "\<not> unlocking c"
  shows "\<exists>fl'. apply_lock fl i c nb = Some (lock_rule c (granted fl i), fl') \<and> wf_file_locks fl'
     \<and> granted fl' = (if lock_rule c (granted fl i) then (granted fl)(i := set_lock c (granted fl i)) else granted fl)
     \<and> waiting fl' = (if \<not> lock_rule c (granted fl i) \<and> \<not> nb then (waiting fl)(i := add_mset c (waiting fl i)) else waiting fl)"
  using apply_lock_rule [OF assms(1,2), of i nb] apply_lock_total [OF assms(1), of c i nb] assms(2,3)
  by (auto simp: wf_lock_def)

lemma apply_candidates_spec:
  assumes "wf_file_locks fl" and "\<And>c. c \<in> set cs \<Longrightarrow> wf_lock c \<and> \<not> unlocking c"
    and "grant_all (granted fl i) cs = (h, w, a)"
  shows "\<exists>fl'. apply_candidates fl i cs = Some (fl', a) \<and> wf_file_locks fl'
     \<and> granted fl' = (granted fl)(i := h) \<and> waiting fl' = (waiting fl)(i := waiting fl i + mset w)"
  using assms
proof (induction cs arbitrary: fl h w a)
  case Nil
  then show ?case by (auto simp: fun_eq_iff)
next
  case (Cons c cs)
  then obtain fl1 where fl1: "apply_lock fl i c False = Some (lock_rule c (granted fl i), fl1)" "wf_file_locks fl1"
     "granted fl1 = (if lock_rule c (granted fl i) then (granted fl)(i := set_lock c (granted fl i)) else granted fl)"
     "waiting fl1 = (if \<not> lock_rule c (granted fl i) then (waiting fl)(i := add_mset c (waiting fl i)) else waiting fl)"
    using apply_candidate [of fl c i False] by auto
  obtain h1 w1 a1 where g: "grant_all (granted fl1 i) cs = (h1, w1, a1)" by (metis prod_cases3)
  then obtain fl2 where fl2: "apply_candidates fl1 i cs = Some (fl2, a1)" "wf_file_locks fl2"
     "granted fl2 = (granted fl1)(i := h1)" "waiting fl2 = (waiting fl1)(i := waiting fl1 i + mset w1)"
    using Cons.IH [OF fl1(2) _ g] Cons.prems(2) by (meson list.set_intros(2))
  show ?case
  proof (cases "lock_rule c (granted fl i)")
    case True
    with Cons.prems(3) fl1(3) g have "h = h1" "w = w1" "a = lr_owners c @ a1" by auto
    with True fl1 fl2 show ?thesis by (intro exI [of _ fl2]) simp
  next
    case False
    with Cons.prems(3) fl1(3) g have "h = h1" "w = c # w1" "a = a1" by auto
    with False fl1 fl2 show ?thesis by (intro exI [of _ fl2]) simp
  qed
qed

lemma try_pending_spec:
  assumes "wf_file_locks fl" and "s \<le> e"
  shows "\<exists>h w a fl'. manageLockTryLockPending fl i s e = Some (fl', a) \<and> wf_file_locks fl'
     \<and> mset (candidates (entry (pending_locks fl) i) s e) \<subseteq># waiting fl i
     \<and> grant_all (granted fl i) (candidates (entry (pending_locks fl) i) s e) = (h, w, a)
     \<and> granted fl' = (granted fl)(i := h)
     \<and> waiting fl' = (waiting fl)(i := waiting fl i - mset (candidates (entry (pending_locks fl) i) s e) + mset w)"
proof -
  define cs where "cs = candidates (entry (pending_locks fl) i) s e"
  obtain fl1 where g: "gatherCandidates fl i s e = Some (cs, fl1)" "wf_file_locks fl1" "granted fl1 = granted fl"
     "waiting fl = (waiting fl1)(i := mset cs + waiting fl1 i)" "\<forall>c \<in> set cs. wf_lock c \<and> \<not> unlocking c"
    using gatherCandidates_spec [OF assms, of i] gatherCandidates_eq [OF assms, of i] unfolding cs_def by fastforce
  obtain h w a where ga: "grant_all (granted fl1 i) cs = (h, w, a)" by (metis prod_cases3)
  from apply_candidates_spec [OF g(2) _ ga] g(5) obtain fl2 where
    "apply_candidates fl1 i cs = Some (fl2, a)" "wf_file_locks fl2"
    "granted fl2 = (granted fl1)(i := h)" "waiting fl2 = (waiting fl1)(i := waiting fl1 i + mset w)" by auto
  with g ga show ?thesis unfolding cs_def [symmetric]
    by (intro exI [of _ h] exI [of _ w] exI [of _ a] exI [of _ fl2])
       (auto simp: manageLockTryLockPending_def)
qed

lemma try_pending_wf:
  assumes "wf_file_locks fl" and "manageLockTryLockPending fl i s e = Some (fl', a)"
  shows "wf_file_locks fl'"
proof -
  obtain cs fl1 where g: "gatherCandidates fl i s e = Some (cs, fl1)" "apply_candidates fl1 i cs = Some (fl', a)"
    using assms(2) by (auto simp: manageLockTryLockPending_def split: option.splits)
  obtain h w a' where ga: "grant_all (granted fl1 i) cs = (h, w, a')" by (metis prod_cases3)
  show ?thesis
    using apply_candidates_spec [OF gatherCandidates_keeps(1) [OF assms(1) g(1)] _ ga] gatherCandidates_keeps(4) [OF assms(1) g(1)] g(2)
    by auto
qed

section \<open>Every operation succeeds and keeps the tables well formed\<close>

definition valid_range :: "nat \<Rightarrow> nat \<Rightarrow> nat \<Rightarrow> bool" where
  "valid_range oper s e \<longleftrightarrow> s \<le> e \<and> (oper = kShared_op \<or> oper = kExclusive_op \<longrightarrow> s < e)"

definition op_type :: "nat \<Rightarrow> lock_type" where
  "op_type oper = (if oper = kShared_op then kShared else if oper = kExclusive_op then kExclusive else kUnlock)"

lemma removePending_owner_total:
  assumes "wf_file_locks fl"
  shows "\<exists>fl'. removePending fl i (owner_pred P) = Some fl' \<and> wf_file_locks fl' \<and> granted fl' = granted fl
     \<and> waiting fl' = (waiting fl)(i := filter_mset (\<lambda>x. \<not> P (hd (lr_owners x))) (waiting fl i))"
  by (rule removePending_spec [OF assms]) (simp only: owner_pred_def single_owner_predicate [OF assms])

lemma lock_switch_total:
  assumes "wf_file_locks fl" "valid_range oper s e" "lock_switch fl i s e ow oper nb = Some (r, s', e')"
  shows "s' \<le> e' \<and> (\<exists>ok fl'. r = Some (ok, fl') \<and> wf_file_locks fl')"
proof -
  consider (lock) "oper = kShared_op \<or> oper = kExclusive_op" | (release) "oper = kRelease_op"
    | (unlock) "oper = kUnlock_op"
    using assms(3) by (auto simp: lock_switch_def split: if_splits)
  then show ?thesis
  proof cases
    case lock
    then have "wf_lock (LockRange (op_type oper) s e ow)"
      using assms(2) by (auto simp: valid_range_def op_type_def)
    with apply_lock_rule [OF assms(1) this, of i nb] lock assms(2,3) show ?thesis
      by (auto simp: lock_switch_def sharedLock_def exclusiveLock_def op_type_def valid_range_def op_codes)
  next
    case release
    obtain fl1 where fl1: "removePending fl i (owner_pred (\<lambda>x. ow_sessionid x = ow_sessionid ow \<and> ow_owner x = ow_owner ow)) = Some fl1"
      "wf_file_locks fl1"
      using removePending_owner_total [OF assms(1)] by blast
    have "wf_lock (LockRange kUnlock 0 uint64_max ow)" by (simp add: uint64_max_def)
    with apply_lock_rule [OF fl1(2) this, of i False] fl1 release assms(3) show ?thesis
      by (auto simp: lock_switch_def unlock_def op_codes)
  next
    case unlock
    then have "wf_request (LockRange kUnlock s e ow)" "s \<le> e" using assms(2) by (auto simp: valid_range_def)
    with apply_lock_total [OF assms(1) this(1), of i False] fits_unlocking [OF wf_file_locksD(1) [OF assms(1), of i], of "LockRange kUnlock s e ow"]
      unlock assms(3) show ?thesis
      by (auto simp: lock_switch_def unlock_def op_codes)
  qed
qed

lemma lockOperation_total:
  assumes "wf_file_locks fl" "valid_range oper s e"
  shows "\<exists>st fl' a. lockOperation md fl i s e ow oper nb = Some (st, fl', a) \<and> wf_file_locks fl'"
proof (cases "lock_switch fl i s e ow oper nb")
  case None
  with assms(1) show ?thesis by (auto simp: lockOperation_def Let_def)
next
  case (Some x)
  obtain r s' e' where x: "x = (r, s', e')" by (cases x)
  obtain ok fl1 where r: "r = Some (ok, fl1)" "wf_file_locks fl1" "s' \<le> e'"
    using lock_switch_total [OF assms Some [unfolded x]] by auto
  obtain fl2 a where "manageLockTryLockPending fl1 i s' e' = Some (fl2, a)" "wf_file_locks fl2"
    using try_pending_spec [OF r(2,3), of i] by blast
  with assms(1) Some x r show ?thesis by (auto simp: lockOperation_def Let_def)
qed

text \<open>An unlock of any range, also of a reversed one, keeps the table well formed if it runs to the end.\<close>

lemma unlock_any_wf:
  assumes "wf_file_locks fl" "unlock fl i s e ow = Some (ok, fl')"
  shows "wf_file_locks fl'"
proof (cases "s \<le> e")
  case True
  then have "wf_request (LockRange kUnlock s e ow)" "lr_start (LockRange kUnlock s e ow) \<le> lr_end (LockRange kUnlock s e ow)" by auto
  from apply_lock_total [OF assms(1) this, of i False] fits_unlocking [OF wf_file_locksD(1) [OF assms(1), of i], of "LockRange kUnlock s e ow"]
  show ?thesis using assms(2) True by (auto simp: unlock_def)
next
  case False
  let ?d = "entry (active_locks fl) i" and ?l = "LockRange kUnlock s e ow"
  have d: "wf_ranges ?d" using assms(1) by (rule wf_file_locksD)
  obtain d' where d': "insert_range ?d ?l = Some d'"
      "fl' = fl\<lparr>active_locks := (active_locks fl)(i := if length d' = 0 then None else Some d')\<rparr>"
    using assms(2) by (auto simp: unlock_def apply_lock_def fits_def findCollision_def Let_def unlocking_def split: option.splits)
  then have "d' = ?d" using insert_empty [OF d, of ?l d'] False by simp
  then show ?thesis using d d'(2) assms(1) by (auto simp: wf_file_locks_def)
qed

lemma lockOperation_unlock_wf:
  assumes "wf_file_locks fl" "lockOperation md fl i s e ow kUnlock_op nb = Some (st, fl', a)"
  shows "wf_file_locks fl'"
proof (cases "checkLockPermissions md i kUnlock_op = STATUS_OK")
  case True
  then obtain ok fl1 where "unlock fl i s e ow = Some (ok, fl1)" "manageLockTryLockPending fl1 i s e = Some (fl', a)"
    using assms(2) by (auto simp: lockOperation_def lock_switch_def Let_def op_codes split: option.splits)
  then show ?thesis using try_pending_wf unlock_any_wf [OF assms(1)] by blast
next
  case False
  then show ?thesis using assms by (simp add: lockOperation_def Let_def)
qed

definition wf_metadata :: "metadata \<Rightarrow> bool" where
  "wf_metadata md \<longleftrightarrow> wf_file_locks (flockLocks md) \<and> wf_file_locks (posixLocks md)"

lemma wf_log [simp]: "wf_metadata (log_or_bump pers e md) = wf_metadata md"
  by (simp add: wf_metadata_def log_or_bump_def)

lemma table_wf: "wf_metadata md \<Longrightarrow> table md type = Some fl \<Longrightarrow> wf_file_locks fl"
  by (auto simp: wf_metadata_def table_def split: if_splits)

lemma set_table_wf [inv_intros]: "wf_metadata md \<Longrightarrow> wf_file_locks fl \<Longrightarrow> wf_metadata (set_table md type fl)"
  by (auto simp: wf_metadata_def set_table_def)

lemma flockOperation_total:
  assumes "wf_metadata md"
  shows "\<exists>st md' a. flockOperation pers md i ow oper nb = Some (st, md', a) \<and> wf_metadata md'"
proof -
  have "valid_range oper 0 1" by (simp add: valid_range_def)
  then obtain st fl' a where "lockOperation md (flockLocks md) i 0 1 ow oper nb = Some (st, fl', a)" "wf_file_locks fl'"
    using lockOperation_total assms unfolding wf_metadata_def by blast
  then show ?thesis using assms by (simp add: flockOperation_def) (simp add: wf_metadata_def)
qed

lemma posixLockOperation_total:
  assumes "wf_metadata md" "valid_range oper s e"
  shows "\<exists>st md' a. posixLockOperation pers md i s e ow oper nb = Some (st, md', a) \<and> wf_metadata md'"
proof -
  obtain st fl' a where "lockOperation md (posixLocks md) i s e ow oper nb = Some (st, fl', a)" "wf_file_locks fl'"
    using lockOperation_total assms unfolding wf_metadata_def by blast
  then show ?thesis using assms by (simp add: posixLockOperation_def) (simp add: wf_metadata_def)
qed

lemma locksRemovePending_total:
  assumes "wf_metadata md"
  shows "\<exists>st md'. locksRemovePending pers md type ow sid i rid = Some (st, md') \<and> wf_metadata md'"
proof (cases "table md type")
  case (Some fl)
  obtain fl' where "removePending fl i (owner_pred (\<lambda>x. ow_owner x = ow \<and> ow_sessionid x = sid \<and> ow_reqid x = rid)) = Some fl'"
    "wf_file_locks fl'"
    using removePending_owner_total [OF table_wf [OF assms Some]] by blast
  with Some assms show ?thesis by (simp add: locksRemovePending_def set_table_wf)
qed (use assms in \<open>simp add: locksRemovePending_def\<close>)

lemma locksUnlockInode_total:
  assumes "wf_metadata md"
  shows "\<exists>st md' a. locksUnlockInode pers md type i = Some (st, md', a) \<and> wf_metadata md'"
proof (cases "table md type")
  case (Some fl)
  have "0 \<le> (if type = kFlock then 1 else uint64_max)" by simp
  with try_pending_spec [OF unlock_inode_spec(1) [OF table_wf [OF assms Some]], of 0 _ i i]
  obtain fl' a where "manageLockTryLockPending (unlock_inode fl i) i 0 (if type = kFlock then 1 else uint64_max) = Some (fl', a)"
    "wf_file_locks fl'" by blast
  with Some assms show ?thesis by (simp add: locksUnlockInode_def set_table_wf)
qed (use assms in \<open>simp add: locksUnlockInode_def\<close>)

lemma locksClearSession_total:
  assumes "wf_metadata md"
  shows "\<exists>st md' a. locksClearSession pers md type i sid = Some (st, md', a) \<and> wf_metadata md'"
proof (cases "table md type")
  case (Some fl)
  obtain fl1 where fl1: "removePending fl i (owner_pred (\<lambda>x. ow_sessionid x = sid)) = Some fl1" "wf_file_locks fl1"
    using removePending_owner_total [OF table_wf [OF assms Some]] by blast
  obtain rg fl2 where fl2: "unlock_owners fl1 i (\<lambda>x. ow_sessionid x = sid) = (rg, fl2)" by fastforce
  have wf2: "wf_file_locks fl2"
    by (rule unlock_owners_spec(1) [where Q = "\<lambda>k. snd k = sid", OF fl1(2) _ fl2]) (simp add: okey_def)
  have "\<exists>q fl3. (if fst rg < snd rg then gatherCandidates fl2 i (fst rg) (snd rg) else Some ([], fl2)) = Some (q, fl3)
      \<and> wf_file_locks fl3"
    using gatherCandidates_spec [OF wf2, of "fst rg" "snd rg" i] wf2 by auto
  then obtain q fl3 where "(if fst rg < snd rg then gatherCandidates fl2 i (fst rg) (snd rg) else Some ([], fl2)) = Some (q, fl3)"
    "wf_file_locks fl3" by blast
  with Some fl1 fl2 assms show ?thesis by (simp add: locksClearSession_def set_table_wf)
qed (use assms in \<open>simp add: locksClearSession_def\<close>)


section \<open>Handlers and reachable states\<close>

lemma sint_nonneg_uint:
  assumes "0 \<le> sint (w :: 64 word)"
  shows "uint w = sint w" "uint w < 2 ^ 63"
proof -
  have lt: "sint w < 2 ^ 63" using sint_lt [of w] by simp
  show eq: "uint w = sint w"
    unfolding uint_sint using assms lt by (simp add: take_bit_int_eq_self)
  show "uint w < 2 ^ 63" using eq lt by simp
qed

lemma sint_nonneg_unat:
  assumes "0 \<le> sint (w :: 64 word)"
  shows "unat w < 9223372036854775808"
proof -
  have "int (unat w) < 9223372036854775808"
    using sint_nonneg_uint(2) [OF assms] by simp
  then show ?thesis by linarith
qed

text \<open>A range the handlers compute is never empty and never wraps around.\<close>

lemma lock_end_bound:
  assumes "lock_end start len = Some e"
  shows "unat start < e \<and> e \<le> uint64_max \<and> e = (if len = 0 then uint64_max else unat start + unat len)"
proof -
  have s: "0 \<le> sint start" "0 \<le> sint len" using assms by (auto simp: lock_end_def split: if_splits)
  note us = sint_nonneg_unat [OF s(1)] sint_nonneg_unat [OF s(2)]
  show ?thesis
  proof (cases "len = 0")
    case True
    with assms s have "e = uint64_max" by (simp add: lock_end_def)
    with us(1) True show ?thesis by (simp add: uint64_max_def)
  next
    case False
    then have "unat len \<noteq> 0" by (simp add: unat_eq_0)
    moreover have "unat (start + len) = unat start + unat len"
      using us by (intro unat_add_lem [THEN iffD1]) simp
    moreover have "e = unat (start + len)" using assms s False by (simp add: lock_end_def)
    ultimately show ?thesis using us False by (simp add: uint64_max_def)
  qed
qed

inductive lock_step :: "metadata \<Rightarrow> metadata \<Rightarrow> bool" where
  flock: "fuse_flock md i ow oper = Some (r, md', a) \<Longrightarrow> lock_step md md'"
| setlk: "fuse_setlk md i start len ow oper = Some (r, md', a) \<Longrightarrow> lock_step md md'"
| interrupt: "fuse_locks_interrupt md type ow sid i rid = Some md' \<Longrightarrow> lock_step md md'"
| session: "locks_release md i sid = Some (md', fa, pa) \<Longrightarrow> lock_step md md'"
| unlock_single: "manage_locks_unlock_single md type i ow s e = Some (st, md') \<Longrightarrow> lock_step md md'"
| unlock_all: "manage_locks_unlock_inode md type i = Some (st, md') \<Longrightarrow> lock_step md md'"
| inodes: "lock_step md (md\<lparr>nodes := N\<rparr>)"

inductive lock_reachable :: "metadata \<Rightarrow> bool" where
  start: "lock_reachable \<lparr>nodes = N, flockLocks = FileLocks, posixLocks = FileLocks,
            metadataVersion = v, changelog = []\<rparr>"
| step: "lock_reachable md \<Longrightarrow> lock_step md md' \<Longrightarrow> lock_reachable md'"

lemma fuse_flock_total:
  assumes "wf_metadata md"
  shows "\<exists>r md' a. fuse_flock md i ow oper = Some (r, md', a) \<and> wf_metadata md'"
proof -
  obtain st md' a where "flockOperation kMaster md i ow (strip_nonblock oper) (nonblock_bit oper) = Some (st, md', a)"
    "wf_metadata md'"
    using flockOperation_total [OF assms] by blast
  then show ?thesis by (simp add: fuse_flock_def)
qed

lemma fuse_setlk_total:
  assumes "wf_metadata md"
  shows "\<exists>r md' a. fuse_setlk md i start len ow oper = Some (r, md', a) \<and> wf_metadata md'"
proof (cases "lock_end start len")
  case None
  with assms show ?thesis by (simp add: fuse_setlk_def)
next
  case (Some e)
  then have "valid_range (strip_nonblock oper) (unat start) e"
    using lock_end_bound [OF Some] by (simp add: valid_range_def)
  then obtain st md' a where "posixLockOperation kMaster md i (unat start) e ow (strip_nonblock oper)
      (nonblock_bit oper) = Some (st, md', a)" "wf_metadata md'"
    using posixLockOperation_total [OF assms] by blast
  with Some show ?thesis by (simp add: fuse_setlk_def)
qed

lemma interrupt_total:
  "wf_metadata md \<Longrightarrow> \<exists>md'. fuse_locks_interrupt md type ow sid i rid = Some md' \<and> wf_metadata md'"
  using locksRemovePending_total [of md kMaster type ow sid i rid] by (auto simp: fuse_locks_interrupt_def)

lemma locks_release_total:
  assumes "wf_metadata md"
  shows "\<exists>md' fa pa. locks_release md i sid = Some (md', fa, pa) \<and> wf_metadata md'"
proof -
  obtain st md1 a where 1: "locksClearSession kMaster md kFlock i sid = Some (st, md1, a)" "wf_metadata md1"
    using locksClearSession_total [OF assms] by blast
  obtain st' md2 a' where "locksClearSession kMaster md1 kPosix i sid = Some (st', md2, a')" "wf_metadata md2"
    using locksClearSession_total [OF 1(2)] by blast
  with 1 show ?thesis by (simp add: locks_release_def)
qed

lemma manage_single_total:
  assumes "wf_metadata md" "s \<le> e \<or> e = 0 \<and> s \<le> uint64_max"
  shows "\<exists>st md'. manage_locks_unlock_single md type i ow s e = Some (st, md') \<and> wf_metadata md'"
proof -
  let ?e = "if e = 0 then uint64_max else e"
  have v: "valid_range kUnlock_op s ?e" using assms(2) by (auto simp: valid_range_def op_codes)
  obtain st md1 where 1: "(if type = kAll \<or> type = kFlock
      then map_option (\<lambda>(st, md', a). (st, md')) (flockOperation kMaster md i ow kUnlock_op True)
      else Some (STATUS_OK, md)) = Some (st, md1)" "wf_metadata md1"
    using flockOperation_total [OF assms(1), of kMaster i ow kUnlock_op True] assms(1)
    by (cases "type = kAll \<or> type = kFlock") auto
  obtain st' md2 a where "posixLockOperation kMaster md1 i s ?e ow kUnlock_op True = Some (st', md2, a)" "wf_metadata md2"
    using posixLockOperation_total [OF 1(2) v] by blast
  with 1 show ?thesis unfolding manage_locks_unlock_single_def Let_def by simp
qed

lemma manage_single_wf:
  assumes "wf_metadata md" "manage_locks_unlock_single md type i ow s e = Some (st, md')"
  shows "wf_metadata md'"
proof -
  obtain st1 md1 where 1: "(if type = kAll \<or> type = kFlock
      then map_option (\<lambda>(st, md', a). (st, md')) (flockOperation kMaster md i ow kUnlock_op True)
      else Some (STATUS_OK, md)) = Some (st1, md1)" "wf_metadata md1"
    using flockOperation_total [OF assms(1), of kMaster i ow kUnlock_op True] assms(1)
    by (cases "type = kAll \<or> type = kFlock") auto
  have "md' = md1 \<or> (\<exists>a. posixLockOperation kMaster md1 i s (if e = 0 then uint64_max else e) ow kUnlock_op True = Some (st, md', a))"
    using assms(2) 1(1) unfolding manage_locks_unlock_single_def Let_def by (auto split: if_splits)
  then show ?thesis
    using 1(2) lockOperation_unlock_wf by (auto simp: posixLockOperation_def wf_metadata_def log_or_bump_def)
qed

lemma manage_inode_total:
  assumes "wf_metadata md"
  shows "\<exists>st md'. manage_locks_unlock_inode md type i = Some (st, md') \<and> wf_metadata md'"
proof -
  obtain st md1 where 1: "(if type = kAll \<or> type = kFlock
      then map_option (\<lambda>(st, md', a). (st, md')) (locksUnlockInode kMaster md kFlock i)
      else Some (STATUS_OK, md)) = Some (st, md1)" "wf_metadata md1"
    using locksUnlockInode_total [OF assms, of kMaster kFlock i] assms
    by (cases "type = kAll \<or> type = kFlock") auto
  obtain st' md2 a where "locksUnlockInode kMaster md1 kPosix i = Some (st', md2, a)" "wf_metadata md2"
    using locksUnlockInode_total [OF 1(2)] by blast
  with 1 show ?thesis unfolding manage_locks_unlock_inode_def by simp
qed

lemma lock_step_wf [inv_intros]: "lock_step md md' \<Longrightarrow> wf_metadata md \<Longrightarrow> wf_metadata md'"
proof (induction rule: lock_step.induct)
  case (flock md i ow oper r md' a)
  then show ?case using fuse_flock_total [of md i ow oper] by simp
next
  case (setlk md i start len ow oper r md' a)
  then show ?case using fuse_setlk_total [of md i start len ow oper] by simp
next
  case (interrupt md type ow sid i rid md')
  then show ?case using interrupt_total [of md type ow sid i rid] by simp
next
  case (session md i sid md' fa pa)
  then show ?case using locks_release_total [of md i sid] by simp
next
  case (unlock_single md type i ow s e st md')
  then show ?case using manage_single_wf by blast
next
  case (unlock_all md type i st md')
  then show ?case using manage_inode_total [of md type i] by simp
qed (simp add: wf_metadata_def)

lemma lock_reachable_wf: "lock_reachable md \<Longrightarrow> wf_metadata md"
proof (induction rule: lock_reachable.induct)
  case (start N v)
  show ?case by (simp add: wf_metadata_def wf_FileLocks)
next
  case (step md md')
  then show ?case by (blast intro: lock_step_wf)
qed

section \<open>Liveness of a full unlock\<close>

lemma grant_all_blocked:
  assumes "distinct (map rkey cs)" "\<And>p k t. h p k = Some t \<Longrightarrow> k \<notin> rkey ` set cs"
    and "grant_all h cs = (h', w, a)"
  shows "(\<forall>p k. k \<notin> rkey ` set cs \<longrightarrow> h' p k = h p k) \<and> (\<forall>c \<in> set w. \<not> lock_rule c h')"
  using assms
proof (induction cs arbitrary: h h' w a)
  case (Cons c cs)
  have disj: "rkey c \<notin> rkey ` set cs" "distinct (map rkey cs)" using Cons.prems(1) by auto
  show ?case
  proof (cases "lock_rule c h")
    case True
    then obtain a1 where g: "grant_all (set_lock c h) cs = (h', w, a1)"
      using Cons.prems(3) by (auto split: prod.splits)
    have "\<And>p k t. set_lock c h p k = Some t \<Longrightarrow> k \<notin> rkey ` set cs"
      using Cons.prems(2) disj(1) by (auto simp: set_lock_def split: if_splits)
    from Cons.IH [OF disj(2) this g] show ?thesis by (auto simp: set_lock_def)
  next
    case False
    then obtain w1 where g: "grant_all h cs = (h', w1, a)" "w = c # w1"
      using Cons.prems(3) by (auto split: prod.splits)
    have IH: "(\<forall>p k. k \<notin> rkey ` set cs \<longrightarrow> h' p k = h p k) \<and> (\<forall>c \<in> set w1. \<not> lock_rule c h')"
      using Cons.prems(2) by (intro Cons.IH [OF disj(2) _ g(1)]) auto
    obtain p k t where b: "covers c p" "h p k = Some t" "k \<noteq> rkey c" "\<not> (lr_type c = kShared \<and> t = kShared)"
      using False by (auto simp: lock_rule_def)
    have "k \<notin> rkey ` set cs" using Cons.prems(2) [OF b(2)] by simp
    then have "h' p k = Some t" using IH b(2) by metis
    with b have "\<not> lock_rule c h'" unfolding lock_rule_def by blast
    with IH g(2) show ?thesis by auto
  qed
qed simp

lemma try_pending_all:
  assumes "wf_file_locks fl" "granted fl i = (\<lambda>p k. None)"
    and "distinct (map rkey (entry (pending_locks fl) i))"
    and "\<forall>c \<in> set (entry (pending_locks fl) i). lr_start c \<le> e"
  shows "\<exists>fl' a. manageLockTryLockPending fl i 0 e = Some (fl', a) \<and> wf_file_locks fl'
     \<and> (\<forall>c. c \<in># waiting fl' i \<longrightarrow> \<not> lock_rule c (granted fl' i))"
proof -
  obtain cs fl1 where g: "gatherCandidates fl i 0 e = Some (cs, fl1)" "wf_file_locks fl1" "granted fl1 = granted fl"
     "waiting fl = (waiting fl1)(i := mset cs + waiting fl1 i)" "\<forall>c \<in> set cs. wf_lock c \<and> \<not> unlocking c"
    using gatherCandidates_spec [OF assms(1), of 0 e i] by blast
  have w0: "waiting fl i = mset cs + waiting fl1 i" by (subst g(4)) simp
  have none: "waiting fl1 i = {#}"
  proof (cases "pending_locks fl i")
    case None
    then show ?thesis using w0 by (simp add: waiting_def entry_None)
  next
    case (Some q)
    have "c \<notin># waiting fl1 i" for c
    proof
      assume c: "c \<in># waiting fl1 i"
      then have "c \<in># waiting fl i" using w0 by simp
      then have "lr_start c \<le> e" using assms(4) by (simp add: waiting_def)
      with gatherCandidates_left [OF assms(1) g(1) c] Some show False by auto
    qed
    then show ?thesis by (meson multiset_nonemptyE)
  qed
  have "mset (map rkey cs) = mset (map rkey (entry (pending_locks fl) i))"
    unfolding mset_map using w0 none by (simp add: waiting_def)
  then have dist: "distinct (map rkey cs)" using assms(3) mset_eq_imp_distinct_iff by blast
  obtain h w a where ga: "grant_all (granted fl1 i) cs = (h, w, a)" by (metis prod_cases3)
  obtain fl2 where fl2: "apply_candidates fl1 i cs = Some (fl2, a)" "wf_file_locks fl2"
     "granted fl2 = (granted fl1)(i := h)" "waiting fl2 = (waiting fl1)(i := waiting fl1 i + mset w)"
    using apply_candidates_spec [OF g(2) _ ga] g(5) by blast
  have "\<forall>c \<in> set w. \<not> lock_rule c h"
    using grant_all_blocked [OF dist _ ga] g(3) assms(2) by simp
  with fl2 g(1) none show ?thesis by (simp add: manageLockTryLockPending_def)
qed

section \<open>The status of a request\<close>

lemma lockOperation_status:
  assumes "wf_file_locks fl" "i \<in> nodes md" "oper = kShared_op \<or> oper = kExclusive_op" "s < e"
  shows "\<exists>fl' a. lockOperation md fl i s e ow oper nb =
     Some (if lock_rule (LockRange (op_type oper) s e ow) (granted fl i) then STATUS_OK else ERROR_WAITING, fl', a)
     \<and> wf_file_locks fl'"
proof -
  let ?l = "LockRange (op_type oper) s e ow"
  have l: "wf_lock ?l" "\<not> unlocking ?l" using assms(3,4) by (auto simp: op_type_def)
  obtain fl1 where fl1: "apply_lock fl i ?l nb = Some (lock_rule ?l (granted fl i), fl1)" "wf_file_locks fl1"
    using apply_lock_rule [OF assms(1) l(1), of i nb] l(2) by auto
  have sw: "lock_switch fl i s e ow oper nb = Some (Some (lock_rule ?l (granted fl i), fl1), s, e)"
    using assms(3)
  proof
    assume "oper = kShared_op"
    with fl1(1) show ?thesis by (simp add: lock_switch_def op_type_def sharedLock_def)
  next
    assume "oper = kExclusive_op"
    with fl1(1) show ?thesis by (simp add: lock_switch_def op_type_def exclusiveLock_def op_codes)
  qed
  obtain fl2 a where "manageLockTryLockPending fl1 i s e = Some (fl2, a)" "wf_file_locks fl2"
    using try_pending_spec [OF fl1(2), of s e i] assms(4) by auto
  moreover have "checkLockPermissions md i oper = STATUS_OK"
    using assms(2) by (simp add: checkLockPermissions_def getNodeForOperation_def)
  ultimately show ?thesis
    unfolding lockOperation_def Let_def sw using fl1(2) by (cases "oper = kExclusive_op") simp_all
qed

lemma probe_status:
  assumes "wf_file_locks (posixLocks md)" "i \<in> nodes md" "oper = kShared_op \<or> oper = kExclusive_op" "s < e"
  shows "\<exists>info'. posixLockProbe md i s e ow oper info =
     Some (if lock_rule (LockRange (op_type oper) s e ow) (granted (posixLocks md) i) then STATUS_OK else ERROR_WAITING, info')"
proof -
  let ?l = "LockRange (op_type oper) s e ow" and ?d = "entry (active_locks (posixLocks md)) i"
  have l: "wf_lock ?l" "\<not> unlocking ?l" using assms(3,4) by (auto simp: op_type_def)
  have "probe_collision (posixLocks md) i (op_type oper) s e ow = findCollision ?d ?l"
    using assms(4) findCollision_complete [of "[]" ?l] l(2)
    by (auto simp: probe_collision_def entry_def split: option.split)
  moreover have "fits ?d ?l = Some (lock_rule ?l (granted (posixLocks md) i))"
    using lr.admits_rule [OF wf_file_locksD(1) [OF assms(1)] l(1), of i] l(2) by (simp add: granted_def)
  ultimately obtain c where c: "probe_collision (posixLocks md) i (op_type oper) s e ow = Some c"
    "(c = None) = lock_rule ?l (granted (posixLocks md) i)"
    by (auto simp: fits_def)
  have ct: "code_type oper = Some (op_type oper)" using assms(3) by (auto simp: code_type_def op_type_def op_codes)
  show ?thesis
    using c ct assms(2,3)
    by (cases c) (auto simp: posixLockProbe_def checkLockPermissions_def getNodeForOperation_def)
qed


section \<open>Properties\<close>

lemmas op_eval = lockOperation_def lock_switch_def sharedLock_def exclusiveLock_def unlock_def apply_lock_def
  enqueue_def queue_insert_def insert_at_def range_less_def entry_def checkLockPermissions_def
  getNodeForOperation_def flockOperation_def posixLockOperation_def log_or_bump_def
  manageLockTryLockPending_def gatherCandidates_def removePending_def owner_pred_def the_owner_def
  unlock_owners_def table_def set_table_def locksClearSession_def uint64_max_def op_codes
  fits_def findCollision_def scan_start_def scan_end_def partition_point_def collides_def overlaps_def
  unlocking_def shared_def insert_range_def sticks_def take_over_def eraseOwner_def addOwners_def
  erase_at_def markUnlocking_def LockRange_def okey_def Let_def

definition empty_metadata :: "nat set \<Rightarrow> metadata" where
  "empty_metadata N = \<lparr>nodes = N, flockLocks = FileLocks, posixLocks = FileLocks, metadataVersion = 1, changelog = []\<rparr>"

definition client :: "nat \<Rightarrow> lock_owner" where
  "client n = \<lparr>ow_owner = n, ow_sessionid = n, ow_reqid = 10 * n, ow_msgid = 20 * n\<rparr>"

lemma wf_empty_metadata: "wf_metadata (empty_metadata N)"
  by (simp add: wf_metadata_def empty_metadata_def wf_FileLocks)

lemma reachable_empty_metadata: "lock_reachable (empty_metadata N)"
  unfolding empty_metadata_def by (rule lock_reachable.start)

text \<open>C1: In every state the lock handlers can reach, an exclusive lock excludes: if an owner holds a byte
  exclusively, no other owner holds any lock on that byte, in the flock table and in the posix table.\<close>

theorem exclusive_lock_excludes:
  assumes "lock_reachable md" and "table md type = Some fl"
    and "granted fl i p k = Some kExclusive" and "granted fl i p k' = Some t"
  shows "k' = k"
proof -
  have "wf_file_locks fl" using table_wf [OF lock_reachable_wf [OF assms(1)] assms(2)] .
  then show ?thesis
    using lr.excludes [OF wf_file_locksD(1)] assms(3,4) unfolding granted_def by blast
qed

lemma first_flock:
  "fuse_flock (empty_metadata {7}) 7 (client 1) 4 = Some (Some STATUS_OK,
     \<lparr>nodes = {7}, flockLocks = \<lparr>active_locks = [7 \<mapsto> [LockRange kExclusive 0 1 (client 1)]], pending_locks = Map.empty\<rparr>,
      posixLocks = FileLocks, metadataVersion = 2, changelog = [(1, FLCK 0 7 0 1 1 1 4)]\<rparr>, [])"
  by (simp add: fuse_flock_def op_eval empty_metadata_def client_def FileLocks_def nonblock_bit_def strip_nonblock_def)

theorem exclusive_lock_excludes_witness:
  "\<exists>md. lock_reachable md \<and> granted (flockLocks md) 7 0 (1, 1) = Some kExclusive
     \<and> (\<forall>k t. granted (flockLocks md) 7 0 k = Some t \<longrightarrow> k = (1, 1))"
proof -
  obtain md where md: "lock_reachable md"
    "flockLocks md = \<lparr>active_locks = [7 \<mapsto> [LockRange kExclusive 0 1 (client 1)]], pending_locks = Map.empty\<rparr>"
    using lock_reachable.step [OF reachable_empty_metadata lock_step.flock [OF first_flock]] by fastforce
  have h: "granted (flockLocks md) 7 0 (1, 1) = Some kExclusive"
    by (simp add: md(2) granted_def held_def keys_def okey_def client_def)
  have t: "table md kFlock = Some (flockLocks md)" by (simp add: table_def)
  show ?thesis
    using md(1) h exclusive_lock_excludes [OF md(1) t h] by blast
qed

text \<open>C13: In every reachable state, every client request, interrupt, session release and administrator's
  inode unlock runs to the end, without a failed assertion or an invalid iterator range, and leads to
  a well-formed state again; and so does the administrator's unlock of one owner, provided that the range
  is not reversed (an end of 0 stands for the end of the file).\<close>

theorem lock_handlers_total:
  assumes "lock_reachable md"
  shows "(\<exists>r md' a. fuse_flock md i ow oper = Some (r, md', a) \<and> wf_metadata md')
     \<and> (\<exists>r md' a. fuse_setlk md i start len ow oper = Some (r, md', a) \<and> wf_metadata md')
     \<and> (\<exists>md'. fuse_locks_interrupt md type o1 sid i rid = Some md' \<and> wf_metadata md')
     \<and> (\<exists>md' fa pa. locks_release md i sid = Some (md', fa, pa) \<and> wf_metadata md')
     \<and> (\<exists>st md'. manage_locks_unlock_inode md type i = Some (st, md') \<and> wf_metadata md')
     \<and> (s \<le> (if e = 0 then uint64_max else e) \<longrightarrow>
          (\<exists>st md'. manage_locks_unlock_single md type i ow s e = Some (st, md') \<and> wf_metadata md'))"
proof -
  have wf: "wf_metadata md" using assms by (rule lock_reachable_wf)
  have single: "\<exists>st md'. manage_locks_unlock_single md type i ow s e = Some (st, md') \<and> wf_metadata md'"
    if "s \<le> (if e = 0 then uint64_max else e)"
    using that by (intro manage_single_total [OF wf]) (auto split: if_splits)
  show ?thesis
    using fuse_flock_total [OF wf] fuse_setlk_total [OF wf] interrupt_total [OF wf]
      locks_release_total [OF wf] manage_inode_total [OF wf] single by (intro conjI impI)
qed

theorem lock_handlers_total_witness:
  "lock_reachable (empty_metadata {7})
   \<and> (\<exists>r md' a. fuse_setlk (empty_metadata {7}) 7 5 0 (client 1) 4 = Some (r, md', a) \<and> wf_metadata md')
   \<and> (\<exists>st md'. manage_locks_unlock_single (empty_metadata {7}) kAll 7 (client 1) 3 9 = Some (st, md') \<and> wf_metadata md')"
proof -
  note r = reachable_empty_metadata [of "{7}"]
  have "\<exists>st md'. manage_locks_unlock_single (empty_metadata {7}) kAll 7 (client 1) 3 9 = Some (st, md') \<and> wf_metadata md'"
    using lock_handlers_total [OF r, where s = 3 and e = 9 and type = kAll and i = 7 and ow = "client 1"] by simp
  then show ?thesis using r lock_handlers_total [OF r] by blast
qed

text \<open>The condition is needed: with three granted locks, the window of a reversed range is not valid.\<close>

lemma reversed_unlock_fails:
  defines "L \<equiv> \<lambda>s. LockRange kExclusive s (s + 1) (client 1)"
  shows "manage_locks_unlock_single ((empty_metadata {7})\<lparr>posixLocks := \<lparr>active_locks = [7 \<mapsto> [L 8, L 10, L 12]],
    pending_locks = Map.empty\<rparr>\<rparr>) kPosix 7 (client 1) 20 5 = None"
  by (simp add: L_def manage_locks_unlock_single_def kAll_def empty_metadata_def client_def op_eval)

text \<open>C10: Retrying the waiting requests after a change in a range refines the abstract rule: tried again are
  exactly the waiting requests that start in the range and the last one of those that start before it,
  in the order of the queue; they are granted one after the other exactly when the lock rule admits
  them, the refused ones keep waiting, and exactly the owners of the granted ones are reported for
  wake-up.\<close>

theorem retry_refines_grant_all:
  assumes "wf_file_locks fl" and "s \<le> e"
    and "q = entry (pending_locks fl) i" and "earlier = filter (\<lambda>c. lr_start c < s) q"
    and "cs = (if earlier = [] then [] else [last earlier]) @ filter (\<lambda>c. s \<le> lr_start c \<and> lr_start c \<le> e) q"
  shows "\<exists>h w a fl'. manageLockTryLockPending fl i s e = Some (fl', a) \<and> wf_file_locks fl'
     \<and> mset cs \<subseteq># waiting fl i \<and> grant_all (granted fl i) cs = (h, w, a)
     \<and> granted fl' = (granted fl)(i := h) \<and> waiting fl' = (waiting fl)(i := waiting fl i - mset cs + mset w)"
proof -
  have "cs = candidates (entry (pending_locks fl) i) s e" using assms(3-5) by (simp add: candidates_def)
  then show ?thesis using try_pending_spec [OF assms(1,2), of i] by simp
qed

text \<open>Requests of clients 2, 3 and 4 wait at bytes 0, 3 and 5; in the range from 4 to 9 those of clients 3 and 4
  are tried again.\<close>

theorem retry_refines_grant_all_witness:
  defines "L \<equiv> \<lambda>s n. LockRange kExclusive s (s + 1) (client n)"
  defines "fl \<equiv> \<lparr>active_locks = Map.empty, pending_locks = [7 \<mapsto> [L 0 2, L 3 3, L 5 4]]\<rparr>"
  shows "wf_file_locks fl \<and> (\<exists>h w fl'. manageLockTryLockPending fl 7 4 9 = Some (fl', [client 3, client 4])
     \<and> grant_all (granted fl 7) [L 3 3, L 5 4] = (h, w, [client 3, client 4]) \<and> granted fl' = (granted fl)(7 := h))"
proof -
  have wf: "wf_file_locks fl" by (simp add: fl_def L_def wf_file_locks_def wf_pending_def range_less_def)
  have "map_option snd (manageLockTryLockPending fl 7 4 9) = Some [client 3, client 4]"
    by (simp add: fl_def L_def op_eval client_def)
  moreover have "entry (pending_locks fl) 7 = [L 0 2, L 3 3, L 5 4]" by (simp add: fl_def entry_def)
  ultimately show ?thesis
    using wf retry_refines_grant_all [OF wf, of 4 9 _ 7 "[L 0 2, L 3 3]" "[L 3 3, L 5 4]"] by (fastforce simp: L_def)
qed

text \<open>C25: A byte range accepted by the lock request handlers is never empty and its end never wraps
  around in the 64-bit addition, whatever start and length the client sends: a length of 0 means up to
  the last offset, and otherwise the end is the exact sum.\<close>

theorem lock_range_bounds:
  assumes "lock_end start len = Some e"
  shows "unat start < e \<and> e \<le> uint64_max \<and> e = (if len = 0 then uint64_max else unat start + unat len)"
  by (rule lock_end_bound [OF assms])

theorem lock_range_bounds_witness:
  "lock_end 5 10 = Some 15 \<and> unat (5 :: 64 word) < 15 \<and> (15::nat) \<le> uint64_max"
proof -
  have l: "lock_end 5 10 = Some 15" by (simp add: lock_end_def)
  from l lock_range_bounds [OF l] show ?thesis by blast
qed

text \<open>C24: Asking for a conflict (F_GETLK) agrees with trying to lock without blocking (F_SETLK): in a
  reachable state both give the same status, which is OK exactly when the lock rule admits the lock.\<close>

theorem probe_agrees_with_lock:
  assumes "lock_reachable md" and "i \<in> nodes md" and "oper = kShared_op \<or> oper = kExclusive_op" and "s < e"
  shows "\<exists>st info' md' a. posixLockProbe md i s e ow oper info = Some (st, info')
     \<and> posixLockOperation pers md i s e ow oper True = Some (st, md', a)
     \<and> (st = STATUS_OK \<longleftrightarrow> lock_rule (LockRange (op_type oper) s e ow) (granted (posixLocks md) i))"
proof -
  have wf: "wf_file_locks (posixLocks md)" using lock_reachable_wf [OF assms(1)] by (simp add: wf_metadata_def)
  obtain info' where "posixLockProbe md i s e ow oper info =
     Some (if lock_rule (LockRange (op_type oper) s e ow) (granted (posixLocks md) i) then STATUS_OK else ERROR_WAITING, info')"
    using probe_status [OF wf assms(2-4)] by blast
  moreover obtain fl' a where "lockOperation md (posixLocks md) i s e ow oper True =
     Some (if lock_rule (LockRange (op_type oper) s e ow) (granted (posixLocks md) i) then STATUS_OK else ERROR_WAITING, fl', a)"
    using lockOperation_status [OF wf assms(2-4)] by blast
  ultimately show ?thesis by (simp add: posixLockOperation_def)
qed

theorem probe_agrees_with_lock_witness:
  "\<exists>st info' md' a. posixLockProbe (empty_metadata {7}) 7 3 9 (client 1) 4 \<lparr>l_type = 4, l_start = 3, l_len = 6\<rparr> = Some (st, info')
     \<and> posixLockOperation kMaster (empty_metadata {7}) 7 3 9 (client 1) 4 True = Some (st, md', a)"
  using probe_agrees_with_lock [OF reachable_empty_metadata, of 7 "{7}" 4 3 9 "client 1" "\<lparr>l_type = 4, l_start = 3, l_len = 6\<rparr>" kMaster]
  by (simp add: empty_metadata_def op_codes) blast

text \<open>C26: When all locks of an inode are removed and no owner waits twice, no waiting request is
  forgotten: every request still waiting afterwards is in conflict with a lock granted in that step.\<close>

theorem unlock_inode_forgets_nobody:
  assumes "wf_metadata md" and "table md type = Some fl"
    and "distinct (map rkey (entry (pending_locks fl) i))"
    and "\<forall>c \<in> set (entry (pending_locks fl) i). lr_start c \<le> (if type = kFlock then 1 else uint64_max)"
  shows "\<exists>md' fl' a. locksUnlockInode pers md type i = Some (STATUS_OK, md', a) \<and> table md' type = Some fl'
     \<and> (\<forall>c. c \<in># waiting fl' i \<longrightarrow> \<not> lock_rule c (granted fl' i))"
proof -
  have wf: "wf_file_locks fl" using table_wf [OF assms(1,2)] .
  let ?e = "if type = kFlock then 1 else uint64_max"
  have "\<exists>fl' a. manageLockTryLockPending (unlock_inode fl i) i 0 ?e = Some (fl', a) \<and> wf_file_locks fl'
     \<and> (\<forall>c. c \<in># waiting fl' i \<longrightarrow> \<not> lock_rule c (granted fl' i))"
    using unlock_inode_spec [OF wf] assms(3,4) by (intro try_pending_all) (simp_all add: unlock_inode_def)
  then obtain fl' a where r: "manageLockTryLockPending (unlock_inode fl i) i 0 ?e = Some (fl', a)"
    "\<forall>c. c \<in># waiting fl' i \<longrightarrow> \<not> lock_rule c (granted fl' i)" by blast
  let ?md' = "log_or_bump pers (FLCKINODE type i) (set_table md type fl')"
  have "locksUnlockInode pers md type i = Some (STATUS_OK, ?md', a)"
    unfolding locksUnlockInode_def assms(2) option.case r(1) by simp
  moreover have "table ?md' type = Some fl'"
    using assms(2) by (auto simp: table_def set_table_def log_or_bump_def split: if_splits)
  ultimately show ?thesis using r(2) by blast
qed

theorem unlock_inode_forgets_nobody_witness:
  defines "md \<equiv> (empty_metadata {7})\<lparr>flockLocks := \<lparr>active_locks = [7 \<mapsto> [LockRange kExclusive 0 1 (client 1)]],
     pending_locks = [7 \<mapsto> [LockRange kExclusive 0 1 (client 3), LockRange kExclusive 0 1 (client 2)]]\<rparr>\<rparr>"
  shows "\<exists>md' fl' a. locksUnlockInode kMaster md kFlock 7 = Some (STATUS_OK, md', a) \<and> table md' kFlock = Some fl'
     \<and> (\<forall>c. c \<in># waiting fl' 7 \<longrightarrow> \<not> lock_rule c (granted fl' 7))"
proof -
  have "wf_metadata md"
    by (simp add: md_def wf_metadata_def empty_metadata_def wf_FileLocks)
       (simp add: wf_file_locks_def wf_pending_def wf_ranges_def wf_range_def sorted_owners_def range_less_def)
  moreover have "table md kFlock = Some (flockLocks md)" by (simp add: table_def)
  ultimately show ?thesis
    by (rule unlock_inode_forgets_nobody) (simp_all add: md_def client_def okey_def)
qed

end
