(* ===== verification/LockReplay.thy ===== *)
theory LockReplay
  imports LockOps
begin

text \<open>
  Replay of the lock entries of the changelog by a shadow master or by the metadata restorer. The
  log does not carry request and message identifiers, so the replica is compared with the master
  up to those (the function \<open>bare\<close> clears them). All lock operations commute with it.
\<close>

section \<open>Ranges\<close>

lemma bare_lock_fields [simp]:
  "lr_start (bare_lock r) = lr_start r" "lr_end (bare_lock r) = lr_end r"
  "lr_type (bare_lock r) = lr_type r" "lr_owners (bare_lock r) = map bare (lr_owners r)"
  "unlocking (bare_lock r) = unlocking r" "shared (bare_lock r) = shared r"
  "overlaps (bare_lock r) (bare_lock s) = overlaps r s" "sticks (bare_lock r) (bare_lock s) = sticks r s"
  by (simp_all add: bare_lock_def unlocking_def shared_def overlaps_def sticks_def)

lemma bare_lock_updates [simp]:
  "(bare_lock r)\<lparr>lr_start := s\<rparr> = bare_lock (r\<lparr>lr_start := s\<rparr>)"
  "(bare_lock r)\<lparr>lr_end := e\<rparr> = bare_lock (r\<lparr>lr_end := e\<rparr>)"
  "(bare_lock r)\<lparr>lr_type := t\<rparr> = bare_lock (r\<lparr>lr_type := t\<rparr>)"
  "markUnlocking (bare_lock r) = bare_lock (markUnlocking r)"
  by (simp_all add: bare_lock_def markUnlocking_def)

lemma bare_LockRange [simp]: "bare_lock (LockRange t s e x) = LockRange t s e (bare x)"
  by (simp add: bare_lock_def LockRange_def)

lemma okey_comp_bare [simp]: "okey \<circ> bare = okey"
  by (simp add: fun_eq_iff)

lemma partition_point_map [simp]: "partition_point P (map f xs) = partition_point (P \<circ> f) xs"
  by (simp add: partition_point_def takeWhile_map)

lemma erase_at_map: "erase_at i (map f xs) = map f (erase_at i xs)"
  by (simp add: erase_at_def take_map drop_map)

lemma insert_at_map: "insert_at i (f x) (map f xs) = map f (insert_at i x xs)"
  by (simp add: insert_at_def take_map drop_map)

lemma merge_by_bare: "merge_by okey (map bare xs) (map bare ys) = map bare (merge_by okey xs ys)"
  by (induction okey xs ys rule: merge_by.induct) auto

lemma unique_by_bare: "unique_by okey (map bare xs) = map bare (unique_by okey xs)"
  by (induction okey xs rule: unique_by.induct) auto

lemma the_owner_bare: "the_owner (bare_lock r) = map_option bare (the_owner r)"
  by (cases "lr_owners r") (auto simp: the_owner_def)

lemma eraseOwner_bare: "eraseOwner (bare_lock r) (bare c) = bare_lock (eraseOwner r c)"
  by (auto simp: eraseOwner_def Let_def comp_def erase_at_map bare_lock_def)

lemma addOwners_bare: "addOwners (bare_lock r) (map bare os) = bare_lock (addOwners r os)"
  by (simp add: addOwners_def merge_by_bare unique_by_bare bare_lock_def)

lemma collides_bare [simp]: "collides (bare_lock r) (bare_lock s) = collides r s"
  by (simp add: collides_def)

lemma find_map: "find P (map f xs) = map_option f (find (P \<circ> f) xs)"
  by (induction xs) auto

lemma findCollision_bare:
  "findCollision (map bare_lock d) (bare_lock r) = map_option (map_option bare_lock) (findCollision d r)"
  by (simp add: findCollision_def Let_def scan_start_def scan_end_def comp_def take_map drop_map find_map)

lemma fits_bare [simp]: "fits (map bare_lock d) (bare_lock r) = fits d r"
  by (cases "findCollision d r") (auto simp: fits_def findCollision_bare)

lemma take_over_bare:
  "take_over (bare_lock r) same (bare_lock x) = map_option bare_lock (take_over r same x)"
  by (simp add: take_over_def the_owner_bare addOwners_bare option.map_comp comp_def eraseOwner_bare)

lemma owners_eq_bare [simp]: "owners_eq (map bare xs) (map bare ys) = owners_eq xs ys"
  by simp

lemma insert_loop_bare:
  "insert_loop (map bare_lock dn) (map bare_lock rest) (bare_lock r) =
     map_option (\<lambda>(a, b, c). (map bare_lock a, map bare_lock b, bare_lock c)) (insert_loop dn rest r)"
proof (induction dn rest r rule: insert_loop.induct)
  case (2 dn x rs r)
  note step = insert_loop.simps(2) [of dn x rs r]
    insert_loop.simps(2) [of "map bare_lock dn" "bare_lock x" "map bare_lock rs" "bare_lock r"]
  show ?case
    using "2.IH"
    by (simp add: step Let_def take_over_bare del: insert_loop.simps owners_eq_okey split: option.split)
qed simp

lemma insert_range_bare:
  "insert_range (map bare_lock d) (bare_lock r) = map_option (map bare_lock) (insert_range d r)"
proof -
  have "filter (\<lambda>x. \<not> unlocking x) (map bare_lock xs) = map bare_lock (filter (\<lambda>x. \<not> unlocking x) xs)" for xs
    by (simp add: filter_map comp_def)
  then show ?thesis
    using insert_loop_bare [of "[]" "drop (scan_start d (lr_start r)) (take (scan_end d (lr_end r)) d)" r]
    by (auto simp: insert_range_def Let_def scan_start_def scan_end_def comp_def take_map drop_map
        split: option.splits)
qed

section \<open>Tables\<close>

definition bare_map :: "(nat \<rightharpoonup> lock_ranges) \<Rightarrow> nat \<rightharpoonup> lock_ranges" where
  "bare_map m i = map_option (map bare_lock) (m i)"

definition bare_table :: "file_locks \<Rightarrow> file_locks" where
  "bare_table fl = \<lparr>active_locks = bare_map (active_locks fl), pending_locks = bare_map (pending_locks fl)\<rparr>"

lemma bare_map_upd: "bare_map (m(i := x)) = (bare_map m)(i := map_option (map bare_lock) x)"
  by (simp add: bare_map_def fun_eq_iff)

lemma entry_bare [simp]: "entry (bare_map m) i = map bare_lock (entry m i)"
  by (simp add: entry_def bare_map_def split: option.split)

lemma bare_table_fields [simp]:
  "active_locks (bare_table fl) = bare_map (active_locks fl)"
  "pending_locks (bare_table fl) = bare_map (pending_locks fl)"
  by (simp_all add: bare_table_def)

lemma bare_table_updates:
  "(bare_table fl)\<lparr>active_locks := (bare_map (active_locks fl))(i := map_option (map bare_lock) x)\<rparr>
     = bare_table (fl\<lparr>active_locks := (active_locks fl)(i := x)\<rparr>)"
  "(bare_table fl)\<lparr>pending_locks := (bare_map (pending_locks fl))(i := map_option (map bare_lock) x)\<rparr>
     = bare_table (fl\<lparr>pending_locks := (pending_locks fl)(i := x)\<rparr>)"
  by (simp_all add: bare_table_def bare_map_upd)

lemma range_less_bare [simp]: "range_less (bare_lock a) (bare_lock b) = range_less a b"
  by (simp add: range_less_def)

lemma queue_insert_bare: "queue_insert (bare_lock l) (map bare_lock q) = map bare_lock (queue_insert l q)"
  by (simp add: queue_insert_def comp_def insert_at_map)

lemma enqueue_bare: "enqueue (bare_table fl) i (bare_lock l) = bare_table (enqueue fl i l)"
  using bare_table_updates(2) [of fl i "Some (queue_insert l (entry (pending_locks fl) i))"]
  by (simp add: enqueue_def queue_insert_bare)

lemma apply_lock_bare:
  "apply_lock (bare_table fl) i (bare_lock l) nb =
     map_option (\<lambda>(ok, fl'). (ok, bare_table fl')) (apply_lock fl i l nb)"
proof -
  define d where "d = entry (active_locks fl) i"
  define fl' where "fl' = fl\<lparr>active_locks := (active_locks fl)(i \<mapsto> d)\<rparr>"
  have bl: "bare_table fl' = (bare_table fl)\<lparr>active_locks := (bare_map (active_locks fl))(i \<mapsto> map bare_lock d)\<rparr>"
    using bare_table_updates(1) [of fl i "Some d"] by (simp add: fl'_def)
  note upd = bare_table_updates(1) [of fl' i None, simplified] bare_table_updates(1) [of fl' i "Some d'" for d', simplified]
  show ?thesis
    unfolding apply_lock_def Let_def bare_table_fields entry_bare d_def [symmetric] fl'_def [symmetric]
      bl [symmetric] fits_bare insert_range_bare bare_lock_fields enqueue_bare
    by (auto simp: upd split: option.split bool.split)
qed

lemma gatherCandidates_bare:
  "gatherCandidates (bare_table fl) i s e =
     map_option (\<lambda>(cs, fl'). (map bare_lock cs, bare_table fl')) (gatherCandidates fl i s e)"
proof (cases "pending_locks fl i")
  case (Some q)
  have "gatherCandidates (bare_table fl) i s e =
      (let first = partition_point (\<lambda>lock. lr_start lock < s) q;
           last' = partition_point (\<lambda>lock. \<not> e < lr_start lock) q;
           first' = (if first \<noteq> 0 then first - 1 else first)
       in if last' < first' then None
          else Some (map bare_lock (drop first' (take last' q)), (bare_table fl)\<lparr>pending_locks :=
             (bare_map (pending_locks fl))(i \<mapsto> map bare_lock (take first' q @ drop last' q))\<rparr>))"
    using Some
    by (simp add: gatherCandidates_def bare_map_def comp_def Let_def take_map drop_map
        del: take_partition_point drop_partition_point)
  also have "\<dots> = map_option (\<lambda>(cs, fl'). (map bare_lock cs, bare_table fl')) (gatherCandidates fl i s e)"
    unfolding gatherCandidates_def Some option.case Let_def
    using bare_table_updates(2) [of fl i "Some (take a q @ drop b q)" for a b]
    by (simp del: take_partition_point drop_partition_point)
  finally show ?thesis .
qed (simp add: gatherCandidates_def bare_map_def)

lemma apply_candidates_bare:
  "apply_candidates (bare_table fl) i (map bare_lock cs) =
     map_option (\<lambda>(fl', a). (bare_table fl', map bare a)) (apply_candidates fl i cs)"
proof (induction cs arbitrary: fl)
  case (Cons c cs)
  then show ?case by (auto simp: apply_lock_bare split: option.split)
qed simp

lemma try_pending_bare:
  "manageLockTryLockPending (bare_table fl) i s e =
     map_option (\<lambda>(fl', a). (bare_table fl', map bare a)) (manageLockTryLockPending fl i s e)"
  by (auto simp: manageLockTryLockPending_def gatherCandidates_bare apply_candidates_bare split: option.split)

lemma owner_pred_bare:
  "(\<And>x. P (bare x) = P x) \<Longrightarrow> owner_pred P (bare_lock l) = owner_pred P l"
  by (cases "the_owner l") (auto simp: owner_pred_def the_owner_bare)

lemma remove_if_map:
  "(\<And>x. P (f x) = P x) \<Longrightarrow> remove_if P (map f xs) = map_option (map f) (remove_if P xs)"
  by (induction xs) (auto split: option.split)

lemma removePending_bare:
  assumes "\<And>x. P (bare x) = P x"
  shows "removePending (bare_table fl) i (owner_pred P) = map_option bare_table (removePending fl i (owner_pred P))"
proof (cases "pending_locks fl i")
  case (Some q)
  have upd: "(bare_table fl)\<lparr>pending_locks := (bare_map (pending_locks fl))(i := if map bare_lock q' = [] then None else Some (map bare_lock q'))\<rparr>
      = bare_table (fl\<lparr>pending_locks := (pending_locks fl)(i := if q' = [] then None else Some q')\<rparr>)" for q'
    using bare_table_updates(2) [of fl i "if q' = [] then None else Some q'"] by (cases "q' = []") simp_all
  show ?thesis
    using Some remove_if_map [of "owner_pred P" bare_lock q, OF owner_pred_bare [of P, OF assms]]
    by (auto simp: removePending_def bare_map_def [of _ i] upd simp del: list.map_disc_iff map_is_Nil_conv split: option.split)
qed (simp add: removePending_def bare_map_def)

lemma drop_owners_bare:
  assumes "\<And>x. P (bare x) = P x"
  shows "drop_owners P (map bare_lock ls) acc = (map bare_lock (fst (drop_owners P ls acc)), snd (drop_owners P ls acc))"
proof (induction ls arbitrary: acc)
  case (Cons l ls)
  have "filter (\<lambda>x. \<not> P x) (map bare (lr_owners l)) = map bare (filter (\<lambda>x. \<not> P x) (lr_owners l))"
    by (simp add: filter_map comp_def assms)
  moreover have "(bare_lock l)\<lparr>lr_owners := map bare xs\<rparr> = bare_lock (l\<lparr>lr_owners := xs\<rparr>)" for xs
    by (simp add: bare_lock_def)
  ultimately show ?case
    using Cons.IH by (cases acc) (simp add: Let_def split_beta)
qed simp

lemma unlock_owners_bare:
  assumes "\<And>x. P (bare x) = P x"
  shows "unlock_owners (bare_table fl) i P = (fst (unlock_owners fl i P), bare_table (snd (unlock_owners fl i P)))"
proof (cases "active_locks fl i")
  case (Some ls)
  then show ?thesis
    using drop_owners_bare [of P ls "(uint64_max, 0)", OF assms]
      bare_table_updates(1) [of fl i "Some (fst (drop_owners P ls (uint64_max, 0)))"]
    by (simp add: unlock_owners_def bare_map_def [of _ i] split_beta)
qed (simp add: unlock_owners_def bare_map_def)

lemma unlock_inode_bare: "unlock_inode (bare_table fl) i = bare_table (unlock_inode fl i)"
  using bare_table_updates(1) [of fl i None] by (simp add: unlock_inode_def)

section \<open>Operations and replay\<close>

lemma lock_switch_bare:
  "lock_switch (bare_table fl) i s e (bare ow) oper nb =
     map_option (\<lambda>(r, s', e'). (map_option (\<lambda>(ok, fl'). (ok, bare_table fl')) r, s', e'))
       (lock_switch fl i s e ow oper nb)"
proof -
  have P: "owner_pred (\<lambda>x. ow_sessionid x = ow_sessionid (bare ow) \<and> ow_owner x = ow_owner (bare ow))
      = owner_pred (\<lambda>x. ow_sessionid x = ow_sessionid ow \<and> ow_owner x = ow_owner ow)"
    by (simp add: bare_def)
  have rp: "removePending (bare_table fl) i (owner_pred (\<lambda>x. ow_sessionid x = ow_sessionid ow \<and> ow_owner x = ow_owner ow))
      = map_option bare_table (removePending fl i (owner_pred (\<lambda>x. ow_sessionid x = ow_sessionid ow \<and> ow_owner x = ow_owner ow)))"
    by (rule removePending_bare) (simp add: bare_def)
  note al = apply_lock_bare [where l = "LockRange t s e ow" for t s e, unfolded bare_LockRange]
  show ?thesis
    unfolding lock_switch_def P rp sharedLock_def exclusiveLock_def unlock_def
    by (auto simp: al split: option.split)
qed

lemma lockOperation_bare:
  assumes "nodes md' = nodes md"
  shows "lockOperation md' (bare_table fl) i s e (bare ow) oper nb =
     map_option (\<lambda>(st, fl', a). (st, bare_table fl', map bare a)) (lockOperation md fl i s e ow oper nb)"
proof -
  have chk: "checkLockPermissions md' i oper = checkLockPermissions md i oper"
    using assms by (simp add: checkLockPermissions_def getNodeForOperation_def)
  show ?thesis
    unfolding lockOperation_def chk lock_switch_bare
    by (auto simp: Let_def try_pending_bare split: option.split)
qed

lemma apply_lock_granted:
  "apply_lock fl i l nb = Some (True, fl') \<Longrightarrow> apply_lock fl i l False = Some (True, fl')"
  by (auto simp: apply_lock_def Let_def split: option.splits bool.splits)

lemma lock_switch_granted:
  "lock_switch fl i s e ow oper nb = Some (Some (True, fl'), s', e') \<Longrightarrow>
     lock_switch fl i s e ow oper False = Some (Some (True, fl'), s', e')"
  by (auto simp: lock_switch_def sharedLock_def exclusiveLock_def apply_lock_granted split: if_splits)

lemma lockOperation_granted:
  assumes "lockOperation md fl i s e ow oper nb = Some (STATUS_OK, fl', a)"
  shows "lockOperation md fl i s e ow oper False = Some (STATUS_OK, fl', a)"
proof -
  have ok: "checkLockPermissions md i oper = STATUS_OK"
    using assms by (auto simp: lockOperation_def Let_def split: if_splits)
  with assms obtain fl1 s' e' where sw: "lock_switch fl i s e ow oper nb = Some (Some (True, fl1), s', e')"
    by (auto simp: lockOperation_def Let_def split: option.splits prod.splits if_splits)
  with assms ok lock_switch_granted [OF sw] show ?thesis by (simp add: lockOperation_def Let_def)
qed

definition same_locks :: "metadata \<Rightarrow> metadata \<Rightarrow> bool" where
  "same_locks md rep \<longleftrightarrow> nodes rep = nodes md \<and> metadataVersion rep = metadataVersion md
     \<and> bare_table (flockLocks rep) = bare_table (flockLocks md)
     \<and> bare_table (posixLocks rep) = bare_table (posixLocks md)"

lemma granted_bare: "granted (bare_table fl) = granted fl"
proof -
  have "held (map bare_lock d) = held d" for d
  proof (intro ext)
    fix p k
    have "keys (bare_lock r) = keys r" "covers (bare_lock r) p = covers r p" for r
      by (simp_all add: keys_def covers_def image_image)
    then show "held (map bare_lock d) p k = held d p k"
      by (simp add: held_def find_map comp_def option.map_comp)
  qed
  then show ?thesis by (simp add: granted_def fun_eq_iff)
qed

lemma same_locks_granted:
  assumes "same_locks md rep"
  shows "granted (flockLocks rep) = granted (flockLocks md)" "granted (posixLocks rep) = granted (posixLocks md)"
  using assms granted_bare unfolding same_locks_def by metis+

lemma lockOperation_replica:
  assumes "lockOperation md fl i s e ow oper nb = Some (st, fl', a)" "st = STATUS_OK \<or> st = ERROR_WAITING \<and> \<not> nb"
    and "nodes rep = nodes md" "bare_table fr = bare_table fl"
  shows "\<exists>fr' ar. lockOperation rep fr i s e (replay_owner (ow_owner ow) (ow_sessionid ow)) oper False
       = Some (st, fr', ar) \<and> bare_table fr' = bare_table fl'"
proof -
  let ?x = "replay_owner (ow_owner ow) (ow_sessionid ow)"
  have x: "bare ?x = ?x" "bare ow = ?x" by (cases ow; simp add: bare_def replay_owner_def)+
  have m: "lockOperation md fl i s e ow oper False = Some (st, fl', a)"
    using assms(1,2) lockOperation_granted by auto
  have "map_option (\<lambda>(st, fl', a). (st, bare_table fl', map bare a)) (lockOperation rep fr i s e ?x oper False)
      = map_option (\<lambda>(st, fl', a). (st, bare_table fl', map bare a)) (lockOperation md fl i s e ow oper False)"
    using lockOperation_bare [of md md fl i s e ow oper False] lockOperation_bare [OF assms(3) [symmetric], of fr i s e ?x oper False]
      assms(4) x by simp
  with m show ?thesis by auto
qed

lemma bare_table_eqI:
  "same_locks md rep \<Longrightarrow> table md type = Some fl \<Longrightarrow> \<exists>fr. table rep type = Some fr \<and> bare_table fr = bare_table fl"
  by (auto simp: same_locks_def table_def split: if_splits)

lemma same_locks_update:
  assumes "same_locks md rep" "bare_table fr = bare_table fl"
  shows "same_locks (log_or_bump p e (set_table md type fl)) (log_or_bump p' e' (set_table rep type fr))"
  using assms by (simp add: same_locks_def log_or_bump_def set_table_def)

lemma locksUnlockInode_replica:
  assumes "same_locks md rep" "locksUnlockInode kMaster md type i = Some (STATUS_OK, md', a)"
  shows "\<exists>rep' ar. locksUnlockInode kShadow rep type i = Some (STATUS_OK, rep', ar) \<and> same_locks md' rep'"
proof -
  obtain fl where fl: "table md type = Some fl" using assms(2) by (auto simp: locksUnlockInode_def split: option.splits)
  obtain fr where fr: "table rep type = Some fr" "bare_table fr = bare_table fl" using bare_table_eqI [OF assms(1) fl] by blast
  let ?e = "if type = kFlock then 1 else uint64_max"
  obtain fl' where m: "manageLockTryLockPending (unlock_inode fl i) i 0 ?e = Some (fl', a)"
    "md' = log_or_bump kMaster (FLCKINODE type i) (set_table md type fl')"
    using assms(2) fl by (auto simp: locksUnlockInode_def split: option.splits)
  have "bare_table (unlock_inode fr i) = bare_table (unlock_inode fl i)"
    using unlock_inode_bare [of fr i] unlock_inode_bare [of fl i] fr(2) by simp
  then have "map_option (\<lambda>(fl', a). (bare_table fl', map bare a)) (manageLockTryLockPending (unlock_inode fr i) i 0 ?e)
     = map_option (\<lambda>(fl', a). (bare_table fl', map bare a)) (manageLockTryLockPending (unlock_inode fl i) i 0 ?e)"
    unfolding try_pending_bare [symmetric] by simp
  then obtain fr' ar where r: "manageLockTryLockPending (unlock_inode fr i) i 0 ?e = Some (fr', ar)" "bare_table fr' = bare_table fl'"
    using m(1) by auto
  then show ?thesis using fr(1) m(2) same_locks_update [OF assms(1) r(2)] by (simp add: locksUnlockInode_def)
qed


lemma locksClearSession_replica:
  assumes "same_locks md rep" "locksClearSession kMaster md type i sid = Some (STATUS_OK, md', a)"
  shows "\<exists>rep' ar. locksClearSession kShadow rep type i sid = Some (STATUS_OK, rep', ar) \<and> same_locks md' rep'"
proof -
  let ?P = "\<lambda>x. ow_sessionid x = sid"
  have P: "?P (bare x) = ?P x" for x by (simp add: bare_def)
  obtain fl where fl: "table md type = Some fl" using assms(2) by (auto simp: locksClearSession_def split: option.splits)
  obtain fr where fr: "table rep type = Some fr" "bare_table fr = bare_table fl" using bare_table_eqI [OF assms(1) fl] by blast
  obtain fl1 where fl1: "removePending fl i (owner_pred ?P) = Some fl1"
    using assms(2) fl by (auto simp: locksClearSession_def split: option.splits)
  have "map_option bare_table (removePending fr i (owner_pred ?P)) = map_option bare_table (removePending fl i (owner_pred ?P))"
    unfolding removePending_bare [of ?P, OF P, symmetric] fr(2) ..
  then obtain fr1 where fr1: "removePending fr i (owner_pred ?P) = Some fr1" "bare_table fr1 = bare_table fl1"
    using fl1 by auto
  obtain rg fl2 where fl2: "unlock_owners fl1 i ?P = (rg, fl2)" by fastforce
  obtain rg' fr2 where fr2: "unlock_owners fr1 i ?P = (rg', fr2)" by fastforce
  have 2: "rg' = rg" "bare_table fr2 = bare_table fl2"
    using unlock_owners_bare [of ?P fl1 i, OF P] unlock_owners_bare [of ?P fr1 i, OF P] fl2 fr2 fr1(2) by simp_all
  define g where "g fl = (if fst rg < snd rg then gatherCandidates fl i (fst rg) (snd rg) else Some ([], fl))" for fl
  have gb: "g (bare_table fl) = map_option (\<lambda>(cs, fl'). (map bare_lock cs, bare_table fl')) (g fl)" for fl
    by (simp add: g_def gatherCandidates_bare)
  obtain q fl3 where fl3: "g fl2 = Some (q, fl3)" "md' = log_or_bump kMaster (CLRLCK type i sid) (set_table md type fl3)"
    using assms(2) fl fl1 fl2 by (auto simp: locksClearSession_def g_def split: option.splits)
  have "map_option (\<lambda>(cs, fl'). (map bare_lock cs, bare_table fl')) (g fr2)
      = map_option (\<lambda>(cs, fl'). (map bare_lock cs, bare_table fl')) (g fl2)"
    unfolding gb [symmetric] 2(2) ..
  then obtain q' fr3 where fr3: "g fr2 = Some (q', fr3)" "bare_table fr3 = bare_table fl3"
    using fl3(1) by auto
  have "locksClearSession kShadow rep type i sid =
      Some (STATUS_OK, log_or_bump kShadow (CLRLCK type i sid) (set_table rep type fr3), concat (map lr_owners q'))"
    using fr(1) fr1(1) fr2 2(1) fr3(1) by (simp add: locksClearSession_def g_def)
  with fl3(2) same_locks_update [OF assms(1) fr3(2)] show ?thesis by blast
qed

text \<open>Replay of a sequence of entries; an entry with a status other than OK stops it.\<close>

fun restore_all :: "metadata \<Rightarrow> lock_entry list \<Rightarrow> metadata option" where
  "restore_all md [] = Some md"
| "restore_all md (e # es) =
     (case restore_lock_entry md e of
        Some (STATUS_OK, md') \<Rightarrow> restore_all md' es
      | _ \<Rightarrow> None)"

lemma restore_all_append:
  "restore_all md es = Some md1 \<Longrightarrow> restore_all md (es @ es') = restore_all md1 es'"
  by (induction es arbitrary: md) (auto split: option.splits prod.splits status.splits)

text \<open>
  What the master has appended to its changelog since a state: consecutively numbered entries, whose
  replay takes every replica of the old state to a replica of the new one.
\<close>

definition replayable :: "metadata \<Rightarrow> metadata \<Rightarrow> bool" where
  "replayable md md' \<longleftrightarrow> (\<exists>new. changelog md' = changelog md @ new
     \<and> metadataVersion md \<le> metadataVersion md' \<and> map fst new = [metadataVersion md..<metadataVersion md']
     \<and> (\<forall>rep. same_locks md rep \<longrightarrow> (\<exists>rep'. restore_all rep (map snd new) = Some rep' \<and> same_locks md' rep')))"

lemma replayable_refl: "replayable md md"
  by (auto simp: replayable_def)

lemma replayable_trans [trans]:
  assumes "replayable md md1" "replayable md1 md'"
  shows "replayable md md'"
proof -
  obtain n1 where n1: "changelog md1 = changelog md @ n1" "metadataVersion md \<le> metadataVersion md1"
      "map fst n1 = [metadataVersion md..<metadataVersion md1]"
      "\<And>rep. same_locks md rep \<Longrightarrow> \<exists>rep'. restore_all rep (map snd n1) = Some rep' \<and> same_locks md1 rep'"
    using assms(1) unfolding replayable_def by blast
  obtain n2 where n2: "changelog md' = changelog md1 @ n2" "metadataVersion md1 \<le> metadataVersion md'"
      "map fst n2 = [metadataVersion md1..<metadataVersion md']"
      "\<And>rep. same_locks md1 rep \<Longrightarrow> \<exists>rep'. restore_all rep (map snd n2) = Some rep' \<and> same_locks md' rep'"
    using assms(2) unfolding replayable_def by blast
  have "\<exists>rep'. restore_all rep (map snd (n1 @ n2)) = Some rep' \<and> same_locks md' rep'" if "same_locks md rep" for rep
    using n1(4) [OF that] n2(4) restore_all_append by fastforce
  moreover have "[metadataVersion md..<metadataVersion md1] @ [metadataVersion md1..<metadataVersion md']
      = [metadataVersion md..<metadataVersion md']"
    using upt_add_eq_append [OF n1(2), of "metadataVersion md' - metadataVersion md1"] n2(2) by simp
  ultimately show ?thesis
    unfolding replayable_def using n1(1-3) n2(1-3) by (intro exI [of _ "n1 @ n2"]) simp
qed

lemma replayable_entry:
  assumes "changelog md' = changelog md @ [(metadataVersion md, e)]" "metadataVersion md' = metadataVersion md + 1"
    and "\<And>rep. same_locks md rep \<Longrightarrow> \<exists>rep'. restore_lock_entry rep e = Some (STATUS_OK, rep') \<and> same_locks md' rep'"
  shows "replayable md md'"
proof -
  have "\<exists>rep'. restore_all rep [e] = Some rep' \<and> same_locks md' rep'" if "same_locks md rep" for rep
    using assms(3) [OF that] by auto
  then show ?thesis unfolding replayable_def using assms(1,2) by (intro exI [of _ "[(metadataVersion md, e)]"]) simp
qed

lemma flock_replayable:
  assumes "flockOperation kMaster md i ow oper nb = Some (st, md', a)" "st = STATUS_OK \<or> st = ERROR_WAITING \<and> \<not> nb"
  shows "replayable md md'"
proof -
  obtain fl' where m: "lockOperation md (flockLocks md) i 0 1 ow oper nb = Some (st, fl', a)"
    "md' = log_or_bump kMaster (FLCK kFlock i 0 1 (ow_owner ow) (ow_sessionid ow) oper) (md\<lparr>flockLocks := fl'\<rparr>)"
    using assms(1) by (auto simp: flockOperation_def)
  show ?thesis
  proof (rule replayable_entry [where e = "FLCK kFlock i 0 1 (ow_owner ow) (ow_sessionid ow) oper"])
    fix rep
    assume s: "same_locks md rep"
    then obtain fr' ar where r: "lockOperation rep (flockLocks rep) i 0 1 (replay_owner (ow_owner ow) (ow_sessionid ow)) oper False
        = Some (st, fr', ar)" "bare_table fr' = bare_table fl'"
      using lockOperation_replica [OF m(1) assms(2), of rep "flockLocks rep"] by (auto simp: same_locks_def)
    have "st \<noteq> ERROR_WAITING \<Longrightarrow> st = STATUS_OK" using assms(2) by auto
    then show "\<exists>rep'. restore_lock_entry rep (FLCK kFlock i 0 1 (ow_owner ow) (ow_sessionid ow) oper) = Some (STATUS_OK, rep')
        \<and> same_locks md' rep'"
      using r m(2) s by (auto simp: do_lock_op_def flockOperation_def same_locks_def log_or_bump_def)
  qed (simp_all add: m(2) log_or_bump_def)
qed

lemma posix_replayable:
  assumes "posixLockOperation kMaster md i s e ow oper nb = Some (st, md', a)" "st = STATUS_OK \<or> st = ERROR_WAITING \<and> \<not> nb"
  shows "replayable md md'"
proof -
  obtain fl' where m: "lockOperation md (posixLocks md) i s e ow oper nb = Some (st, fl', a)"
    "md' = log_or_bump kMaster (FLCK kPosix i s e (ow_owner ow) (ow_sessionid ow) oper) (md\<lparr>posixLocks := fl'\<rparr>)"
    using assms(1) by (auto simp: posixLockOperation_def)
  show ?thesis
  proof (rule replayable_entry [where e = "FLCK kPosix i s e (ow_owner ow) (ow_sessionid ow) oper"])
    fix rep
    assume sl: "same_locks md rep"
    then obtain fr' ar where r: "lockOperation rep (posixLocks rep) i s e (replay_owner (ow_owner ow) (ow_sessionid ow)) oper False
        = Some (st, fr', ar)" "bare_table fr' = bare_table fl'"
      using lockOperation_replica [OF m(1) assms(2), of rep "posixLocks rep"] by (auto simp: same_locks_def)
    have "st \<noteq> ERROR_WAITING \<Longrightarrow> st = STATUS_OK" using assms(2) by auto
    then show "\<exists>rep'. restore_lock_entry rep (FLCK kPosix i s e (ow_owner ow) (ow_sessionid ow) oper) = Some (STATUS_OK, rep')
        \<and> same_locks md' rep'"
      using r m(2) sl by (auto simp: do_lock_op_def posixLockOperation_def same_locks_def log_or_bump_def op_codes)
  qed (simp_all add: m(2) log_or_bump_def)
qed

lemma log_set_table [simp]:
  "changelog (log_or_bump kMaster e (set_table md type fl)) = changelog md @ [(metadataVersion md, e)]"
  "metadataVersion (log_or_bump kMaster e (set_table md type fl)) = metadataVersion md + 1"
  by (simp_all add: log_or_bump_def set_table_def)

lemma clear_session_replayable:
  assumes "locksClearSession kMaster md type i sid = Some (st, md', a)" "table md type \<noteq> None"
  shows "st = STATUS_OK" "replayable md md'"
proof -
  show st: "st = STATUS_OK"
    using assms by (auto simp: locksClearSession_def split: option.splits prod.splits)
  show "replayable md md'"
  proof (rule replayable_entry [where e = "CLRLCK type i sid"])
    show "\<exists>rep'. restore_lock_entry rep (CLRLCK type i sid) = Some (STATUS_OK, rep') \<and> same_locks md' rep'" if "same_locks md rep" for rep
      using locksClearSession_replica [OF that assms(1) [unfolded st]] by (auto simp: do_lock_clear_session_def)
  qed (use assms in \<open>auto simp: locksClearSession_def split: option.splits prod.splits\<close>)
qed

lemma unlock_inode_replayable:
  assumes "locksUnlockInode kMaster md type i = Some (st, md', a)" "table md type \<noteq> None"
  shows "st = STATUS_OK" "replayable md md'"
proof -
  show st: "st = STATUS_OK" using assms by (auto simp: locksUnlockInode_def split: option.splits)
  show "replayable md md'"
  proof (rule replayable_entry [where e = "FLCKINODE type i"])
    show "\<exists>rep'. restore_lock_entry rep (FLCKINODE type i) = Some (STATUS_OK, rep') \<and> same_locks md' rep'" if "same_locks md rep" for rep
      using locksUnlockInode_replica [OF that assms(1) [unfolded st]] by (auto simp: do_lock_unlock_inode_def)
  qed (use assms in \<open>auto simp: locksUnlockInode_def split: option.splits\<close>)
qed

text \<open>The status of a request for an existing inode with a known operation.\<close>

definition lock_ops :: "nat set" where
  "lock_ops = {kShared_op, kExclusive_op, kRelease_op, kUnlock_op}"

lemma lockOperation_answer:
  assumes "lockOperation md fl i s e ow oper nb = Some (st, fl', a)" "i \<in> nodes md" "oper \<in> lock_ops"
  shows "st = STATUS_OK \<or> st = ERROR_WAITING" "oper = kRelease_op \<or> oper = kUnlock_op \<Longrightarrow> st = STATUS_OK"
proof -
  have ok: "checkLockPermissions md i oper = STATUS_OK" using assms(2) by (simp add: checkLockPermissions_def getNodeForOperation_def)
  have "lock_switch fl i s e ow oper nb \<noteq> None" using assms(3) by (auto simp: lock_switch_def lock_ops_def)
  then obtain success fl1 s' e' where sw: "lock_switch fl i s e ow oper nb = Some (Some (success, fl1), s', e')"
    and st: "st = (if success then STATUS_OK else ERROR_WAITING)"
    using assms(1) ok by (auto simp: lockOperation_def Let_def split: option.splits prod.splits if_splits)
  then show "st = STATUS_OK \<or> st = ERROR_WAITING" by simp
  assume "oper = kRelease_op \<or> oper = kUnlock_op"
  then have "success" using sw
    by (auto simp: lock_switch_def unlock_def apply_lock_def fits_def findCollision_def unlocking_def Let_def op_codes
        split: option.splits bool.splits)
  then show "st = STATUS_OK" using st by simp
qed

lemma fuse_flock_replayable:
  assumes "fuse_flock md i ow oper = Some (r, md', a)" "i \<in> nodes md" "strip_nonblock oper \<in> lock_ops" "r \<noteq> Some ERROR_WAITING"
  shows "replayable md md'"
proof -
  obtain st where f: "flockOperation kMaster md i ow (strip_nonblock oper) (nonblock_bit oper) = Some (st, md', a)"
    and r: "r = (if strip_nonblock oper = kRelease_op then None
               else if nonblock_bit oper \<or> st \<noteq> ERROR_WAITING then Some st else None)"
    using assms(1) by (auto simp: fuse_flock_def)
  obtain fl' where "lockOperation md (flockLocks md) i 0 1 ow (strip_nonblock oper) (nonblock_bit oper) = Some (st, fl', a)"
    using f by (auto simp: flockOperation_def)
  note st = lockOperation_answer [OF this assms(2,3)]
  show ?thesis using st r assms(4) by (intro flock_replayable [OF f]) (auto split: if_splits)
qed

lemma fuse_setlk_replayable:
  assumes "fuse_setlk md i start len ow oper = Some (r, md', a)" "i \<in> nodes md" "strip_nonblock oper \<in> lock_ops" "r \<noteq> Some ERROR_WAITING"
  shows "replayable md md'"
proof (cases "lock_end start len")
  case None
  then show ?thesis using assms(1) replayable_refl by (simp add: fuse_setlk_def)
next
  case (Some e)
  obtain st where f: "posixLockOperation kMaster md i (unat start) e ow (strip_nonblock oper) (nonblock_bit oper) = Some (st, md', a)"
    and r: "r = (if strip_nonblock oper = kRelease_op then None
               else if nonblock_bit oper \<or> st \<noteq> ERROR_WAITING then Some st else None)"
    using assms(1) Some by (auto simp: fuse_setlk_def)
  obtain fl' where "lockOperation md (posixLocks md) i (unat start) e ow (strip_nonblock oper) (nonblock_bit oper) = Some (st, fl', a)"
    using f by (auto simp: posixLockOperation_def)
  note st = lockOperation_answer [OF this assms(2,3)]
  show ?thesis using st r assms(4) by (intro posix_replayable [OF f]) (auto split: if_splits)
qed

lemma tables_exist: "table md kFlock \<noteq> None" "table md kPosix \<noteq> None"
  by (simp_all add: table_def op_codes)

lemma locks_release_replayable:
  assumes "locks_release md i sid = Some (md', fa, pa)"
  shows "replayable md md'"
proof -
  obtain st md1 st' where c: "locksClearSession kMaster md kFlock i sid = Some (st, md1, fa)"
    "locksClearSession kMaster md1 kPosix i sid = Some (st', md', pa)"
    using assms by (auto simp: locks_release_def split: option.splits)
  show ?thesis
    by (rule replayable_trans [OF clear_session_replayable(2) [OF c(1) tables_exist(1)] clear_session_replayable(2) [OF c(2) tables_exist(2)]])
qed

lemma manage_single_replayable:
  assumes "manage_locks_unlock_single md type i ow s e = Some (STATUS_OK, md')"
  shows "replayable md md'"
proof -
  let ?f = "if type = kAll \<or> type = kFlock
    then map_option (\<lambda>(st, md', a). (st, md')) (flockOperation kMaster md i ow kUnlock_op True) else Some (STATUS_OK, md)"
  let ?p = "\<lambda>md1. map_option (\<lambda>(st, md', a). (st, md'))
    (posixLockOperation kMaster md1 i s (if e = 0 then uint64_max else e) ow kUnlock_op True)"
  obtain st1 md1 where f: "?f = Some (st1, md1)"
    and p: "(if st1 = STATUS_OK \<and> (type = kAll \<or> type = kPosix) then ?p md1 else Some (st1, md1)) = Some (STATUS_OK, md')"
    using assms unfolding manage_locks_unlock_single_def Let_def by (cases ?f) auto
  have st1: "st1 = STATUS_OK" using p by (auto split: if_splits)
  have "md1 = md \<or> (\<exists>a. flockOperation kMaster md i ow kUnlock_op True = Some (STATUS_OK, md1, a))"
    using f st1 by (cases "type = kAll \<or> type = kFlock") auto
  then have "replayable md md1" using flock_replayable replayable_refl by blast
  moreover have "md' = md1 \<or> ?p md1 = Some (STATUS_OK, md')" using p by (auto split: if_splits)
  then have "replayable md1 md'" using posix_replayable replayable_refl by fastforce
  ultimately show ?thesis by (rule replayable_trans)
qed

lemma manage_inode_replayable:
  assumes "manage_locks_unlock_inode md type i = Some (st, md')"
  shows "replayable md md'"
proof -
  let ?f = "if type = kAll \<or> type = kFlock
    then map_option (\<lambda>(st, md', a). (st, md')) (locksUnlockInode kMaster md kFlock i) else Some (STATUS_OK, md)"
  let ?p = "\<lambda>md1. map_option (\<lambda>(st, md', a). (st, md')) (locksUnlockInode kMaster md1 kPosix i)"
  obtain st1 md1 where f: "?f = Some (st1, md1)"
    and p: "(if st1 = STATUS_OK \<and> (type = kAll \<or> type = kPosix) then ?p md1 else Some (st1, md1)) = Some (st, md')"
    using assms unfolding manage_locks_unlock_inode_def by (cases ?f) auto
  have "md1 = md \<or> (\<exists>st a. locksUnlockInode kMaster md kFlock i = Some (st, md1, a))"
    using f by (cases "type = kAll \<or> type = kFlock") auto
  then have "replayable md md1" using unlock_inode_replayable(2) [OF _ tables_exist(1)] replayable_refl by blast
  moreover have "md' = md1 \<or> ?p md1 = Some (st, md')" using p by (auto split: if_splits)
  then have "replayable md1 md'" using unlock_inode_replayable(2) [OF _ tables_exist(2)] replayable_refl by fastforce
  ultimately show ?thesis by (rule replayable_trans)
qed

text \<open>
  Steps of the master whose log can be replayed: requests for existing inodes that are granted or wait,
  releases of sessions, and unlocks by the administrator that do not report an error.
\<close>

inductive clean_step :: "metadata \<Rightarrow> metadata \<Rightarrow> bool" where
  flock: "fuse_flock md i ow oper = Some (r, md', a) \<Longrightarrow> i \<in> nodes md \<Longrightarrow> strip_nonblock oper \<in> lock_ops \<Longrightarrow>
     r \<noteq> Some ERROR_WAITING \<Longrightarrow> clean_step md md'"
| setlk: "fuse_setlk md i start len ow oper = Some (r, md', a) \<Longrightarrow> i \<in> nodes md \<Longrightarrow> strip_nonblock oper \<in> lock_ops \<Longrightarrow>
     r \<noteq> Some ERROR_WAITING \<Longrightarrow> clean_step md md'"
| session: "locks_release md i sid = Some (md', fa, pa) \<Longrightarrow> clean_step md md'"
| unlock_single: "manage_locks_unlock_single md type i ow s e = Some (STATUS_OK, md') \<Longrightarrow> clean_step md md'"
| unlock_all: "manage_locks_unlock_inode md type i = Some (st, md') \<Longrightarrow> clean_step md md'"

lemma clean_is_step: "clean_step md md' \<Longrightarrow> lock_step md md'"
  by (induction rule: clean_step.induct) (blast intro: lock_step.intros)+

lemmas handlers_replayable = fuse_flock_replayable fuse_setlk_replayable locks_release_replayable manage_single_replayable
  manage_inode_replayable

lemma clean_step_replayable: "clean_step md md' \<Longrightarrow> replayable md md'"
  by (induction rule: clean_step.induct) (blast intro: handlers_replayable)+

lemma clean_run_replayable: "clean_step\<^sup>*\<^sup>* md md' \<Longrightarrow> replayable md md'"
  by (induction rule: rtranclp_induct) (auto intro: replayable_refl replayable_trans clean_step_replayable)

section \<open>Properties\<close>

lemma same_locks_refl: "same_locks md md"
  by (simp add: same_locks_def)

text \<open>C6: A replica that replays what the master has written to its changelog has the same locks. Take any
  sequence of lock requests to existing inodes that are granted or wait, of releases of sessions and of
  unlocks by the administrator: the entries that the master appended meanwhile carry consecutive
  versions, their replay succeeds entry by entry, and ends with the version of the master, the same
  granted locks and, up to request identifiers, the same waiting requests in both tables. Requests
  answered with an error, refused non-blocking requests and interrupts are not among the steps.\<close>

theorem replay_follows_master:
  assumes "clean_step\<^sup>*\<^sup>* md md'" and "same_locks md rep"
  shows "\<exists>new rep'. changelog md' = changelog md @ new \<and> map fst new = [metadataVersion md..<metadataVersion md']
     \<and> restore_all rep (map snd new) = Some rep' \<and> metadataVersion rep' = metadataVersion md'
     \<and> granted (flockLocks rep') = granted (flockLocks md') \<and> granted (posixLocks rep') = granted (posixLocks md')
     \<and> bare_table (flockLocks rep') = bare_table (flockLocks md') \<and> bare_table (posixLocks rep') = bare_table (posixLocks md')"
proof -
  obtain new rep' where "changelog md' = changelog md @ new" "map fst new = [metadataVersion md..<metadataVersion md']"
    "restore_all rep (map snd new) = Some rep'" "same_locks md' rep'"
    using clean_run_replayable [OF assms(1)] assms(2) unfolding replayable_def by blast
  then show ?thesis
    using same_locks_granted [of md' rep'] unfolding same_locks_def by blast
qed

text \<open>Client 1 gets an exclusive lock and client 2 waits for it.\<close>

theorem replay_follows_master_witness:
  "\<exists>md' rep'. clean_step\<^sup>*\<^sup>* (empty_metadata {7}) md' \<and> same_locks (empty_metadata {7}) (empty_metadata {7})
     \<and> map snd (changelog md') = [FLCK 0 7 0 1 1 1 4, FLCK 0 7 0 1 2 2 4]
     \<and> restore_all (empty_metadata {7}) [FLCK 0 7 0 1 1 1 4, FLCK 0 7 0 1 2 2 4] = Some rep'
     \<and> granted (flockLocks rep') = granted (flockLocks md')"
proof -
  let ?act = "[7 \<mapsto> [LockRange kExclusive 0 1 (client 1)]]"
  let ?md1 = "\<lparr>nodes = {7}, flockLocks = \<lparr>active_locks = ?act, pending_locks = Map.empty\<rparr>,
      posixLocks = FileLocks, metadataVersion = 2, changelog = [(1, FLCK 0 7 0 1 1 1 4)]\<rparr>"
  let ?md2 = "\<lparr>nodes = {7}, flockLocks = \<lparr>active_locks = ?act, pending_locks = [7 \<mapsto> [LockRange kExclusive 0 1 (client 2)]]\<rparr>,
      posixLocks = FileLocks, metadataVersion = 3, changelog = [(1, FLCK 0 7 0 1 1 1 4), (2, FLCK 0 7 0 1 2 2 4)]\<rparr>"
  have op: "strip_nonblock 4 \<in> lock_ops" by (simp add: strip_nonblock_def nonblock_bit_def lock_ops_def op_codes)
  have 1: "clean_step (empty_metadata {7}) ?md1"
    by (rule clean_step.flock [OF first_flock _ op]) (simp_all add: empty_metadata_def)
  have "fuse_flock ?md1 7 (client 2) 4 = Some (None, ?md2, [])"
    by (simp add: fuse_flock_def op_eval client_def nonblock_bit_def strip_nonblock_def)
  then have 2: "clean_step ?md1 ?md2" by (rule clean_step.flock [OF _ _ op]) simp_all
  have run: "clean_step\<^sup>*\<^sup>* (empty_metadata {7}) ?md2" using 1 2 by (meson converse_rtranclp_into_rtranclp rtranclp.rtrancl_refl)
  have "changelog ?md2 = changelog (empty_metadata {7}) @ new \<Longrightarrow> map snd new = [FLCK 0 7 0 1 1 1 4, FLCK 0 7 0 1 2 2 4]" for new
    by (auto simp: empty_metadata_def)
  then obtain rep' where "restore_all (empty_metadata {7}) [FLCK 0 7 0 1 1 1 4, FLCK 0 7 0 1 2 2 4] = Some rep'"
    "granted (flockLocks rep') = granted (flockLocks ?md2)"
    using replay_follows_master [OF run same_locks_refl] by metis
  then show ?thesis using run same_locks_refl by (intro exI [of _ ?md2] exI [of _ rep']) simp
qed

text \<open>C37: A lock request for an inode that does not exist is answered with an error and still logged;
  replaying that entry on a replica with the same inodes gives the error again, which stops the replay.\<close>

theorem failed_request_stops_replay:
  assumes "i \<notin> nodes md" and "nodes rep = nodes md"
  shows "\<exists>md' e. flockOperation kMaster md i ow oper nb = Some (ERROR_ENOENT, md', [])
     \<and> changelog md' = changelog md @ [(metadataVersion md, e)]
     \<and> flockLocks md' = flockLocks md \<and> restore_all rep [e] = None"
  using assms
  by (simp add: flockOperation_def lockOperation_def checkLockPermissions_def getNodeForOperation_def
      log_or_bump_def do_lock_op_def)

theorem failed_request_stops_replay_witness:
  "\<exists>md' e. flockOperation kMaster (empty_metadata {}) 7 (client 1) 4 False = Some (ERROR_ENOENT, md', [])
     \<and> changelog md' = [(1, e)] \<and> restore_all (empty_metadata {}) [e] = None"
  using failed_request_stops_replay [of 7 "empty_metadata {}" "empty_metadata {}" "client 1" 4 False]
  by (auto simp: empty_metadata_def)

text \<open>C38: A refused non-blocking request makes a replica diverge: the master answers "would block" and
  keeps nothing, but the logged entry does not say that the request was non-blocking, and the replica
  queues it.\<close>

theorem nonblocking_refusal_diverges:
  "\<exists>md md' e rep'. lock_reachable md
     \<and> fuse_flock md 7 (client 2) 20 = Some (Some ERROR_WAITING, md', [])
     \<and> changelog md' = changelog md @ [(metadataVersion md, e)]
     \<and> waiting (flockLocks md') 7 = {#}
     \<and> restore_all md [e] = Some rep'
     \<and> waiting (flockLocks rep') 7 = {#LockRange kExclusive 0 1 (replay_owner 2 2)#}"
proof -
  let ?md = "\<lparr>nodes = {7}, flockLocks = \<lparr>active_locks = [7 \<mapsto> [LockRange kExclusive 0 1 (client 1)]], pending_locks = Map.empty\<rparr>,
      posixLocks = FileLocks, metadataVersion = 2, changelog = [(1, FLCK 0 7 0 1 1 1 4)]\<rparr>"
  have "lock_reachable ?md"
    using lock_reachable.step [OF reachable_empty_metadata lock_step.flock [OF first_flock]] .
  moreover have "fuse_flock ?md 7 (client 2) 20 = Some (Some ERROR_WAITING,
      ?md\<lparr>metadataVersion := 3, changelog := changelog ?md @ [(2, FLCK 0 7 0 1 2 2 4)]\<rparr>, [])"
    by (simp add: fuse_flock_def op_eval client_def nonblock_bit_def strip_nonblock_def)
  moreover have "restore_all ?md [FLCK 0 7 0 1 2 2 4] = Some (?md\<lparr>metadataVersion := 3,
      flockLocks := (flockLocks ?md)\<lparr>pending_locks := [7 \<mapsto> [LockRange kExclusive 0 1 (replay_owner 2 2)]]\<rparr>\<rparr>)"
    by (simp add: do_lock_op_def replay_owner_def op_eval client_def)
  ultimately show ?thesis
    by (intro exI [of _ ?md] exI conjI) (assumption | simp add: waiting_def entry_def)+
qed


text \<open>C39: Releasing the locks of a closed session wakes waiting clients without granting them anything:
  there is a reachable state in which two clients wait for the same exclusive lock, both are told that
  they have it, and afterwards nobody holds a lock and nobody waits.\<close>

theorem session_release_wakes_without_granting:
  "\<exists>md md'. lock_reachable md
     \<and> waiting (flockLocks md) 7 = {#LockRange kExclusive 0 1 (client 2), LockRange kExclusive 0 1 (client 3)#}
     \<and> locks_release md 7 1 = Some (md', [client 3, client 2], [])
     \<and> granted (flockLocks md') 7 0 = (\<lambda>k. None) \<and> waiting (flockLocks md') 7 = {#}"
proof -
  let ?fl = "\<lambda>q. \<lparr>active_locks = [7 \<mapsto> [LockRange kExclusive 0 1 (client 1)]], pending_locks = q\<rparr>"
  let ?q2 = "[LockRange kExclusive 0 1 (client 2)]"
  let ?q3 = "[LockRange kExclusive 0 1 (client 3), LockRange kExclusive 0 1 (client 2)]"
  let ?md = "\<lambda>q v log. \<lparr>nodes = {7}, flockLocks = ?fl q, posixLocks = FileLocks, metadataVersion = v, changelog = log\<rparr>"
  let ?l1 = "[(1, FLCK 0 7 0 1 1 1 4)]" and ?l2 = "[(1, FLCK 0 7 0 1 1 1 4), (2, FLCK 0 7 0 1 2 2 4)]"
  let ?l3 = "[(1, FLCK 0 7 0 1 1 1 4), (2, FLCK 0 7 0 1 2 2 4), (3, FLCK 0 7 0 1 3 3 4)]"
  have r1: "lock_reachable (?md Map.empty 2 ?l1)"
    using lock_reachable.step [OF reachable_empty_metadata lock_step.flock [OF first_flock]] .
  have "fuse_flock (?md Map.empty 2 ?l1) 7 (client 2) 4 = Some (None, ?md [7 \<mapsto> ?q2] 3 ?l2, [])"
    by (simp add: fuse_flock_def op_eval client_def nonblock_bit_def strip_nonblock_def)
  from lock_reachable.step [OF r1 lock_step.flock [OF this]] have r2: "lock_reachable (?md [7 \<mapsto> ?q2] 3 ?l2)" .
  have "fuse_flock (?md [7 \<mapsto> ?q2] 3 ?l2) 7 (client 3) 4 = Some (None, ?md [7 \<mapsto> ?q3] 4 ?l3, [])"
    by (simp add: fuse_flock_def op_eval client_def nonblock_bit_def strip_nonblock_def)
  from lock_reachable.step [OF r2 lock_step.flock [OF this]] have r3: "lock_reachable (?md [7 \<mapsto> ?q3] 4 ?l3)" .
  have "locks_release (?md [7 \<mapsto> ?q3] 4 ?l3) 7 1 = Some (\<lparr>nodes = {7}, flockLocks = \<lparr>active_locks = [7 \<mapsto> []], pending_locks = [7 \<mapsto> []]\<rparr>,
      posixLocks = FileLocks, metadataVersion = 6, changelog = ?l3 @ [(4, CLRLCK 0 7 1), (5, CLRLCK 1 7 1)]\<rparr>, [client 3, client 2], [])"
    by (simp add: locks_release_def op_eval client_def FileLocks_def)
  moreover have "granted \<lparr>active_locks = [7 \<mapsto> []], pending_locks = [7 \<mapsto> []]\<rparr> 7 0 = (\<lambda>k. None)"
    "waiting \<lparr>active_locks = [7 \<mapsto> []], pending_locks = [7 \<mapsto> []]\<rparr> 7 = {#}"
    "waiting (?fl [7 \<mapsto> ?q3]) 7 = {#LockRange kExclusive 0 1 (client 2), LockRange kExclusive 0 1 (client 3)#}"
    by (simp_all add: granted_def waiting_def held_def add_mset_commute fun_eq_iff)
  ultimately show ?thesis
    using r3 by (intro exI [of _ "?md [7 \<mapsto> ?q3] 4 ?l3"] exI conjI) (assumption | simp)+
qed

text \<open>C40: Waiting requests can be forgotten after an unlock: there is a reachable state in which
  unlocking a range leaves a request waiting although no lock is in its way any more.
  \<^verbatim>\<open>gatherCandidates\<close> steps back by one queue element only, and the queue is sorted by
  start while its ranges may overlap.\<close>

theorem unlock_can_forget_a_waiter:
  "\<exists>md md' c. lock_reachable md \<and> fuse_setlk md 7 50 10 (client 1) 1 = Some (Some STATUS_OK, md', [])
     \<and> c \<in># waiting (posixLocks md') 7 \<and> lock_rule c (granted (posixLocks md') 7)"
proof -
  let ?L = "\<lambda>t s e n. LockRange t s e (client n)"
  let ?md = "\<lambda>act q v log. \<lparr>nodes = {7}, flockLocks = FileLocks, posixLocks = \<lparr>active_locks = act, pending_locks = q\<rparr>,
      metadataVersion = v, changelog = log\<rparr>"
  let ?a1 = "[?L kExclusive 50 60 1]" and ?a2 = "[?L kShared 3 4 2, ?L kExclusive 50 60 1]"
  let ?q1 = "[?L kShared 0 100 3]" and ?q2 = "[?L kShared 0 100 3, ?L kExclusive 3 4 4]"
  let ?l1 = "[(1, FLCK 1 7 50 60 1 1 4)]" let ?l2 = "?l1 @ [(2, FLCK 1 7 3 4 2 2 2)]"
  let ?l3 = "?l2 @ [(3, FLCK 1 7 0 100 3 3 2)]" let ?l4 = "?l3 @ [(4, FLCK 1 7 3 4 4 4 4)]"
  note ev = fuse_setlk_def lock_end_def op_eval client_def nonblock_bit_def strip_nonblock_def
  have r0: "lock_reachable (?md Map.empty Map.empty 1 [])"
    using reachable_empty_metadata [of "{7}"] by (simp add: empty_metadata_def FileLocks_def)
  have "fuse_setlk (?md Map.empty Map.empty 1 []) 7 50 10 (client 1) 4
      = Some (Some STATUS_OK, ?md [7 \<mapsto> ?a1] Map.empty 2 ?l1, [])"
    by (simp add: ev)
  from lock_reachable.step [OF r0 lock_step.setlk [OF this]] have r1: "lock_reachable (?md [7 \<mapsto> ?a1] Map.empty 2 ?l1)" .
  have "fuse_setlk (?md [7 \<mapsto> ?a1] Map.empty 2 ?l1) 7 3 1 (client 2) 2
      = Some (Some STATUS_OK, ?md [7 \<mapsto> ?a2] Map.empty 3 ?l2, [])"
    by (simp add: ev)
  from lock_reachable.step [OF r1 lock_step.setlk [OF this]] have r2: "lock_reachable (?md [7 \<mapsto> ?a2] Map.empty 3 ?l2)" .
  have "fuse_setlk (?md [7 \<mapsto> ?a2] Map.empty 3 ?l2) 7 0 100 (client 3) 2
      = Some (None, ?md [7 \<mapsto> ?a2] [7 \<mapsto> ?q1] 4 ?l3, [])"
    by (simp add: ev)
  from lock_reachable.step [OF r2 lock_step.setlk [OF this]] have r3: "lock_reachable (?md [7 \<mapsto> ?a2] [7 \<mapsto> ?q1] 4 ?l3)" .
  have "fuse_setlk (?md [7 \<mapsto> ?a2] [7 \<mapsto> ?q1] 4 ?l3) 7 3 1 (client 4) 4
      = Some (None, ?md [7 \<mapsto> ?a2] [7 \<mapsto> ?q2] 5 ?l4, [])"
    by (simp add: ev)
  from lock_reachable.step [OF r3 lock_step.setlk [OF this]] have r4: "lock_reachable (?md [7 \<mapsto> ?a2] [7 \<mapsto> ?q2] 5 ?l4)" .
  have step: "fuse_setlk (?md [7 \<mapsto> ?a2] [7 \<mapsto> ?q2] 5 ?l4) 7 50 10 (client 1) 1
      = Some (Some STATUS_OK, ?md [7 \<mapsto> [?L kShared 3 4 2]] [7 \<mapsto> ?q2] 6 (?l4 @ [(5, FLCK 1 7 50 60 1 1 1)]), [])"
    by (simp add: ev)
  have "wf_ranges [?L kShared 3 4 2]" "wf_lock (?L kShared 0 100 3)" "fits [?L kShared 3 4 2] (?L kShared 0 100 3) = Some True"
    by (simp_all add: range_eval client_def)
  then have "lock_rule (?L kShared 0 100 3) (held [?L kShared 3 4 2])"
    using lr.admits_rule [of "[?L kShared 3 4 2]" "?L kShared 0 100 3"] by simp
  then have "lock_rule (?L kShared 0 100 3) (granted \<lparr>active_locks = [7 \<mapsto> [?L kShared 3 4 2]], pending_locks = [7 \<mapsto> ?q2]\<rparr> 7)"
    "?L kShared 0 100 3 \<in># waiting \<lparr>active_locks = [7 \<mapsto> [?L kShared 3 4 2]], pending_locks = [7 \<mapsto> ?q2]\<rparr> 7"
    by (simp_all add: granted_def waiting_def)
  with r4 step show ?thesis
    by (intro exI [of _ "?md [7 \<mapsto> ?a2] [7 \<mapsto> ?q2] 5 ?l4"] exI [of _ "?L kShared 0 100 3"] exI conjI)
       (assumption | simp)+
qed

end
