(* ===== verification/URaft.thy ===== *)
theory URaft
  imports Prelude "HOL-Library.Word"
begin

text \<open>
  The leader election between metadata servers: \<^verbatim>\<open>uRaft\<close> of
  \<^verbatim>\<open>src/src/uraft/uraft.h\<close> and \<^verbatim>\<open>uraft.cc\<close>. Every handler is a function
  from the state of a node to its new state and the effects it has (packets sent and the calls of the
  overridable notification functions); \<^const>\<open>None\<close> is a failed assertion.

  Time is not modelled: a timer is a flag that says whether it runs, and a running timer may fire at
  any moment. The value of \<^verbatim>\<open>nodeGetVersion\<close>, which the derived class obtains from the
  metadata server, is an argument of the handlers that ask for it.
\<close>

section \<open>State of a node\<close>

datatype node_state = Follower | Candidate | Leader

record node_info =
  ni_data_version :: nat
  ni_heartbeat :: nat
  vote_granted :: bool
  recv :: bool

record options =
  election_timeout_min :: int
  heartbeat_period :: int
  quorum :: nat
  quorum_loss_grace_heartbeats :: nat
  elector :: bool

text \<open>
  \<^verbatim>\<open>RaftState\<close>, the table of nodes and the remaining members; the identifier \<open>-1\<close> is
  \<^const>\<open>None\<close>.
\<close>

record raft =
  self :: nat
  type :: node_state
  current_term :: nat
  voted_for :: "nat option"
  leader_id :: "nat option"
  local_time :: nat
  president :: bool
  loyalty_agreement :: bool
  data_version :: nat
  node :: "node_info list"
  block_leader_promotion :: bool
  quorum_loss_streak :: nat
  election_timer :: bool

datatype packet =
    AppendEntries nat nat nat nat
  | RequestVote nat nat nat nat
  | AEResponse nat bool nat nat
  | RVResponse nat bool nat nat

fun packet_term :: "packet \<Rightarrow> nat" where
  "packet_term (AppendEntries t _ _ _) = t"
| "packet_term (RequestVote t _ _ _) = t"
| "packet_term (AEResponse t _ _ _) = t"
| "packet_term (RVResponse t _ _ _) = t"

datatype effect = Send nat packet | NodePromote | NodeDemote | NodeLeader nat

text \<open>The state after the constructor and \<^verbatim>\<open>init\<close>, for node \<open>i\<close> of \<open>n\<close>.\<close>

definition init_node :: "options \<Rightarrow> nat \<Rightarrow> nat \<Rightarrow> raft" where
  "init_node opt n i =
     \<lparr>self = i, type = Follower, current_term = 0, voted_for = None, leader_id = None,
      local_time = nat (election_timeout_min opt div heartbeat_period opt + 1), president = False,
      loyalty_agreement = True, data_version = 0,
      node = replicate n \<lparr>ni_data_version = 0, ni_heartbeat = 0, vote_granted = False, recv = False\<rparr>,
      block_leader_promotion = False, quorum_loss_streak = 0, election_timer = True\<rparr>"

definition init_quorum :: "nat \<Rightarrow> nat" where
  "init_quorum n = n div 2 + 1"

section \<open>Handlers\<close>

text \<open>
  The time since the last heartbeat of a node is computed in unsigned 64-bit arithmetic and stored in
  a 32-bit integer.
\<close>

definition time_from_loyalty_vote :: "options \<Rightarrow> raft \<Rightarrow> node_info \<Rightarrow> int" where
  "time_from_loyalty_vote opt s nd =
     sint (word_of_int (heartbeat_period opt * ((int (local_time s) - int (ni_heartbeat nd)) + 1)) :: 32 word)"

definition voteCount :: "options \<Rightarrow> raft \<Rightarrow> bool \<Rightarrow> nat" where
  "voteCount opt s count_loyal =
     length (filter (\<lambda>nd. (\<not> count_loyal \<and> vote_granted nd)
       \<or> (count_loyal \<and> time_from_loyalty_vote opt s nd \<le> election_timeout_min opt)) (node s))"

definition stepDownToFollower :: "raft \<Rightarrow> bool \<Rightarrow> nat \<Rightarrow> raft \<times> effect list" where
  "stepDownToFollower s demote_if_president new_term =
     (s\<lparr>current_term := (if new_term > 0 then new_term else current_term s), type := Follower,
        president := False, voted_for := None, leader_id := None, quorum_loss_streak := 0,
        election_timer := True\<rparr>,
      if president s \<and> demote_if_president then [NodeDemote] else [])"

definition checkTerm :: "raft \<Rightarrow> nat \<Rightarrow> (raft \<times> effect list) option" where
  "checkTerm s term =
     (if term > current_term s
      then if president s \<and> type s = Follower then None
           else Some (stepDownToFollower s True term)
      else Some (s, []))"

definition send_all :: "raft \<Rightarrow> (nat \<Rightarrow> bool) \<Rightarrow> packet \<Rightarrow> effect list" where
  "send_all s P p = map (\<lambda>i. Send i p) (filter P [0..<length (node s)])"

definition sendHeartbeat :: "raft \<Rightarrow> effect list" where
  "sendHeartbeat s = send_all s (\<lambda>i. i \<noteq> self s)
     (AppendEntries (current_term s) (self s) (local_time s) (data_version s))"

definition sendRequestForVotes :: "raft \<Rightarrow> effect list" where
  "sendRequestForVotes s = send_all s (\<lambda>i. \<not> recv (node s ! i))
     (RequestVote (current_term s) (self s) (local_time s) (data_version s))"

definition electionTimeout :: "options \<Rightarrow> nat \<Rightarrow> raft \<Rightarrow> raft \<times> effect list" where
  "electionTimeout opt ver s =
     (if block_leader_promotion s then (s\<lparr>election_timer := True\<rparr>, [])
      else
        let s1 = s\<lparr>type := Candidate, current_term := current_term s + 1, voted_for := Some (self s),
                   election_timer := False,
                   node := (map (\<lambda>nd. nd\<lparr>vote_granted := False, recv := False\<rparr>) (node s))\<rparr>;
            s2 = s1\<lparr>node := (node s1)[self s := (node s1 ! self s)\<lparr>vote_granted := True, recv := True,
                      ni_data_version := data_version s, ni_heartbeat := local_time s\<rparr>]\<rparr>
        in if quorum opt > 1
           then let s3 = s2\<lparr>data_version := ver\<rparr>
                in (s3\<lparr>election_timer := True\<rparr>, sendRequestForVotes s3)
           else (s2\<lparr>type := Leader\<rparr>, [NodePromote]))"

definition heartbeat :: "options \<Rightarrow> raft \<Rightarrow> (raft \<times> effect list) option" where
  "heartbeat opt s =
     (let t = local_time s + 1;
          s1 = s\<lparr>local_time := t, node := (node s)[self s := (node s ! self s)\<lparr>ni_heartbeat := t\<rparr>]\<rparr>;
          has_quorum = (type s1 = Leader \<and> voteCount opt s1 True \<ge> quorum opt)
      in if president s1 \<and> type s1 = Follower then None
         else if president s1 \<and> \<not> has_quorum
         then let s2 = s1\<lparr>quorum_loss_streak := quorum_loss_streak s1 + 1\<rparr>
              in if quorum_loss_streak s2 < quorum_loss_grace_heartbeats opt
                 then Some (s2, sendHeartbeat s2)
                 else Some (stepDownToFollower s2 True 0)
         else
           let s2 = (if president s1 then s1\<lparr>quorum_loss_streak := 0\<rparr> else s1)
           in if type s2 = Candidate then Some (s2, sendRequestForVotes s2)
              else if type s2 = Leader
              then if \<not> president s2 \<and> has_quorum
                   then Some (s2\<lparr>president := True\<rparr>, sendHeartbeat s2 @ [NodePromote])
                   else Some (s2, sendHeartbeat s2)
              else Some (s2, []))"

definition rpcAppend :: "options \<Rightarrow> nat \<Rightarrow> raft \<Rightarrow> nat \<Rightarrow> nat \<Rightarrow> nat \<Rightarrow> nat \<Rightarrow> (raft \<times> effect list) option" where
  "rpcAppend opt ver s nid term time version =
     (if type s = Leader then None
      else if term < current_term s
      then Some (s, [Send nid (AEResponse (current_term s) False time (data_version s))])
      else
        let s1 = (if elector opt then s\<lparr>data_version := max (data_version s) version\<rparr> else s);
            s2 = (if Some nid \<noteq> leader_id s1 \<and> \<not> elector opt then s1\<lparr>data_version := ver\<rparr> else s1)
        in Some (s2\<lparr>leader_id := Some nid, loyalty_agreement := True, type := Follower, election_timer := True\<rparr>,
                 (if Some nid \<noteq> leader_id s2 then [NodeLeader nid] else [])
                 @ [Send nid (AEResponse (current_term s) True time (data_version s2))]))"

definition rpcAppendResponse :: "raft \<Rightarrow> nat \<Rightarrow> nat \<Rightarrow> nat \<Rightarrow> nat \<Rightarrow> raft" where
  "rpcAppendResponse s nid term req_time version =
     (if term < current_term s then s
      else if type s \<noteq> Leader then s
      else s\<lparr>node := (node s)[nid := \<lparr>ni_data_version = version,
               ni_heartbeat = max (ni_heartbeat (node s ! nid)) req_time, vote_granted = True, recv = True\<rparr>]\<rparr>)"

definition vote_result :: "raft \<Rightarrow> nat \<Rightarrow> nat \<Rightarrow> nat \<Rightarrow> bool" where
  "vote_result s nid term version \<longleftrightarrow>
     type s = Follower \<and> term \<ge> current_term s \<and> version \<ge> data_version s
     \<and> ((loyalty_agreement s \<and> leader_id s = Some nid)
        \<or> (\<not> loyalty_agreement s \<and> (voted_for s = None \<or> voted_for s = Some nid)))"

definition rpcReqVote :: "options \<Rightarrow> nat \<Rightarrow> raft \<Rightarrow> nat \<Rightarrow> nat \<Rightarrow> nat \<Rightarrow> nat \<Rightarrow> raft \<times> effect list" where
  "rpcReqVote opt ver s nid term time version =
     (let s1 = (if voted_for s = None \<and> \<not> elector opt then s\<lparr>data_version := ver\<rparr> else s);
          result = vote_result s1 nid term version
      in (if result then s1\<lparr>voted_for := Some nid, election_timer := True\<rparr> else s1,
          [Send nid (RVResponse (current_term s1) result time (data_version s1))]))"

definition rpcReqVoteResponse :: "options \<Rightarrow> raft \<Rightarrow> nat \<Rightarrow> nat \<Rightarrow> bool \<Rightarrow> raft \<times> effect list" where
  "rpcReqVoteResponse opt s nid term result =
     (if term < current_term s then (s, [])
      else if type s \<noteq> Candidate then (s, [])
      else
        let s1 = s\<lparr>node := (node s)[nid := (node s ! nid)\<lparr>vote_granted := result, recv := True\<rparr>]\<rparr>
        in if voteCount opt s1 False \<ge> quorum opt
           then let s2 = s1\<lparr>type := Leader, leader_id := Some (self s1), election_timer := False\<rparr>
                in (s2, sendHeartbeat s2)
           else (s1, []))"

definition receivePacket :: "options \<Rightarrow> nat \<Rightarrow> raft \<Rightarrow> nat \<Rightarrow> packet \<Rightarrow> (raft \<times> effect list) option" where
  "receivePacket opt ver s nid p =
     (case checkTerm s (packet_term p) of
        None \<Rightarrow> None
      | Some (s1, eff) \<Rightarrow>
          map_option (\<lambda>(s2, eff'). (s2, eff @ eff'))
            (case p of
               AppendEntries t _ time version \<Rightarrow> rpcAppend opt ver s1 nid t time version
             | RequestVote t _ time version \<Rightarrow> Some (rpcReqVote opt ver s1 nid t time version)
             | AEResponse t result req_time version \<Rightarrow> Some (rpcAppendResponse s1 nid t req_time version, [])
             | RVResponse t result req_time version \<Rightarrow> Some (rpcReqVoteResponse opt s1 nid t result)))"

definition loyalty_expired :: "raft \<Rightarrow> raft" where
  "loyalty_expired s = s\<lparr>loyalty_agreement := False\<rparr>"

definition demoteLeader :: "raft \<Rightarrow> raft \<times> effect list" where
  "demoteLeader s = (if type s = Follower then (s, []) else stepDownToFollower s False 0)"

definition set_block_promotion :: "bool \<Rightarrow> raft \<Rightarrow> raft" where
  "set_block_promotion b s = s\<lparr>block_leader_promotion := b\<rparr>"

section \<open>The cluster\<close>

text \<open>
  The network is the set of all packets ever sent, with sender and receiver: packets may be lost,
  delayed, reordered and duplicated, as UDP allows. Nodes do not restart.
\<close>

record cluster =
  server :: "nat \<Rightarrow> raft"
  net :: "(nat \<times> nat \<times> packet) set"

definition sent :: "nat \<Rightarrow> effect list \<Rightarrow> (nat \<times> nat \<times> packet) set" where
  "sent i eff = {(i, j, p) | j p. Send j p \<in> set eff}"

definition update :: "cluster \<Rightarrow> nat \<Rightarrow> raft \<times> effect list \<Rightarrow> cluster" where
  "update c i r = c\<lparr>server := (server c)(i := fst r), net := net c \<union> sent i (snd r)\<rparr>"

definition init_cluster :: "(nat \<Rightarrow> options) \<Rightarrow> nat \<Rightarrow> cluster" where
  "init_cluster opt n = \<lparr>server = (\<lambda>i. init_node (opt i) n i), net = {}\<rparr>"

inductive raft_step :: "(nat \<Rightarrow> options) \<Rightarrow> nat \<Rightarrow> cluster \<Rightarrow> cluster \<Rightarrow> bool" for opt n where
  deliver: "(j, i, p) \<in> net c \<Longrightarrow> i < n \<Longrightarrow> receivePacket (opt i) ver (server c i) j p = Some r \<Longrightarrow>
     raft_step opt n c (update c i r)"
| timeout: "i < n \<Longrightarrow> election_timer (server c i) \<Longrightarrow>
     raft_step opt n c (update c i (electionTimeout (opt i) ver (server c i)))"
| beat: "i < n \<Longrightarrow> heartbeat (opt i) (server c i) = Some r \<Longrightarrow> raft_step opt n c (update c i r)"
| expire: "i < n \<Longrightarrow> raft_step opt n c (update c i (loyalty_expired (server c i), []))"
| demote: "i < n \<Longrightarrow> raft_step opt n c (update c i (demoteLeader (server c i)))"
| block: "i < n \<Longrightarrow> raft_step opt n c (update c i (set_block_promotion b (server c i), []))"

inductive raft_reachable :: "(nat \<Rightarrow> options) \<Rightarrow> nat \<Rightarrow> cluster \<Rightarrow> bool" for opt n where
  start: "raft_reachable opt n (init_cluster opt n)"
| step: "raft_reachable opt n c \<Longrightarrow> raft_step opt n c c' \<Longrightarrow> raft_reachable opt n c'"

section \<open>Quorums\<close>

locale quorum_system =
  fixes is_quorum :: "nat set \<Rightarrow> bool"
  assumes meet: "is_quorum Q \<Longrightarrow> is_quorum R \<Longrightarrow> Q \<inter> R \<noteq> {}"
begin

text \<open>
  If everybody votes for one node only, two nodes cannot both have a quorum, provided that neither of
  them voted for the other.
\<close>

lemma winner_unique:
  assumes "is_quorum Q" "is_quorum R"
    and "\<And>w. w \<in> Q - {x} \<Longrightarrow> V w x" "\<And>w. w \<in> R - {y} \<Longrightarrow> V w y"
    and "\<And>w a b. V w a \<Longrightarrow> V w b \<Longrightarrow> a = b" and "\<And>z. \<not> V x z" "\<And>z. \<not> V y z"
  shows "x = y"
proof -
  obtain w where w: "w \<in> Q" "w \<in> R" using meet [OF assms(1,2)] by blast
  then show ?thesis using assms(3-7) by (metis Diff_iff singletonD)
qed

end

definition majority :: "nat \<Rightarrow> nat set \<Rightarrow> bool" where
  "majority n Q \<longleftrightarrow> Q \<subseteq> {..<n} \<and> init_quorum n \<le> card Q"

interpretation majorities: quorum_system "majority n" for n
proof
  fix Q R assume "majority n Q" "majority n R"
  then have sub: "Q \<subseteq> {..<n}" "R \<subseteq> {..<n}" and card: "n div 2 + 1 \<le> card Q" "n div 2 + 1 \<le> card R"
    by (simp_all add: majority_def init_quorum_def)
  have fin: "finite Q" "finite R" using sub finite_subset by blast+
  show "Q \<inter> R \<noteq> {}"
  proof
    assume "Q \<inter> R = {}"
    then have "card Q + card R = card (Q \<union> R)" using fin by (simp add: card_Un_disjoint)
    also have "\<dots> \<le> card {..<n}" using sub by (intro card_mono) auto
    finally show False using card by simp
  qed
qed

section \<open>Invariant\<close>

text \<open>
  \<open>L x t\<close> says that node \<open>x\<close> has sent heartbeats of term \<open>t\<close>, and \<open>B\<close> holds the
  ballots \<open>(w, x, t)\<close>: node \<open>w\<close> granted its vote to \<open>x\<close> in term \<open>t\<close> before \<open>x\<close> was
  leader of that term. A vote granted later, out of loyalty, cannot count any more.
\<close>

definition vote_wf :: "(nat \<Rightarrow> nat \<Rightarrow> bool) \<Rightarrow> (nat \<times> nat \<times> nat) set \<Rightarrow> nat \<Rightarrow> raft \<Rightarrow> bool" where
  "vote_wf L B i s \<longleftrightarrow>
     (\<forall>z t. (i, z, t) \<in> B \<longrightarrow> t \<le> current_term s)
     \<and> (\<forall>z. (i, z, current_term s) \<in> B \<longrightarrow> type s = Follower
          \<and> (voted_for s = Some z \<or> (\<exists>u. voted_for s = Some u \<and> L u (current_term s))))"

definition lead_wf :: "(nat \<Rightarrow> nat \<Rightarrow> bool) \<Rightarrow> nat \<Rightarrow> raft \<Rightarrow> bool" where
  "lead_wf L i s \<longleftrightarrow>
     (\<forall>t. L i t \<longrightarrow> t \<le> current_term s) \<and> (L i (current_term s) \<longrightarrow> type s \<noteq> Candidate)
     \<and> (type s = Follower \<longrightarrow> (\<forall>x. leader_id s = Some x \<longrightarrow> L x (current_term s)))"

definition poll_wf :: "nat \<Rightarrow> (nat \<times> nat \<times> nat) set \<Rightarrow> nat \<Rightarrow> raft \<Rightarrow> bool" where
  "poll_wf n B i s \<longleftrightarrow>
     (type s = Candidate \<longrightarrow> (\<forall>w < n. vote_granted (node s ! w) \<longrightarrow> w = i \<or> (w, i, current_term s) \<in> B))
     \<and> (type s = Leader \<longrightarrow> (\<exists>Q. majority n Q \<and> (\<forall>w \<in> Q - {i}. (w, i, current_term s) \<in> B)))"

definition shape_wf :: "nat \<Rightarrow> nat \<Rightarrow> raft \<Rightarrow> bool" where
  "shape_wf n i s \<longleftrightarrow> self s = i \<and> length (node s) = n \<and> (president s \<longrightarrow> type s = Leader)
     \<and> (type s = Leader \<longrightarrow> \<not> election_timer s)"

definition node_wf :: "nat \<Rightarrow> (nat \<Rightarrow> nat \<Rightarrow> bool) \<Rightarrow> (nat \<times> nat \<times> nat) set \<Rightarrow> nat \<Rightarrow> raft \<Rightarrow> bool" where
  "node_wf n L B i s \<longleftrightarrow> shape_wf n i s \<and> vote_wf L B i s \<and> lead_wf L i s \<and> poll_wf n B i s"

lemmas node_defs = node_wf_def shape_wf_def vote_wf_def lead_wf_def poll_wf_def

definition one_vote :: "(nat \<times> nat \<times> nat) set \<Rightarrow> bool" where
  "one_vote B \<longleftrightarrow> (\<forall>w x y t. (w, x, t) \<in> B \<longrightarrow> (w, y, t) \<in> B \<longrightarrow> x = y)"

definition leads :: "effect list \<Rightarrow> nat \<Rightarrow> bool" where
  "leads eff t \<longleftrightarrow> (\<exists>j m tm v. Send j (AppendEntries t m tm v) \<in> set eff)"

definition join :: "(nat \<Rightarrow> nat \<Rightarrow> bool) \<Rightarrow> nat \<Rightarrow> effect list \<Rightarrow> nat \<Rightarrow> nat \<Rightarrow> bool" where
  "join L i eff x t \<longleftrightarrow> L x t \<or> (x = i \<and> leads eff t)"

text \<open>What a step of node \<open>i\<close> guarantees, with the ballots \<open>B'\<close> afterwards.\<close>

definition good_step :: "nat \<Rightarrow> (nat \<Rightarrow> nat \<Rightarrow> bool) \<Rightarrow> (nat \<times> nat \<times> nat) set \<Rightarrow> nat
    \<Rightarrow> raft \<times> effect list \<Rightarrow> (nat \<times> nat \<times> nat) set \<Rightarrow> bool" where
  "good_step n L B i r B' \<longleftrightarrow> B \<subseteq> B' \<and> (\<forall>w z t. (w, z, t) \<in> B' - B \<longrightarrow> w = i) \<and> one_vote B'
     \<and> node_wf n (join L i (snd r)) B' i (fst r)
     \<and> (\<forall>x t tm v. Send x (RVResponse t True tm v) \<in> set (snd r) \<longrightarrow> (i, x, t) \<in> B' \<or> L x t)"

lemma node_wf_mono:
  assumes "node_wf n L B i s" "\<And>x t. L x t \<Longrightarrow> L' x t" "\<And>t. L' i t \<Longrightarrow> L i t"
    and "B \<subseteq> B'" "\<And>z t. (i, z, t) \<in> B' \<Longrightarrow> (i, z, t) \<in> B"
  shows "node_wf n L' B' i s"
proof -
  have "vote_wf L' B' i s" using assms unfolding node_wf_def vote_wf_def by blast
  moreover have "lead_wf L' i s" using assms unfolding node_wf_def lead_wf_def by blast
  moreover have "poll_wf n B' i s" using assms(1,4) unfolding node_wf_def poll_wf_def by blast
  ultimately show ?thesis using assms(1) by (simp add: node_wf_def)
qed

lemma join_quiet: "\<not> (\<exists>t. leads eff t) \<Longrightarrow> join L i eff = L"
  by (auto simp: join_def fun_eq_iff)

lemma leads_simps [simp]:
  "\<not> leads [] t" "leads (e # es) t \<longleftrightarrow> (\<exists>j m tm v. e = Send j (AppendEntries t m tm v)) \<or> leads es t"
  "leads (xs @ ys) t \<longleftrightarrow> leads xs t \<or> leads ys t"
  by (auto simp: leads_def)

text \<open>A step that only changes the node and sends no vote.\<close>

lemma quiet_step:
  assumes "one_vote B" "node_wf n (join L i eff) B i s'"
    and "\<And>x t tm v. Send x (RVResponse t True tm v) \<notin> set eff"
  shows "good_step n L B i (s', eff) B"
  using assms by (simp add: good_step_def)

section \<open>Every handler is a good step\<close>

lemma shape_same:
  "shape_wf n i s \<Longrightarrow> self s' = self s \<Longrightarrow> length (node s') = length (node s) \<Longrightarrow> type s' = type s \<Longrightarrow>
     president s' = president s \<Longrightarrow> (election_timer s' \<longrightarrow> election_timer s) \<Longrightarrow> shape_wf n i s'"
  by (auto simp: shape_wf_def)

text \<open>A state that differs in data the invariant does not look at.\<close>

lemma node_wf_same:
  assumes "node_wf n L B i s" "self s' = self s" "type s' = type s" "current_term s' = current_term s"
    "voted_for s' = voted_for s" "leader_id s' = leader_id s" "president s' = president s"
    "election_timer s' \<longrightarrow> election_timer s" "length (node s') = length (node s)"
    "\<And>w. w < n \<Longrightarrow> type s = Candidate \<Longrightarrow> vote_granted (node s' ! w) = vote_granted (node s ! w)"
  shows "node_wf n L B i s'"
  using assms unfolding node_wf_def vote_wf_def lead_wf_def poll_wf_def by (auto intro: shape_same)

lemma join_lead: "node_wf n L B i s \<Longrightarrow> type s = Leader \<Longrightarrow>
    (\<And>t. leads eff t \<Longrightarrow> t = current_term s) \<Longrightarrow> node_wf n (join L i eff) B i s"
proof -
  assume wf: "node_wf n L B i s" and ld: "type s = Leader" and eff: "\<And>t. leads eff t \<Longrightarrow> t = current_term s"
  have "vote_wf (join L i eff) B i s" using wf unfolding node_wf_def vote_wf_def join_def by blast
  moreover have "lead_wf (join L i eff) i s"
    using wf ld eff unfolding node_wf_def lead_wf_def join_def by auto
  ultimately show ?thesis using wf by (simp add: node_wf_def)
qed

lemma leads_sendHeartbeat: "leads (sendHeartbeat s) t \<Longrightarrow> t = current_term s"
  by (auto simp: leads_def sendHeartbeat_def send_all_def)

lemma no_leads_request: "\<not> leads (sendRequestForVotes s) t"
  by (auto simp: leads_def sendRequestForVotes_def send_all_def)

lemma no_votes [simp]:
  "Send x (RVResponse t b tm v) \<notin> set (sendHeartbeat s)"
  "Send x (RVResponse t b tm v) \<notin> set (sendRequestForVotes s)"
  by (auto simp: sendHeartbeat_def sendRequestForVotes_def send_all_def)

lemma stepDown_fields [simp]:
  "self (fst (stepDownToFollower s d t)) = self s" "type (fst (stepDownToFollower s d t)) = Follower"
  "voted_for (fst (stepDownToFollower s d t)) = None" "leader_id (fst (stepDownToFollower s d t)) = None"
  "president (fst (stepDownToFollower s d t)) = False" "node (fst (stepDownToFollower s d t)) = node s"
  "current_term (fst (stepDownToFollower s d t)) = (if t > 0 then t else current_term s)"
  by (simp_all add: stepDownToFollower_def)

lemma stepDown_quiet:
  "\<not> leads (snd (stepDownToFollower s d t)) t'" "Send x p \<notin> set (snd (stepDownToFollower s d t))"
  by (simp_all add: stepDownToFollower_def)

lemma stepDown_wf:
  assumes "node_wf n L B i s" "t > current_term s \<or> t = 0 \<and> type s \<noteq> Follower"
  shows "node_wf n L B i (fst (stepDownToFollower s d t))"
proof -
  let ?s = "fst (stepDownToFollower s d t)"
  have "shape_wf n i ?s" using assms(1) by (auto simp: node_wf_def shape_wf_def)
  moreover have "vote_wf L B i ?s"
    using assms unfolding node_wf_def vote_wf_def
    by (auto dest: leD) (meson less_imp_le order_trans)+
  moreover have "lead_wf L i ?s"
    using assms unfolding node_wf_def lead_wf_def by (auto dest: leD)
  moreover have "poll_wf n B i ?s" by (simp add: poll_wf_def)
  ultimately show ?thesis by (simp add: node_wf_def)
qed

lemma checkTerm_wf:
  assumes "node_wf n L B i s"
  shows "\<exists>s' eff. checkTerm s t = Some (s', eff) \<and> node_wf n L B i s' \<and> t \<le> current_term s'
     \<and> (\<forall>t'. \<not> leads eff t') \<and> (\<forall>x p. Send x p \<notin> set eff)"
proof (cases "t > current_term s")
  case True
  have "\<not> (president s \<and> type s = Follower)" using assms by (auto simp: node_wf_def shape_wf_def)
  then show ?thesis
    using True stepDown_wf [OF assms, of t True] stepDown_quiet [where s = s and d = True and t = t]
      stepDown_fields(7) [of s True t]
    by (cases "stepDownToFollower s True t") (auto simp: checkTerm_def)
next
  case False
  then show ?thesis using assms by (auto simp: checkTerm_def)
qed

lemma electionTimeout_good:
  assumes wf: "node_wf n L B i s" and one: "one_vote B" and "election_timer s" "quorum opt > 1" "i < n"
  shows "good_step n L B i (electionTimeout opt ver s) B"
proof -
  have nl: "type s \<noteq> Leader" "\<not> president s" "self s = i" "length (node s) = n"
    using wf assms(3) by (auto simp: node_wf_def shape_wf_def)
  show ?thesis
  proof (cases "block_leader_promotion s")
    case True
    have "node_wf n L B i (s\<lparr>election_timer := True\<rparr>)"
      by (rule node_wf_same [OF wf]) (simp_all add: assms(3))
    with True one show ?thesis
      unfolding electionTimeout_def by (simp add: quiet_step join_quiet)
  next
    case False
    obtain s' where e: "electionTimeout opt ver s = (s', snd (electionTimeout opt ver s))"
      and s': "type s' = Candidate" "current_term s' = current_term s + 1" "self s' = i"
        "president s' = False" "length (node s') = n"
        "\<And>w. w < n \<Longrightarrow> vote_granted (node s' ! w) \<longleftrightarrow> w = i"
      using False nl assms(4,5) by (auto simp: electionTimeout_def Let_def nth_list_update)
    have eff: "\<not> leads (snd (electionTimeout opt ver s)) t" "Send x (RVResponse t b tm v) \<notin> set (snd (electionTimeout opt ver s))" for t x b tm v
      using False assms(4) by (simp_all add: electionTimeout_def Let_def no_leads_request)
    have "shape_wf n i s'" using s' by (simp add: shape_wf_def)
    moreover have "vote_wf L B i s'"
      using wf s'(2) unfolding node_wf_def vote_wf_def by (metis Suc_eq_plus1 Suc_n_not_le_n le_SucI)
    moreover have "lead_wf L i s'"
      using wf s'(1,2) unfolding node_wf_def lead_wf_def by (metis Suc_eq_plus1 Suc_n_not_le_n le_SucI node_state.distinct(1))
    moreover have "poll_wf n B i s'" using s'(1,6) by (simp add: poll_wf_def)
    ultimately have "node_wf n L B i s'" by (simp add: node_wf_def)
    then show ?thesis
      using e eff one by (metis quiet_step join_quiet)
  qed
qed

lemma heartbeat_good:
  assumes wf: "node_wf n L B i s" and one: "one_vote B" and "i < n"
  shows "\<exists>r. heartbeat opt s = Some r \<and> good_step n L B i r B"
proof -
  define t where "t = local_time s + 1"
  define s1 where "s1 = s\<lparr>local_time := t, node := (node s)[self s := (node s ! self s)\<lparr>ni_heartbeat := t\<rparr>]\<rparr>"
  define q where "q \<longleftrightarrow> type s1 = Leader \<and> voteCount opt s1 True \<ge> quorum opt"
  have len: "length (node s) = n" "self s = i" using wf by (auto simp: node_wf_def shape_wf_def)
  have w1: "node_wf n L B i s1"
    using \<open>i < n\<close> by (intro node_wf_same [OF wf]) (auto simp: s1_def len nth_list_update)
  have pl: "president s1 \<Longrightarrow> type s1 = Leader" using w1 by (simp add: node_wf_def shape_wf_def)
  have hb: "heartbeat opt s =
     (if president s1 \<and> type s1 = Follower then None
      else if president s1 \<and> \<not> q
      then let s2 = s1\<lparr>quorum_loss_streak := quorum_loss_streak s1 + 1\<rparr>
           in if quorum_loss_streak s2 < quorum_loss_grace_heartbeats opt
              then Some (s2, sendHeartbeat s2) else Some (stepDownToFollower s2 True 0)
      else let s2 = (if president s1 then s1\<lparr>quorum_loss_streak := 0\<rparr> else s1)
           in if type s2 = Candidate then Some (s2, sendRequestForVotes s2)
              else if type s2 = Leader
              then if \<not> president s2 \<and> q
                   then Some (s2\<lparr>president := True\<rparr>, sendHeartbeat s2 @ [NodePromote])
                   else Some (s2, sendHeartbeat s2)
              else Some (s2, []))"
    unfolding heartbeat_def Let_def s1_def t_def q_def ..
  have same: "node_wf n L B i (s1\<lparr>quorum_loss_streak := k\<rparr>)" for k
    by (rule node_wf_same [OF w1]) simp_all
  have beat: "good_step n L B i (s2, sendHeartbeat s3 @ xs) B"
    if "node_wf n L B i s2" "type s2 = Leader" "current_term s3 = current_term s2" "xs = [] \<or> xs = [NodePromote]" for s2 s3 xs
    using that leads_sendHeartbeat [of s3]
    by (intro quiet_step [OF one] join_lead) auto
  have down: "good_step n L B i (stepDownToFollower s2 True 0) B" if "node_wf n L B i s2" "type s2 = Leader" for s2
    using quiet_step [OF one, of n L i "snd (stepDownToFollower s2 True 0)" "fst (stepDownToFollower s2 True 0)"]
      stepDown_wf [OF that(1), of 0 True] that(2) stepDown_quiet [where s = s2 and d = True and t = 0]
    by (simp add: join_quiet)
  have req: "good_step n L B i (s1, sendRequestForVotes s1) B"
    using w1 by (intro quiet_step [OF one]) (simp_all add: join_quiet no_leads_request)
  have pres: "type s1 = Leader \<Longrightarrow> node_wf n L B i (s1\<lparr>president := True\<rparr>)"
    using w1 by (simp add: node_wf_def shape_wf_def vote_wf_def lead_wf_def poll_wf_def)
  consider "president s1" "\<not> q" | "president s1" q | "\<not> president s1" "type s1 = Candidate"
    | "\<not> president s1" "type s1 = Leader" | "\<not> president s1" "type s1 = Follower"
    by (cases "type s1") auto
  then show ?thesis
  proof cases
    case 1
    then show ?thesis
      unfolding hb Let_def using pl beat [OF same, where xs = "[]"] down [OF same]
      by (simp del: split_paired_Ex)
  next
    case 2
    then show ?thesis unfolding hb Let_def using pl beat [OF same, where xs = "[]"] by simp
  next
    case 3
    then show ?thesis unfolding hb Let_def using req by simp
  next
    case 4
    then show ?thesis
      unfolding hb Let_def using beat [OF w1, where xs = "[]"] beat [OF pres, where xs = "[NodePromote]"] by simp
  next
    case 5
    then show ?thesis unfolding hb Let_def using quiet_step [OF one, of n L i "[]" s1] w1 by (simp add: join_quiet)
  qed
qed

lemma rpcAppend_good:
  assumes wf: "node_wf n L B i s" and one: "one_vote B" and "rpcAppend opt ver s j t tm v = Some r"
    and "t \<le> current_term s" "L j t"
  shows "good_step n L B i r B"
proof (cases "t < current_term s")
  case True
  then have "r = (s, [Send j (AEResponse (current_term s) False tm (data_version s))])"
    using assms(3) by (simp add: rpcAppend_def split: if_splits)
  then show ?thesis using wf one by (simp add: quiet_step join_quiet)
next
  case False
  then have t: "t = current_term s" and nl: "type s \<noteq> Leader"
    using assms(3,4) by (auto simp: rpcAppend_def split: if_splits)
  obtain s' eff where r: "r = (s', eff)" by (cases r)
  have s': "self s' = self s" "type s' = Follower" "current_term s' = current_term s" "voted_for s' = voted_for s"
    "leader_id s' = Some j" "president s' = president s" "node s' = node s"
    and eff: "\<not> leads eff t'" "Send x (RVResponse t' b tm' v') \<notin> set eff" for t' x b tm' v'
    using assms(3) False nl r by (auto simp: rpcAppend_def Let_def split: if_splits)
  have "shape_wf n i s'" using wf s' nl by (auto simp: node_wf_def shape_wf_def)
  moreover have "vote_wf L B i s'" using wf s' unfolding node_wf_def vote_wf_def by auto
  moreover have "lead_wf L i s'" using wf s' t assms(5) unfolding node_wf_def lead_wf_def by auto
  moreover have "poll_wf n B i s'" using s' by (simp add: poll_wf_def)
  ultimately show ?thesis
    unfolding r using eff one by (intro quiet_step) (simp_all add: join_quiet node_wf_def)
qed

lemma rpcAppendResponse_good:
  assumes wf: "node_wf n L B i s" and one: "one_vote B"
  shows "good_step n L B i (rpcAppendResponse s j t rt v, []) B"
proof -
  have "node_wf n L B i (rpcAppendResponse s j t rt v)"
    by (rule node_wf_same [OF wf]) (simp_all add: rpcAppendResponse_def)
  then show ?thesis using one by (simp add: quiet_step join_quiet)
qed

lemma rpcReqVote_good:
  assumes wf: "node_wf n L B i s" and one: "one_vote B" and "t \<le> current_term s"
  shows "\<exists>B'. good_step n L B i (rpcReqVote opt ver s j t tm v) B'"
proof -
  define s1 where "s1 = (if voted_for s = None \<and> \<not> elector opt then s\<lparr>data_version := ver\<rparr> else s)"
  have w1: "node_wf n L B i s1" by (rule node_wf_same [OF wf]) (simp_all add: s1_def)
  define res where "res = vote_result s1 j t v"
  let ?eff = "[Send j (RVResponse (current_term s1) res tm (data_version s1))]"
  have rq: "rpcReqVote opt ver s j t tm v =
      (if res then s1\<lparr>voted_for := Some j, election_timer := True\<rparr> else s1, ?eff)"
    by (simp add: rpcReqVote_def s1_def res_def Let_def)
  show ?thesis
  proof (cases res)
    case False
    then show ?thesis unfolding rq using quiet_step [OF one, of n L i ?eff s1] w1 by (auto simp: join_quiet)
  next
    case True
    let ?s = "s1\<lparr>voted_for := Some j, election_timer := True\<rparr>" and ?t = "current_term s1"
    have f: "type s1 = Follower" and vote: "loyalty_agreement s1 \<and> leader_id s1 = Some j
        \<or> voted_for s1 = None \<or> voted_for s1 = Some j"
      using True by (auto simp: res_def vote_result_def)
    define B' where "B' = (if L j ?t then B else insert (i, j, ?t) B)"
    have old: "z = j" if "(i, z, ?t) \<in> B" "\<not> L j ?t" for z
    proof -
      have "leader_id s1 \<noteq> Some j" using w1 f that(2) by (auto simp: node_wf_def lead_wf_def)
      moreover have "voted_for s1 = Some z \<or> (\<exists>u. voted_for s1 = Some u \<and> L u ?t)"
        using w1 that(1) unfolding node_wf_def vote_wf_def by blast
      ultimately show ?thesis using vote that(2) by auto
    qed
    have "one_vote B'" using one old unfolding one_vote_def B'_def by auto
    moreover have "node_wf n L B' i ?s"
    proof -
      have "shape_wf n i ?s" using w1 f by (auto simp: node_wf_def shape_wf_def)
      moreover have "vote_wf L B' i ?s"
        using w1 f old unfolding node_wf_def vote_wf_def B'_def by auto
      moreover have "lead_wf L i ?s" using w1 by (simp add: node_wf_def lead_wf_def)
      moreover have "poll_wf n B' i ?s" using f by (simp add: poll_wf_def)
      ultimately show ?thesis by (simp add: node_wf_def)
    qed
    ultimately have "good_step n L B i (?s, ?eff) B'"
      unfolding good_step_def by (auto simp: join_quiet B'_def)
    then show ?thesis unfolding rq using True by auto
  qed
qed

lemma rpcReqVoteResponse_good:
  assumes wf: "node_wf n L B i s" and one: "one_vote B" and "t \<le> current_term s" "j < n"
    and "result \<Longrightarrow> (j, i, t) \<in> B \<or> L i t" and "quorum opt = init_quorum n"
  shows "good_step n L B i (rpcReqVoteResponse opt s j t result) B"
proof (cases "t < current_term s \<or> type s \<noteq> Candidate")
  case True
  then show ?thesis using wf one by (auto simp: rpcReqVoteResponse_def quiet_step join_quiet)
next
  case False
  then have t: "t = current_term s" and c: "type s = Candidate" using assms(3) by auto
  have len: "length (node s) = n" "self s = i" using wf by (auto simp: node_wf_def shape_wf_def)
  define s1 where "s1 = s\<lparr>node := (node s)[j := (node s ! j)\<lparr>vote_granted := result, recv := True\<rparr>]\<rparr>"
  have nl: "\<not> L i t" using wf c t by (auto simp: node_wf_def lead_wf_def)
  have granted: "w = i \<or> (w, i, t) \<in> B" if "w < n" "vote_granted (node s1 ! w)" for w
    using wf that assms(4,5) nl c t len
    by (cases "w = j") (auto simp: s1_def node_wf_def poll_wf_def)
  have w1: "node_wf n L B i s1"
    using wf granted c t by (simp add: s1_def node_wf_def shape_wf_def vote_wf_def lead_wf_def poll_wf_def)
  show ?thesis
  proof (cases "voteCount opt s1 False \<ge> quorum opt")
    case False
    then show ?thesis
      using c t w1 one by (simp add: rpcReqVoteResponse_def s1_def [symmetric] Let_def quiet_step join_quiet)
  next
    case True
    define s2 where "s2 = s1\<lparr>type := Leader, leader_id := Some (self s1), election_timer := False\<rparr>"
    define Q where "Q = {w. w < n \<and> vote_granted (node s1 ! w)}"
    have "card Q = voteCount opt s1 False"
      using len by (simp add: voteCount_def length_filter_conv_card Q_def s1_def)
    then have "majority n Q" using True assms(6) by (auto simp: majority_def Q_def)
    moreover have "\<forall>w \<in> Q - {i}. (w, i, current_term s2) \<in> B"
      using granted t by (auto simp: Q_def s2_def s1_def)
    ultimately have "poll_wf n B i s2" unfolding poll_wf_def by (auto simp: s2_def)
    moreover have "shape_wf n i s2" using w1 by (simp add: node_wf_def shape_wf_def s2_def)
    moreover have "vote_wf L B i s2" using w1 c unfolding node_wf_def vote_wf_def by (auto simp: s2_def s1_def)
    moreover have "lead_wf L i s2" using w1 unfolding node_wf_def lead_wf_def by (simp add: s2_def)
    ultimately have "node_wf n L B i s2" by (simp add: node_wf_def)
    then have "good_step n L B i (s2, sendHeartbeat s2) B"
      using leads_sendHeartbeat [of s2] by (intro quiet_step [OF one] join_lead) (auto simp: s2_def)
    then show ?thesis
      using True c t by (simp add: rpcReqVoteResponse_def s1_def [symmetric] s2_def Let_def)
  qed
qed

lemma demote_good:
  assumes "node_wf n L B i s" "one_vote B"
  shows "good_step n L B i (demoteLeader s) B"
proof (cases "type s = Follower")
  case True
  then show ?thesis using assms by (simp add: demoteLeader_def quiet_step join_quiet)
next
  case False
  then show ?thesis
    using quiet_step [OF assms(2), of n L i "snd (stepDownToFollower s False 0)" "fst (stepDownToFollower s False 0)"]
      stepDown_wf [OF assms(1), of 0 False] stepDown_quiet [where s = s and d = False and t = 0]
    by (simp add: demoteLeader_def join_quiet)
qed

lemma good_step_prefix:
  assumes "good_step n L B i (s, eff') B'" "\<And>t. \<not> leads eff t" "\<And>x p. Send x p \<notin> set eff"
  shows "good_step n L B i (s, eff @ eff') B'"
proof -
  have "join L i (eff @ eff') = join L i eff'" using assms(2) by (simp add: join_def fun_eq_iff)
  then show ?thesis using assms by (auto simp: good_step_def)
qed

text \<open>What the packets of the network may say.\<close>

definition packet_wf :: "nat \<Rightarrow> (nat \<Rightarrow> nat \<Rightarrow> bool) \<Rightarrow> (nat \<times> nat \<times> nat) set \<Rightarrow> nat \<times> nat \<times> packet \<Rightarrow> bool" where
  "packet_wf n L B m = (case m of (j, i, p) \<Rightarrow> j < n \<and>
     (case p of AppendEntries t _ _ _ \<Rightarrow> L j t
      | RVResponse t result _ _ \<Rightarrow> result \<longrightarrow> (j, i, t) \<in> B \<or> L i t
      | _ \<Rightarrow> True))"

lemma receivePacket_good:
  assumes wf: "node_wf n L B i s" and one: "one_vote B" and p: "packet_wf n L B (j, i, p)"
    and q: "quorum opt = init_quorum n" and r: "receivePacket opt ver s j p = Some r"
  shows "\<exists>B'. good_step n L B i r B'"
proof -
  obtain s1 eff where c: "checkTerm s (packet_term p) = Some (s1, eff)" and w1: "node_wf n L B i s1"
    and t: "packet_term p \<le> current_term s1" and quiet: "\<And>t. \<not> leads eff t" "\<And>x p. Send x p \<notin> set eff"
    using checkTerm_wf [OF wf] by blast
  obtain s2 eff' where r2: "r = (s2, eff @ eff')" and h: "(case p of
         AppendEntries t _ time version \<Rightarrow> rpcAppend opt ver s1 j t time version
       | RequestVote t _ time version \<Rightarrow> Some (rpcReqVote opt ver s1 j t time version)
       | AEResponse t result req_time version \<Rightarrow> Some (rpcAppendResponse s1 j t req_time version, [])
       | RVResponse t result req_time version \<Rightarrow> Some (rpcReqVoteResponse opt s1 j t result)) = Some (s2, eff')"
    using r c by (auto simp: receivePacket_def)
  have "\<exists>B'. good_step n L B i (s2, eff') B'"
  proof (cases p)
    case (AppendEntries t m tm v)
    then have "rpcAppend opt ver s1 j t tm v = Some (s2, eff')" "t \<le> current_term s1" "L j t"
      using h \<open>packet_term p \<le> current_term s1\<close> p by (auto simp: packet_wf_def)
    then show ?thesis using rpcAppend_good [OF w1 one] by blast
  next
    case (RequestVote t m tm v)
    then have "rpcReqVote opt ver s1 j t tm v = (s2, eff')" "t \<le> current_term s1"
      using h \<open>packet_term p \<le> current_term s1\<close> by auto
    then show ?thesis using rpcReqVote_good [OF w1 one, of t opt ver j tm v] by simp
  next
    case (AEResponse t res tm v)
    then have "(s2, eff') = (rpcAppendResponse s1 j t tm v, [])" using h by simp
    then show ?thesis using rpcAppendResponse_good [OF w1 one] by metis
  next
    case (RVResponse t res tm v)
    have "good_step n L B i (rpcReqVoteResponse opt s1 j t res) B"
      using RVResponse t p q by (intro rpcReqVoteResponse_good [OF w1 one]) (auto simp: packet_wf_def)
    then show ?thesis using RVResponse h by (simp only: packet.simps option.inject) metis
  qed
  then show ?thesis unfolding r2 using good_step_prefix quiet by blast
qed

section \<open>Cluster invariant\<close>

definition lead :: "cluster \<Rightarrow> nat \<Rightarrow> nat \<Rightarrow> bool" where
  "lead c x t \<longleftrightarrow> (\<exists>y m tm v. (x, y, AppendEntries t m tm v) \<in> net c)"

definition cluster_wf :: "nat \<Rightarrow> (nat \<times> nat \<times> nat) set \<Rightarrow> cluster \<Rightarrow> bool" where
  "cluster_wf n B c \<longleftrightarrow> one_vote B \<and> (\<forall>i < n. node_wf n (lead c) B i (server c i))
     \<and> (\<forall>m \<in> net c. packet_wf n (lead c) B m)"

lemma lead_update: "lead (update c i r) = join (lead c) i (snd r)"
  by (auto simp: lead_def update_def join_def leads_def sent_def fun_eq_iff)

lemma packet_wf_mono:
  assumes "packet_wf n L B m" "\<And>x t. L x t \<Longrightarrow> L' x t" "B \<subseteq> B'"
  shows "packet_wf n L' B' m"
  using assms by (auto simp: packet_wf_def split: prod.splits packet.splits)

lemma packet_wf_sent:
  assumes "good_step n L B i r B'" "i < n" "m \<in> sent i (snd r)"
  shows "packet_wf n (join L i (snd r)) B' m"
proof -
  obtain x p where m: "m = (i, x, p)" "Send x p \<in> set (snd r)" using assms(3) by (auto simp: sent_def)
  show ?thesis
  proof (cases p)
    case (RVResponse t res tm v)
    have vote: "\<forall>x t tm v. Send x (RVResponse t True tm v) \<in> set (snd r) \<longrightarrow> (i, x, t) \<in> B' \<or> L x t"
      using assms(1) unfolding good_step_def by blast
    have "res \<Longrightarrow> (i, x, t) \<in> B' \<or> L x t" using m(2) RVResponse vote by simp blast
    then show ?thesis using RVResponse m(1) assms(2) by (auto simp: packet_wf_def join_def)
  qed (use m assms(2) in \<open>auto simp: packet_wf_def join_def leads_def\<close>)
qed

lemma cluster_wf_update:
  assumes wf: "cluster_wf n B c" and good: "good_step n (lead c) B i r B'" and "i < n"
  shows "cluster_wf n B' (update c i r)"
proof -
  let ?L = "join (lead c) i (snd r)"
  have sub: "B \<subseteq> B'" "\<And>w z t. (w, z, t) \<in> B' \<Longrightarrow> w \<noteq> i \<Longrightarrow> (w, z, t) \<in> B" "one_vote B'"
    using good unfolding good_step_def by blast+
  have mono: "lead c x t \<Longrightarrow> ?L x t" for x t by (simp add: join_def)
  have "node_wf n ?L B' k (server (update c i r) k)" if "k < n" for k
  proof (cases "k = i")
    case True
    then show ?thesis using good by (simp add: good_step_def update_def)
  next
    case False
    have "node_wf n (lead c) B k (server c k)" using wf that by (simp add: cluster_wf_def)
    then have "node_wf n ?L B' k (server c k)"
      using mono sub(1,2) False by (elim node_wf_mono) (auto simp: join_def)
    then show ?thesis using False by (simp add: update_def)
  qed
  moreover have "packet_wf n ?L B' m" if "m \<in> net (update c i r)" for m
  proof (cases "m \<in> net c")
    case True
    then have "packet_wf n (lead c) B m" using wf by (simp add: cluster_wf_def)
    then show ?thesis using mono sub(1) by (rule packet_wf_mono)
  next
    case False
    then have "m \<in> sent i (snd r)" using that by (simp add: update_def)
    then show ?thesis by (rule packet_wf_sent [OF good \<open>i < n\<close>])
  qed
  ultimately show ?thesis using sub(3) by (simp add: cluster_wf_def lead_update)
qed

lemma raft_step_wf:
  assumes "raft_step opt n c c'" "cluster_wf n B c" "n > 1" "\<And>i. i < n \<Longrightarrow> quorum (opt i) = init_quorum n"
  shows "\<exists>B'. cluster_wf n B' c'"
proof -
  have one: "one_vote B" and nw: "\<And>i. i < n \<Longrightarrow> node_wf n (lead c) B i (server c i)"
    using assms(2) by (auto simp: cluster_wf_def)
  have "\<exists>i r B'. i < n \<and> c' = update c i r \<and> good_step n (lead c) B i r B'"
    using assms(1)
  proof cases
    case (deliver j i p ver r)
    moreover have "packet_wf n (lead c) B (j, i, p)" using assms(2) deliver by (auto simp: cluster_wf_def)
    ultimately show ?thesis using receivePacket_good [OF nw one _ assms(4)] by blast
  next
    case (timeout i ver)
    then have "good_step n (lead c) B i (electionTimeout (opt i) ver (server c i)) B"
      using electionTimeout_good [OF nw one, of i "opt i"] assms(3,4) by (simp add: init_quorum_def)
    then show ?thesis using timeout by blast
  next
    case (beat i r)
    then have "good_step n (lead c) B i r B" using heartbeat_good [OF nw one, of i "opt i"] by simp
    then show ?thesis using beat by blast
  next
    case (expire i)
    have "node_wf n (lead c) B i (loyalty_expired (server c i))"
      by (rule node_wf_same [OF nw]) (simp_all add: expire loyalty_expired_def)
    then have "good_step n (lead c) B i (loyalty_expired (server c i), []) B" using one by (simp add: quiet_step join_quiet)
    then show ?thesis using expire by blast
  next
    case (demote i)
    then show ?thesis using demote_good nw one by blast
  next
    case (block i b)
    have "node_wf n (lead c) B i (set_block_promotion b (server c i))"
      by (rule node_wf_same [OF nw]) (simp_all add: block set_block_promotion_def)
    then have "good_step n (lead c) B i (set_block_promotion b (server c i), []) B" using one by (simp add: quiet_step join_quiet)
    then show ?thesis using block by blast
  qed
  then show ?thesis using cluster_wf_update [OF assms(2)] by blast
qed

lemma init_cluster_wf: "n > 1 \<Longrightarrow> cluster_wf n {} (init_cluster opt n)"
  by (auto simp: cluster_wf_def init_cluster_def one_vote_def node_defs lead_def init_node_def)

lemma reachable_wf:
  assumes "raft_reachable opt n c" "n > 1" "\<And>i. i < n \<Longrightarrow> quorum (opt i) = init_quorum n"
  shows "\<exists>B. cluster_wf n B c"
  using assms(1)
proof induction
  case start
  then show ?case using init_cluster_wf [OF assms(2)] by blast
next
  case (step c c')
  then show ?case using raft_step_wf [OF step.hyps(2) _ assms(2)] assms(3) by blast
qed

lemma same_term_leaders:
  assumes "cluster_wf n B c" "i < n" "j < n" "type (server c i) = Leader" "type (server c j) = Leader"
    "current_term (server c i) = current_term (server c j)"
  shows "i = j"
proof -
  define t where "t = current_term (server c i)"
  have wf: "node_wf n (lead c) B i (server c i)" "node_wf n (lead c) B j (server c j)"
    using assms(1-3) by (auto simp: cluster_wf_def)
  obtain Q where Q: "majority n Q" "\<forall>w \<in> Q - {i}. (w, i, t) \<in> B"
    using wf(1) assms(4) by (auto simp: node_wf_def poll_wf_def t_def)
  obtain R where R: "majority n R" "\<forall>w \<in> R - {j}. (w, j, t) \<in> B"
    using wf(2) assms(5,6) by (auto simp: node_wf_def poll_wf_def t_def)
  have "(i, z, t) \<notin> B" "(j, z, t) \<notin> B" for z
    using wf assms(4-6) unfolding node_wf_def vote_wf_def t_def by auto
  then show ?thesis
    using majorities.winner_unique [where V = "\<lambda>w x. (w, x, t) \<in> B", OF Q(1) R(1)] Q(2) R(2) assms(1)
    by (auto simp: cluster_wf_def one_vote_def)
qed

section \<open>Running a schedule\<close>

text \<open>
  Concrete executions, as lists of actions: a run computes the states of the nodes and the packets
  sent, and is an execution of the cluster.
\<close>

datatype action = Deliver nat nat packet | Timeout nat | Beat nat | Expire nat

fun action_result :: "(nat \<Rightarrow> options) \<Rightarrow> raft list \<Rightarrow> (nat \<times> nat \<times> packet) list \<Rightarrow> action
    \<Rightarrow> (nat \<times> (raft \<times> effect list)) option" where
  "action_result opt ss ps (Deliver j i p) =
     (if (j, i, p) \<in> set ps then map_option (Pair i) (receivePacket (opt i) 0 (ss ! i) j p) else None)"
| "action_result opt ss ps (Timeout i) =
     (if election_timer (ss ! i) then Some (i, electionTimeout (opt i) 0 (ss ! i)) else None)"
| "action_result opt ss ps (Beat i) = map_option (Pair i) (heartbeat (opt i) (ss ! i))"
| "action_result opt ss ps (Expire i) = Some (i, loyalty_expired (ss ! i), [])"

fun packets :: "nat \<Rightarrow> effect list \<Rightarrow> (nat \<times> nat \<times> packet) list" where
  "packets i [] = []"
| "packets i (Send j p # es) = (i, j, p) # packets i es"
| "packets i (_ # es) = packets i es"

fun run :: "(nat \<Rightarrow> options) \<Rightarrow> action list \<Rightarrow> raft list \<times> (nat \<times> nat \<times> packet) list
    \<Rightarrow> (raft list \<times> (nat \<times> nat \<times> packet) list) option" where
  "run opt [] (ss, ps) = Some (ss, ps)"
| "run opt (a # as) (ss, ps) = (case action_result opt ss ps a of
     Some (i, s, eff) \<Rightarrow> if i < length ss then run opt as (ss[i := s], packets i eff @ ps) else None
   | None \<Rightarrow> None)"

definition run_init :: "(nat \<Rightarrow> options) \<Rightarrow> nat \<Rightarrow> raft list \<times> (nat \<times> nat \<times> packet) list" where
  "run_init opt n = (map (\<lambda>i. init_node (opt i) n i) [0..<n], [])"

definition as_cluster :: "(nat \<Rightarrow> options) \<Rightarrow> nat \<Rightarrow> raft list \<times> (nat \<times> nat \<times> packet) list \<Rightarrow> cluster" where
  "as_cluster opt n x = \<lparr>server = (\<lambda>i. if i < n then fst x ! i else init_node (opt i) n i), net = set (snd x)\<rparr>"

lemma set_packets: "set (packets i eff) = sent i eff"
  by (induction i eff rule: packets.induct) (auto simp: sent_def)

lemma as_cluster_update: "length ss = n \<Longrightarrow> i < n \<Longrightarrow>
    as_cluster opt n (ss[i := s], packets i eff @ ps) = update (as_cluster opt n (ss, ps)) i (s, eff)"
  by (auto simp: as_cluster_def update_def fun_eq_iff set_packets)

lemma action_step:
  assumes "action_result opt ss ps a = Some (i, r)" "i < n" "length ss = n"
  shows "raft_step opt n (as_cluster opt n (ss, ps)) (update (as_cluster opt n (ss, ps)) i r)"
proof -
  let ?c = "as_cluster opt n (ss, ps)"
  have s: "server ?c i = ss ! i" and net: "net ?c = set ps" using assms by (simp_all add: as_cluster_def)
  show ?thesis
  proof (cases a)
    case (Deliver j k p)
    then have "(j, i, p) \<in> net ?c" "receivePacket (opt i) 0 (server ?c i) j p = Some r"
      using assms(1) s net by (auto split: if_splits)
    then show ?thesis using raft_step.deliver assms(2) by blast
  next
    case (Timeout k)
    then have "r = electionTimeout (opt i) 0 (server ?c i)" "election_timer (server ?c i)"
      using assms(1) s by (auto split: if_splits)
    then show ?thesis using raft_step.timeout assms(2) by blast
  next
    case (Beat k)
    then have "heartbeat (opt i) (server ?c i) = Some r" using assms(1) s by auto
    then show ?thesis using raft_step.beat assms(2) by blast
  next
    case (Expire k)
    then have "r = (loyalty_expired (server ?c i), [])" using assms(1) s by auto
    then show ?thesis using raft_step.expire assms(2) by blast
  qed
qed

lemma run_reachable:
  assumes "raft_reachable opt n (as_cluster opt n (ss, ps))" "length ss = n" "run opt as (ss, ps) = Some x"
  shows "raft_reachable opt n (as_cluster opt n x)"
  using assms
proof (induction as arbitrary: ss ps)
  case (Cons a as)
  obtain i s eff where a: "action_result opt ss ps a = Some (i, s, eff)" "i < n"
    and rest: "run opt as (ss[i := s], packets i eff @ ps) = Some x"
    using Cons.prems by (auto split: option.splits if_splits)
  have "raft_reachable opt n (as_cluster opt n (ss[i := s], packets i eff @ ps))"
    using raft_reachable.step [OF Cons.prems(1) action_step [OF a Cons.prems(2)]] a(2) Cons.prems(2)
    by (simp add: as_cluster_update)
  then show ?case using Cons.IH [OF _ _ rest] Cons.prems(2) by simp
qed simp

lemma run_init_reachable:
  assumes "run opt as (run_init opt n) = Some x"
  shows "raft_reachable opt n (as_cluster opt n x)"
proof -
  have "as_cluster opt n (run_init opt n) = init_cluster opt n"
    by (auto simp: as_cluster_def run_init_def init_cluster_def fun_eq_iff)
  then show ?thesis
    using run_reachable [of opt n "fst (run_init opt n)" "snd (run_init opt n)" as x] assms raft_reachable.start [of opt n]
    by (simp add: run_init_def)
qed

definition three_options :: options where
  "three_options = \<lparr>election_timeout_min = 400, heartbeat_period = 20, quorum = 2,
     quorum_loss_grace_heartbeats = 5, elector = False\<rparr>"

text \<open>Node 0 wins term 1 with the vote of node 1, then node 1 wins term 2 with the vote of node 2.\<close>

definition first_election :: "action list" where
  "first_election = [Timeout 0, Expire 1, Deliver 0 1 (RequestVote 1 0 21 0), Deliver 1 0 (RVResponse 1 True 21 0)]"

definition second_election :: "action list" where
  "second_election = first_election @
     [Timeout 1, Expire 2, Deliver 1 2 (RequestVote 2 1 21 0), Deliver 2 1 (RVResponse 2 True 21 0)]"

definition after_two_elections :: "raft list \<times> (nat \<times> nat \<times> packet) list" where
  "after_two_elections = the (run (\<lambda>_. three_options) second_election (run_init (\<lambda>_. three_options) 3))"

lemma two_elections:
  "run (\<lambda>_. three_options) second_election (run_init (\<lambda>_. three_options) 3) = Some after_two_elections"
  "map type (fst after_two_elections) = [Leader, Leader, Follower]"
  "map current_term (fst after_two_elections) = [1, 2, 2]"
  "(0, 1, AppendEntries 1 0 21 0) \<in> set (snd after_two_elections)"
  by code_simp+

section \<open>Losing the quorum\<close>

text \<open>Heartbeats of a node that receives nothing in between.\<close>

fun beats :: "options \<Rightarrow> nat \<Rightarrow> raft \<Rightarrow> raft option" where
  "beats opt 0 s = Some s"
| "beats opt (Suc k) s = (case heartbeat opt s of Some (s', _) \<Rightarrow> beats opt k s' | None \<Rightarrow> None)"

lemma beats_follower:
  "type s = Follower \<Longrightarrow> \<not> president s \<Longrightarrow> \<exists>s'. beats opt k s = Some s' \<and> type s' = Follower \<and> \<not> president s'"
  by (induction k arbitrary: s) (simp_all add: heartbeat_def Let_def)

lemma sint_small: "0 \<le> x \<Longrightarrow> x < 2 ^ 31 \<Longrightarrow> sint (word_of_int x :: 32 word) = x"
  by (simp add: sint_sbintrunc' signed_take_bit_int_eq_self)

lemma sint_wrapped: "2 ^ 31 \<le> x \<Longrightarrow> x < 2 ^ 32 \<Longrightarrow> sint (word_of_int x :: 32 word) < 0"
proof -
  assume x: "2 ^ 31 \<le> x" "x < 2 ^ 32"
  have "(x + 2 ^ 31) mod 2 ^ 32 = (x + 2 ^ 31 - 2 ^ 32) mod 2 ^ 32"
    by (rule minus_mod_self2 [symmetric])
  also have "\<dots> = x + 2 ^ 31 - 2 ^ 32" using x by (intro mod_pos_pos_trivial) simp_all
  finally show ?thesis using x by (simp add: int_word_sint)
qed

text \<open>A node that has not answered for more than the timeout is not loyal, as long as the time fits 32 bits.\<close>

lemma not_loyal:
  assumes "ni_heartbeat nd \<le> since" "since < local_time s" "heartbeat_period opt > 0"
    and "election_timeout_min opt div heartbeat_period opt \<le> int (local_time s) - int since"
    and "heartbeat_period opt * (int (local_time s) - int (ni_heartbeat nd) + 1) < 2 ^ 31"
  shows "\<not> time_from_loyalty_vote opt s nd \<le> election_timeout_min opt"
proof -
  let ?p = "heartbeat_period opt" and ?d = "int (local_time s) - int (ni_heartbeat nd) + 1"
  have "0 \<le> ?p * ?d" using assms(1-3) by simp
  then have "time_from_loyalty_vote opt s nd = ?p * ?d"
    using sint_small [OF _ assms(5)] by (simp add: time_from_loyalty_vote_def)
  moreover have "election_timeout_min opt < ?p * (election_timeout_min opt div ?p + 1)"
  proof -
    have "election_timeout_min opt = ?p * (election_timeout_min opt div ?p) + election_timeout_min opt mod ?p"
      by simp
    then show ?thesis
      using pos_mod_bound [OF assms(3), of "election_timeout_min opt"] unfolding distrib_left by linarith
  qed
  moreover have "?p * (election_timeout_min opt div ?p + 1) \<le> ?p * ?d"
    using assms(1,3,4) by (intro mult_left_mono) auto
  ultimately show ?thesis by linarith
qed

lemma lone_count:
  assumes "\<And>j. j < length (node s) \<Longrightarrow> j \<noteq> k \<Longrightarrow>
      \<not> time_from_loyalty_vote opt s (node s ! j) \<le> election_timeout_min opt"
  shows "voteCount opt s True \<le> 1"
proof -
  have "{j. j < length (node s) \<and> time_from_loyalty_vote opt s (node s ! j) \<le> election_timeout_min opt} \<subseteq> {k}"
    using assms by blast
  then have "card {j. j < length (node s) \<and> time_from_loyalty_vote opt s (node s ! j) \<le> election_timeout_min opt} \<le> card {k}"
    by (rule card_mono [OF finite.insertI [OF finite.emptyI]])
  then show ?thesis by (simp add: voteCount_def length_filter_conv_card)
qed

text \<open>
  A president that nobody has answered since time \<open>since\<close>, and the number of heartbeats it has left:
  those until the silence exceeds the timeout, and the grace period.
\<close>

definition cut_off :: "options \<Rightarrow> nat \<Rightarrow> nat \<Rightarrow> raft \<Rightarrow> bool" where
  "cut_off opt since horizon s \<longleftrightarrow> type s = Leader \<and> president s \<and> since \<le> local_time s \<and>
     (\<forall>j < length (node s). j \<noteq> self s \<longrightarrow> ni_heartbeat (node s ! j) \<le> since \<and>
        heartbeat_period opt * (int horizon - int (ni_heartbeat (node s ! j)) + 1) < 2 ^ 31)"

definition beats_left :: "options \<Rightarrow> nat \<Rightarrow> raft \<Rightarrow> nat" where
  "beats_left opt since s =
     (let silent = since + nat (election_timeout_min opt div heartbeat_period opt)
      in (silent - 1 - local_time s)
         + max 1 (if local_time s + 1 < silent then quorum_loss_grace_heartbeats opt
                  else quorum_loss_grace_heartbeats opt - quorum_loss_streak s))"

lemma cut_off_beat:
  assumes c: "cut_off opt since horizon s" and "heartbeat_period opt > 0" "election_timeout_min opt \<ge> 0" "quorum opt > 1" "local_time s < horizon"
  shows "\<exists>s' eff. heartbeat opt s = Some (s', eff) \<and>
     (type s' = Follower \<and> \<not> president s'
      \<or> cut_off opt since horizon s' \<and> local_time s' = local_time s + 1 \<and> beats_left opt since s' < beats_left opt since s)"
proof -
  define silent where "silent = since + nat (election_timeout_min opt div heartbeat_period opt)"
  define s1 where "s1 = s\<lparr>local_time := local_time s + 1,
      node := (node s)[self s := (node s ! self s)\<lparr>ni_heartbeat := local_time s + 1\<rparr>]\<rparr>"
  define q where "q \<longleftrightarrow> type s1 = Leader \<and> voteCount opt s1 True \<ge> quorum opt"
  have c1: "cut_off opt since horizon (s1\<lparr>quorum_loss_streak := k\<rparr>)" for k
    using c by (auto simp: cut_off_def s1_def nth_list_update)
  have nq: "\<not> q" if "silent \<le> local_time s + 1"
  proof -
    have "voteCount opt s1 True \<le> 1"
    proof (rule lone_count [where k = "self s"])
      fix j assume j: "j < length (node s1)" "j \<noteq> self s"
      then have nd: "node s1 ! j = node s ! j" by (simp add: s1_def)
      have "heartbeat_period opt * (int (local_time s1) - int (ni_heartbeat (node s ! j)) + 1)
          \<le> heartbeat_period opt * (int horizon - int (ni_heartbeat (node s ! j)) + 1)"
        using assms(2,5) by (intro mult_left_mono) (auto simp: s1_def)
      also have "\<dots> < 2 ^ 31" using c j by (auto simp: cut_off_def s1_def)
      finally show "\<not> time_from_loyalty_vote opt s1 (node s1 ! j) \<le> election_timeout_min opt"
        using c j that assms(2,3) unfolding nd
        by (intro not_loyal [where since = since]) (auto simp: cut_off_def s1_def silent_def)
    qed
    then show ?thesis using assms(4) by (simp add: q_def)
  qed
  have hb: "heartbeat opt s = (if \<not> q
      then let s2 = s1\<lparr>quorum_loss_streak := quorum_loss_streak s + 1\<rparr>
           in if quorum_loss_streak s + 1 < quorum_loss_grace_heartbeats opt
              then Some (s2, sendHeartbeat s2) else Some (stepDownToFollower s2 True 0)
      else Some (s1\<lparr>quorum_loss_streak := 0\<rparr>, sendHeartbeat (s1\<lparr>quorum_loss_streak := 0\<rparr>)))"
    using c by (simp add: heartbeat_def Let_def s1_def q_def cut_off_def)
  have left: "beats_left opt since (s1\<lparr>quorum_loss_streak := k\<rparr>) < beats_left opt since s"
    if "local_time s + 1 < silent \<or> k = quorum_loss_streak s + 1 \<and> k < quorum_loss_grace_heartbeats opt" for k
    using that by (auto simp: beats_left_def s1_def Let_def silent_def [symmetric])
  consider "q" | "\<not> q" "quorum_loss_streak s + 1 < quorum_loss_grace_heartbeats opt"
    | "\<not> q" "\<not> quorum_loss_streak s + 1 < quorum_loss_grace_heartbeats opt" by blast
  then show ?thesis
  proof cases
    case 1
    then have "local_time s + 1 < silent" using nq by force
    then show ?thesis using 1 hb c1 [of 0] left [of 0] by (simp add: s1_def)
  next
    case 2
    then show ?thesis using hb c1 left [of "quorum_loss_streak s + 1"] by (simp add: Let_def s1_def)
  next
    case 3
    then show ?thesis using hb by (simp add: Let_def stepDownToFollower_def)
  qed
qed

lemma cut_off_beats:
  assumes "cut_off opt since horizon s" "heartbeat_period opt > 0" "election_timeout_min opt \<ge> 0" "quorum opt > 1"
    and "beats_left opt since s \<le> k" "local_time s + k \<le> horizon"
  shows "\<exists>s'. beats opt k s = Some s' \<and> type s' = Follower \<and> \<not> president s'"
  using assms
proof (induction k arbitrary: s)
  case 0
  then show ?case by (simp add: beats_left_def Let_def)
next
  case (Suc k)
  obtain s' eff where s': "heartbeat opt s = Some (s', eff)"
    "type s' = Follower \<and> \<not> president s'
      \<or> cut_off opt since horizon s' \<and> local_time s' = local_time s + 1 \<and> beats_left opt since s' < beats_left opt since s"
    using cut_off_beat [OF Suc.prems(1-4)] Suc.prems(6) by auto
  then show ?case using Suc.IH [of s'] beats_follower [of s' opt k] Suc.prems by auto
qed

section \<open>Roles of a node\<close>

definition role_step :: "bool \<Rightarrow> raft \<Rightarrow> raft \<Rightarrow> bool" where
  "role_step alone s s' \<longleftrightarrow> current_term s \<le> current_term s'
     \<and> (current_term s' = current_term s \<longrightarrow> (type s' = Candidate \<longrightarrow> type s = Candidate)
          \<and> (type s' = Leader \<longrightarrow> type s \<noteq> Follower))
     \<and> (current_term s < current_term s' \<and> type s' = Leader \<longrightarrow> alone)"

lemma role_stepI: "current_term s' = current_term s \<Longrightarrow> type s' = type s \<or> type s' = Follower \<Longrightarrow> role_step alone s s'"
  by (auto simp: role_step_def)

lemma role_step_Follower: "current_term s \<le> current_term s' \<Longrightarrow> type s' = Follower \<Longrightarrow> role_step alone s s'"
  by (simp add: role_step_def)

text \<open>The term may first rise, to a follower of the new term, which then acts within it.\<close>

lemma role_step_rise:
  "current_term s < current_term s1 \<Longrightarrow> type s1 = Follower \<Longrightarrow> role_step alone s1 s' \<Longrightarrow> current_term s' = current_term s1
     \<Longrightarrow> type s' = Follower \<Longrightarrow> role_step alone s s'"
  by (simp add: role_step_def)

lemma role_stepDown: "role_step alone s (fst (stepDownToFollower s d t))" if "t = 0 \<or> current_term s < t"
  using that by (auto simp: stepDownToFollower_def intro!: role_step_Follower)

lemma role_heartbeat: "heartbeat opt s = Some r \<Longrightarrow> role_step alone s (fst r)"
  by (auto simp: heartbeat_def Let_def stepDownToFollower_def split: if_splits intro!: role_stepI)

lemma role_rpcAppend:
  "rpcAppend opt ver s j t tm v = Some r \<Longrightarrow> role_step alone s (fst r) \<and> current_term (fst r) = current_term s
     \<and> (type s = Follower \<longrightarrow> type (fst r) = Follower)"
  by (auto simp: rpcAppend_def Let_def role_step_def split: if_splits)

lemma role_rpcReqVote:
  "role_step alone s (fst (rpcReqVote opt ver s j t tm v)) \<and> current_term (fst (rpcReqVote opt ver s j t tm v)) = current_term s
     \<and> type (fst (rpcReqVote opt ver s j t tm v)) = type s"
  by (auto simp: rpcReqVote_def Let_def intro!: role_stepI)

lemma role_rpcReqVoteResponse:
  "role_step alone s (fst (rpcReqVoteResponse opt s j t b)) \<and> current_term (fst (rpcReqVoteResponse opt s j t b)) = current_term s
     \<and> (type s = Follower \<longrightarrow> type (fst (rpcReqVoteResponse opt s j t b)) = Follower)"
  by (auto simp: rpcReqVoteResponse_def Let_def role_step_def)

lemma role_rpcAppendResponse:
  "role_step alone s (rpcAppendResponse s j t rt v) \<and> current_term (rpcAppendResponse s j t rt v) = current_term s
     \<and> type (rpcAppendResponse s j t rt v) = type s"
  by (auto simp: rpcAppendResponse_def role_step_def)

lemma role_receivePacket:
  assumes "receivePacket opt ver s j p = Some r"
  shows "role_step alone s (fst r)"
proof -
  obtain s1 eff where c: "checkTerm s (packet_term p) = Some (s1, eff)"
    using assms by (auto simp: receivePacket_def split: option.splits)
  have s1: "s1 = s \<or> current_term s < current_term s1 \<and> type s1 = Follower"
    using c by (auto simp: checkTerm_def stepDownToFollower_def split: if_splits)
  have "role_step alone s1 (fst r) \<and> current_term (fst r) = current_term s1 \<and> (type s1 = Follower \<longrightarrow> type (fst r) = Follower)"
  proof (cases p)
    case (AppendEntries t m tm v)
    then obtain r' where "rpcAppend opt ver s1 j t tm v = Some r'" "fst r = fst r'"
      using assms c by (auto simp: receivePacket_def)
    then show ?thesis using role_rpcAppend by metis
  next
    case (RequestVote t m tm v)
    then have "fst r = fst (rpcReqVote opt ver s1 j t tm v)"
      using assms c by (auto simp: receivePacket_def split: prod.splits)
    then show ?thesis using role_rpcReqVote by metis
  next
    case (AEResponse t b tm v)
    then have "fst r = rpcAppendResponse s1 j t tm v" using assms c by (auto simp: receivePacket_def)
    then show ?thesis using role_rpcAppendResponse by metis
  next
    case (RVResponse t b tm v)
    then have "fst r = fst (rpcReqVoteResponse opt s1 j t b)"
      using assms c by (auto simp: receivePacket_def split: prod.splits)
    then show ?thesis using role_rpcReqVoteResponse by metis
  qed
  then show ?thesis using s1 role_step_rise by blast
qed

lemma role_electionTimeout: "role_step (quorum opt \<le> 1) s (fst (electionTimeout opt ver s))"
  by (auto simp: electionTimeout_def Let_def role_step_def)

lemma role_raft_step:
  assumes "raft_step opt n c c'" "i < n"
  shows "role_step (quorum (opt i) \<le> 1) (server c i) (server c' i)"
proof -
  have refl: "role_step alone s s" for alone s by (simp add: role_step_def)
  show ?thesis using assms(1)
  proof cases
    case (deliver j k p ver r)
    then show ?thesis using refl role_receivePacket by (simp add: update_def)
  next
    case (timeout k ver)
    then show ?thesis using refl role_electionTimeout [of "opt i"] by (auto simp: update_def)
  next
    case (beat k r)
    then show ?thesis using refl role_heartbeat by (simp add: update_def)
  next
    case (expire k)
    then show ?thesis by (simp add: update_def loyalty_expired_def role_step_def)
  next
    case (demote k)
    then show ?thesis using refl role_stepDown by (simp add: update_def demoteLeader_def)
  next
    case (block k b)
    then show ?thesis by (simp add: update_def set_block_promotion_def role_step_def)
  qed
qed

section \<open>Correctness of the election\<close>

text \<open>
  C2: in every state the cluster can reach, whatever packets are lost, delayed, duplicated or
  reordered and whenever timers fire, two nodes that lead in the same term are the same node.
\<close>

theorem leader_unique:
  assumes "raft_reachable opt n c" "\<forall>i < n. quorum (opt i) = init_quorum n" "i < n" "j < n"
    and "type (server c i) = Leader" "type (server c j) = Leader"
    and "current_term (server c i) = current_term (server c j)"
  shows "i = j"
proof (cases "n > 1")
  case True
  then obtain B where "cluster_wf n B c" using reachable_wf [OF assms(1)] assms(2) by blast
  then show ?thesis by (rule same_term_leaders [OF _ assms(3-7)])
next
  case False
  then show ?thesis using assms(3,4) by simp
qed

theorem leader_unique_witness:
  defines "c \<equiv> as_cluster (\<lambda>_. three_options) 3 after_two_elections"
  shows "{j. j < 3 \<and> type (server c j) = Leader \<and> current_term (server c j) = 1} = {0}"
proof -
  have r: "raft_reachable (\<lambda>_. three_options) 3 c"
    unfolding c_def by (rule run_init_reachable [OF two_elections(1)])
  have q: "\<forall>i < 3. quorum three_options = init_quorum 3" by (simp add: three_options_def init_quorum_def)
  have s0: "type (server c 0) = Leader" "current_term (server c 0) = 1"
    unfolding c_def by code_simp+
  then show ?thesis using leader_unique [OF r q, of _ 0] by auto
qed

text \<open>
  C19: in every step of the cluster the term of a node never decreases; within one term a node becomes
  candidate only from candidate and leader only from candidate or leader, so that a leader that stepped
  down never leads that term again; and a node enters a higher term as its leader only with a quorum
  of one, where an election timeout wins the election at once.
\<close>

theorem role_transitions:
  assumes "raft_step opt n c c'" "i < n"
  shows "current_term (server c i) \<le> current_term (server c' i)
     \<and> (current_term (server c' i) = current_term (server c i) \<longrightarrow>
          (type (server c' i) = Candidate \<longrightarrow> type (server c i) = Candidate)
          \<and> (type (server c' i) = Leader \<longrightarrow> type (server c i) \<in> {Candidate, Leader}))
     \<and> (current_term (server c i) < current_term (server c' i) \<and> type (server c' i) = Leader \<longrightarrow> quorum (opt i) \<le> 1)"
proof -
  have "role_step (quorum (opt i) \<le> 1) (server c i) (server c' i)" by (rule role_raft_step [OF assms])
  then show ?thesis by (cases "type (server c i)") (auto simp: role_step_def)
qed

theorem role_transitions_witness:
  defines "c \<equiv> as_cluster (\<lambda>_. three_options) 3 after_two_elections"
  shows "raft_step (\<lambda>_. three_options) 3 c (update c 0 (demoteLeader (server c 0)))
    \<and> current_term (server c 0) \<le> current_term (server (update c 0 (demoteLeader (server c 0))) 0)"
proof -
  have s: "raft_step (\<lambda>_. three_options) 3 c (update c 0 (demoteLeader (server c 0)))"
    by (rule raft_step.demote) simp
  show ?thesis using s role_transitions [OF s, of 0] by simp
qed

text \<open>
  C27: no reachable state fails the assertions of the heartbeat and of the term check; a received
  packet fails an assertion exactly when it is a heartbeat of a term not above the own term and the
  receiver is leader.
\<close>

theorem receive_aborts_iff:
  assumes "raft_reachable opt n c" "\<forall>i < n. quorum (opt i) = init_quorum n" "n > 1" "i < n"
  shows "(\<exists>r. heartbeat (opt i) (server c i) = Some r)
     \<and> (receivePacket (opt i) ver (server c i) j p = None \<longleftrightarrow>
          type (server c i) = Leader \<and> (\<exists>t m tm v. p = AppendEntries t m tm v \<and> t \<le> current_term (server c i)))"
proof -
  obtain B where "cluster_wf n B c" using reachable_wf [OF assms(1)] assms(2,3) by blast
  then have wf: "node_wf n (lead c) B i (server c i)" "one_vote B" using assms(4) by (auto simp: cluster_wf_def)
  have np: "\<not> (president (server c i) \<and> type (server c i) = Follower)" using wf(1) by (auto simp: node_wf_def shape_wf_def)
  have "receivePacket (opt i) ver (server c i) j p = None \<longleftrightarrow>
      type (server c i) = Leader \<and> (\<exists>t m tm v. p = AppendEntries t m tm v \<and> t \<le> current_term (server c i))"
    using np by (cases p) (auto simp: receivePacket_def checkTerm_def rpcAppend_def stepDownToFollower_def Let_def)
  then show ?thesis using heartbeat_good [OF wf assms(4)] by blast
qed

theorem receive_aborts_iff_witness:
  defines "c \<equiv> as_cluster (\<lambda>_. three_options) 3 after_two_elections"
  shows "\<exists>r. receivePacket three_options 0 (server c 1) 2 (AEResponse 2 True 21 0) = Some r"
proof -
  have r: "raft_reachable (\<lambda>_. three_options) 3 c"
    unfolding c_def by (rule run_init_reachable [OF two_elections(1)])
  show ?thesis
    using receive_aborts_iff [OF r, of 1 0 2 "AEResponse 2 True 21 0"] by (auto simp: three_options_def init_quorum_def)
qed

text \<open>
  C34: that case is reachable with a correct configuration: after two elections, the heartbeat that
  the leader of term 1 has sent arrives at the leader of term 2 and fails the assertion of
  \<^const>\<open>rpcAppend\<close>, which is evaluated before the comparison of the terms.
\<close>

theorem stale_heartbeat_aborts_leader:
  "\<exists>c p. raft_reachable (\<lambda>_. three_options) 3 c \<and> quorum three_options = init_quorum 3
     \<and> (0, 1, p) \<in> net c \<and> packet_term p < current_term (server c 1)
     \<and> receivePacket three_options ver (server c 1) 0 p = None"
proof -
  let ?c = "as_cluster (\<lambda>_. three_options) 3 after_two_elections" and ?p = "AppendEntries 1 0 21 0"
  have "raft_reachable (\<lambda>_. three_options) 3 ?c" by (rule run_init_reachable [OF two_elections(1)])
  moreover have "(0, 1, ?p) \<in> net ?c" using two_elections(4) by (simp add: as_cluster_def)
  moreover have s: "type (server ?c 1) = Leader" "current_term (server ?c 1) = 2" by code_simp+
  moreover have "receivePacket three_options ver (server ?c 1) 0 ?p = None"
    using s by (simp add: receivePacket_def checkTerm_def rpcAppend_def)
  moreover have "quorum three_options = init_quorum 3" by (simp add: three_options_def init_quorum_def)
  ultimately show ?thesis by (intro exI [of _ ?c] exI [of _ ?p]) simp
qed

text \<open>
  C28: a president that nobody answers any more steps down: after the number of heartbeats in the
  election timeout and the grace period it is a follower and not president, provided that the silence
  of the others, in milliseconds, still fits 31 bits.
\<close>

theorem silent_cluster_demotes_president:
  assumes "type s = Leader" "president s" "quorum opt > 1" "heartbeat_period opt > 0" "election_timeout_min opt \<ge> 0"
    and "k = nat (election_timeout_min opt div heartbeat_period opt) + max 1 (quorum_loss_grace_heartbeats opt)"
    and "\<forall>j < length (node s). j \<noteq> self s \<longrightarrow> ni_heartbeat (node s ! j) \<le> local_time s \<and>
        heartbeat_period opt * (int (local_time s + k) - int (ni_heartbeat (node s ! j)) + 1) < 2 ^ 31"
  shows "\<exists>s'. beats opt k s = Some s' \<and> type s' = Follower \<and> \<not> president s'"
proof (rule cut_off_beats)
  show "cut_off opt (local_time s) (local_time s + k) s" using assms(1,2,7) by (auto simp: cut_off_def)
  show "beats_left opt (local_time s) s \<le> k" using assms(6) by (auto simp: beats_left_def Let_def)
qed (use assms in simp_all)

definition lonely_president :: raft where
  "lonely_president = (init_node three_options 3 0)\<lparr>type := Leader, president := True\<rparr>"

theorem silent_cluster_demotes_president_witness:
  "\<exists>s'. beats three_options 25 lonely_president = Some s' \<and> type s' = Follower \<and> \<not> president s'"
  by (rule silent_cluster_demotes_president)
    (simp_all add: lonely_president_def three_options_def init_node_def nth_Cons' numeral_3_eq_3)

text \<open>
  C35: a node that has been dead for so long that the silence in milliseconds, read as a 32-bit
  signed integer, is negative counts as loyal again: a president with a quorum of two that hears
  from nobody keeps its role because of one such node.
\<close>

theorem long_dead_node_counts_as_loyal:
  assumes "type s = Leader" "president s" "quorum opt = 2" "self s < length (node s)" "j < length (node s)" "j \<noteq> self s"
    and "heartbeat_period opt \<le> election_timeout_min opt" "0 \<le> heartbeat_period opt" "heartbeat_period opt < 2 ^ 31"
    and "2 ^ 31 \<le> heartbeat_period opt * (int (local_time s) + 2 - int (ni_heartbeat (node s ! j)))"
    and "heartbeat_period opt * (int (local_time s) + 2 - int (ni_heartbeat (node s ! j))) < 2 ^ 32"
  shows "\<exists>s' eff. heartbeat opt s = Some (s', eff) \<and> president s' \<and> quorum_loss_streak s' = 0"
proof -
  define s1 where "s1 = s\<lparr>local_time := local_time s + 1,
      node := (node s)[self s := (node s ! self s)\<lparr>ni_heartbeat := local_time s + 1\<rparr>]\<rparr>"
  have "time_from_loyalty_vote opt s1 (node s1 ! self s) = heartbeat_period opt"
    using sint_small [OF assms(8,9)] assms(4) by (simp add: time_from_loyalty_vote_def s1_def)
  moreover have "time_from_loyalty_vote opt s1 (node s1 ! j) < 0"
    using sint_wrapped [OF assms(10,11)] assms(6) by (simp add: time_from_loyalty_vote_def s1_def algebra_simps)
  ultimately have "{self s, j} \<subseteq> {w. w < length (node s1) \<and>
      time_from_loyalty_vote opt s1 (node s1 ! w) \<le> election_timeout_min opt}"
    using assms(4-8) by (auto simp: s1_def)
  then have "card {self s, j} \<le> voteCount opt s1 True"
    unfolding voteCount_def length_filter_conv_card by (intro card_mono) simp_all
  then have "quorum opt \<le> voteCount opt s1 True" using assms(3,6) by simp
  then show ?thesis using assms(1,2) by (simp add: heartbeat_def Let_def s1_def)
qed

theorem long_dead_node_counts_as_loyal_witness:
  "\<exists>s' eff. heartbeat three_options (lonely_president\<lparr>local_time := 110000000\<rparr>) = Some (s', eff)
     \<and> president s' \<and> quorum_loss_streak s' = 0"
  by (rule long_dead_node_counts_as_loyal [where j = 1])
    (simp_all add: lonely_president_def three_options_def init_node_def numeral_3_eq_3)

end
