(* ===== verification/URaftController.thy ===== *)
theory URaftController
  imports URaft
begin

text \<open>
  The controller that switches the local metadata server between master and shadow when uRaft elects
  or dismisses the node: \<^verbatim>\<open>uRaftController\<close> of
  \<^verbatim>\<open>src/src/uraft/uraftcontroller.h\<close> and \<^verbatim>\<open>uraftcontroller.cc\<close>.

  The helper scripts are outside of the model: the result of \<^verbatim>\<open>fork\<close>, the exit status of
  the running script and the output of the health check are arguments of the handlers. A timer is a
  flag that says whether it runs. The handlers of uRaft call the notification functions at their end,
  so that they are applied to the list of effects the handler returns.
\<close>

section \<open>State\<close>

datatype command = CmdNone | CmdPromote | CmdDemote | CmdStatusDead

record controller =
  uraft :: raft
  command_pid :: int
  command_type :: command
  is_demote_pending :: bool
  is_promote_pending :: bool
  node_alive :: bool
  promotion_failure_streak :: int
  promotion_backoff_active :: bool
  dead_recovery_pending :: bool
  floating_ip_manager :: bool
  cmd_timeout_timer :: bool
  promotion_backoff_timer :: bool
  dead_recovery_timer :: bool

definition init_controller :: "options \<Rightarrow> nat \<Rightarrow> nat \<Rightarrow> controller" where
  "init_controller opt n i =
     \<lparr>uraft = set_block_promotion True (init_node opt n i), command_pid = -1, command_type = CmdNone,
      is_demote_pending = False, is_promote_pending = False, node_alive = False,
      promotion_failure_streak = 0, promotion_backoff_active = False, dead_recovery_pending = False,
      floating_ip_manager = False, cmd_timeout_timer = False, promotion_backoff_timer = False,
      dead_recovery_timer = False\<rparr>"

section \<open>Operations\<close>

definition runSlowCommand :: "int \<Rightarrow> command \<Rightarrow> controller \<Rightarrow> controller" where
  "runSlowCommand pid cmd c =
     (let c1 = c\<lparr>command_pid := pid\<rparr> in if pid = -1 then c1 else c1\<lparr>command_type := cmd\<rparr>)"

definition stopSlowCommand :: "controller \<Rightarrow> controller" where
  "stopSlowCommand c = (if command_pid c < 0 then c else c\<lparr>command_pid := -1, command_type := CmdNone\<rparr>)"

definition startFloatingIpManager :: "controller \<Rightarrow> controller" where
  "startFloatingIpManager c = c\<lparr>floating_ip_manager := True\<rparr>"

definition stopFloatingIpManager :: "controller \<Rightarrow> controller" where
  "stopFloatingIpManager c = c\<lparr>floating_ip_manager := False\<rparr>"

definition nodePromote :: "int \<Rightarrow> controller \<Rightarrow> controller" where
  "nodePromote pid c =
     (if promotion_backoff_active c then c
      else if command_pid c \<ge> 0
      then if command_type c = CmdDemote then c\<lparr>is_promote_pending := True\<rparr> else c
      else runSlowCommand pid CmdPromote (c\<lparr>cmd_timeout_timer := True\<rparr>))"

definition nodeDemote :: "int \<Rightarrow> controller \<Rightarrow> controller" where
  "nodeDemote pid c =
     (let c1 = stopFloatingIpManager c
      in if command_pid c1 \<ge> 0
         then if command_type c1 = CmdPromote then c1\<lparr>is_demote_pending := True\<rparr> else c1
         else runSlowCommand pid CmdDemote (c1\<lparr>cmd_timeout_timer := True\<rparr>))"

definition computePromotionBackoffMs :: "controller \<Rightarrow> int" where
  "computePromotionBackoffMs c =
     (if promotion_failure_streak c \<le> 0 then 0
      else min (1000 * 2 ^ nat (min (promotion_failure_streak c - 1) 6)) 60000)"

definition startPromotionBackoff :: "bool \<Rightarrow> controller \<Rightarrow> controller" where
  "startPromotionBackoff reset c =
     (if reset
      then c\<lparr>promotion_failure_streak := 0, promotion_backoff_active := False, promotion_backoff_timer := False\<rparr>
      else
        let c1 = c\<lparr>promotion_failure_streak := promotion_failure_streak c + 1\<rparr>
        in if computePromotionBackoffMs c1 \<le> 0 then c1
           else c1\<lparr>promotion_backoff_active := True, uraft := set_block_promotion True (uraft c1),
                   promotion_backoff_timer := True\<rparr>)"

definition handlePromotionFailure :: "controller \<Rightarrow> controller" where
  "handlePromotionFailure c =
     startPromotionBackoff False (c\<lparr>uraft := fst (demoteLeader (uraft c)), is_demote_pending := True\<rparr>)"

text \<open>\<open>status\<close> is what \<^verbatim>\<open>waitpid\<close> reports: nothing, or whether the script succeeded.\<close>

definition checkSlowCommand :: "bool option \<Rightarrow> controller \<Rightarrow> bool option" where
  "checkSlowCommand status c = (if command_pid c < 0 then None else status)"

definition no_command :: "controller \<Rightarrow> controller" where
  "no_command c = c\<lparr>command_type := CmdNone, command_pid := -1\<rparr>"

definition checkCommandStatus :: "int \<Rightarrow> bool option \<Rightarrow> controller \<Rightarrow> controller" where
  "checkCommandStatus pid status c =
     (case checkSlowCommand status c of
        None \<Rightarrow> c
      | Some commandSucceeded \<Rightarrow>
          let c1 = c\<lparr>cmd_timeout_timer := False\<rparr>
          in case command_type c1 of
               CmdDemote \<Rightarrow>
                 (let c2 = no_command c1
                  in if is_promote_pending c2
                     then (if type (uraft c2) = Leader then nodePromote pid c2 else c2)\<lparr>is_promote_pending := False\<rparr>
                     else c2)
             | CmdPromote \<Rightarrow>
                 (let c2 = (if commandSucceeded
                            then let c3 = startPromotionBackoff True c1
                                 in if type (uraft c3) = Leader then startFloatingIpManager c3 else nodeDemote pid c3
                            else handlePromotionFailure c1);
                      c4 = no_command c2
                  in if is_demote_pending c4
                     then (if type (uraft c4) \<noteq> Leader then nodeDemote pid c4 else c4)\<lparr>is_demote_pending := False\<rparr>
                     else c4)
             | CmdStatusDead \<Rightarrow> no_command c1
             | CmdNone \<Rightarrow> c1)"

definition startDeadMetadataHandler :: "int \<Rightarrow> controller \<Rightarrow> controller" where
  "startDeadMetadataHandler pid c =
     (let c1 = stopFloatingIpManager c
      in if command_pid c1 \<ge> 0 then c1 else runSlowCommand pid CmdStatusDead (c1\<lparr>cmd_timeout_timer := True\<rparr>))"

definition cancelDeadRecovery :: "controller \<Rightarrow> controller" where
  "cancelDeadRecovery c = c\<lparr>dead_recovery_pending := False, dead_recovery_timer := False\<rparr>"

definition scheduleDeadRecovery :: "controller \<Rightarrow> controller" where
  "scheduleDeadRecovery c =
     (if dead_recovery_pending c then c else c\<lparr>dead_recovery_pending := True, dead_recovery_timer := True\<rparr>)"

text \<open>The callback of the recovery timer.\<close>

definition deadRecoveryTimeout :: "int \<Rightarrow> controller \<Rightarrow> controller" where
  "deadRecoveryTimeout pid c =
     (let c1 = c\<lparr>dead_recovery_timer := False\<rparr>
      in if node_alive c1 then cancelDeadRecovery c1
         else if command_pid c1 \<ge> 0 \<or> command_type c1 \<noteq> CmdNone then scheduleDeadRecovery (cancelDeadRecovery c1)
         else nodeDemote pid (c1\<lparr>dead_recovery_pending := False\<rparr>))"

text \<open>\<open>result\<close> is the output of the health check, nothing when it timed out.\<close>

definition checkNodeStatus :: "int \<Rightarrow> string option \<Rightarrow> controller \<Rightarrow> controller" where
  "checkNodeStatus pid result c =
     (if command_type c = CmdNone
      then
        let is_alive = (case result of
                          Some r \<Rightarrow> if r = ''alive'' \<or> r = ''dead'' then r = ''alive'' else node_alive c
                        | None \<Rightarrow> node_alive c);
            c1 = c\<lparr>uraft := set_block_promotion (\<not> is_alive \<or> promotion_backoff_active c) (uraft c)\<rparr>
        in if is_alive \<noteq> node_alive c1
           then (if is_alive then cancelDeadRecovery c1
                 else scheduleDeadRecovery (startDeadMetadataHandler pid
                        (c1\<lparr>uraft := fst (stepDownToFollower (uraft c1) False 0)\<rparr>)))\<lparr>node_alive := is_alive\<rparr>
           else c1
      else c)"

text \<open>The callbacks of the command timer and of the backoff timer.\<close>

definition slowCommandTimeout :: "controller \<Rightarrow> controller" where
  "slowCommandTimeout c =
     (let c1 = c\<lparr>cmd_timeout_timer := False\<rparr>
      in stopSlowCommand (if command_type c1 = CmdPromote then handlePromotionFailure c1 else c1))"

definition promotionBackoffTimeout :: "controller \<Rightarrow> controller" where
  "promotionBackoffTimeout c = c\<lparr>promotion_backoff_active := False, promotion_backoff_timer := False\<rparr>"

section \<open>Events of a node\<close>

fun notify :: "int \<Rightarrow> effect \<Rightarrow> controller \<Rightarrow> controller" where
  "notify pid NodePromote c = nodePromote pid c"
| "notify pid NodeDemote c = nodeDemote pid c"
| "notify pid (NodeLeader _) c = c"
| "notify pid (Send _ _) c = c"

datatype event =
    Packet nat packet
  | ElectionTimeout
  | Heartbeat
  | LoyaltyExpired
  | CommandStatus "bool option"
  | NodeStatus "string option"
  | CommandTimeout
  | DeadRecoveryTimeout
  | BackoffTimeout

text \<open>In elector mode the timers of the command and node checks are not started.\<close>

fun enabled :: "options \<Rightarrow> event \<Rightarrow> controller \<Rightarrow> bool" where
  "enabled opt ElectionTimeout c = election_timer (uraft c)"
| "enabled opt (CommandStatus _) c = (\<not> elector opt)"
| "enabled opt (NodeStatus _) c = (\<not> elector opt)"
| "enabled opt CommandTimeout c = cmd_timeout_timer c"
| "enabled opt DeadRecoveryTimeout c = dead_recovery_timer c"
| "enabled opt BackoffTimeout c = promotion_backoff_timer c"
| "enabled opt _ c = True"

fun raft_handler :: "options \<Rightarrow> nat \<Rightarrow> event \<Rightarrow> raft \<Rightarrow> (raft \<times> effect list) option" where
  "raft_handler opt ver (Packet j p) s = receivePacket opt ver s j p"
| "raft_handler opt ver ElectionTimeout s = Some (electionTimeout opt ver s)"
| "raft_handler opt ver Heartbeat s = heartbeat opt s"
| "raft_handler opt ver LoyaltyExpired s = Some (loyalty_expired s, [])"
| "raft_handler opt ver _ s = Some (s, [])"

fun controller_handler :: "int \<Rightarrow> event \<Rightarrow> controller \<Rightarrow> controller" where
  "controller_handler pid (CommandStatus st) c = checkCommandStatus pid st c"
| "controller_handler pid (NodeStatus r) c = checkNodeStatus pid r c"
| "controller_handler pid CommandTimeout c = slowCommandTimeout c"
| "controller_handler pid DeadRecoveryTimeout c = deadRecoveryTimeout pid c"
| "controller_handler pid BackoffTimeout c = promotionBackoffTimeout c"
| "controller_handler pid _ c = c"

definition handle :: "options \<Rightarrow> nat \<Rightarrow> int \<Rightarrow> event \<Rightarrow> controller \<Rightarrow> (controller \<times> effect list) option" where
  "handle opt ver pid ev c =
     map_option (\<lambda>(s, eff). (controller_handler pid ev (fold (notify pid) eff (c\<lparr>uraft := s\<rparr>)), eff))
       (raft_handler opt ver ev (uraft c))"

text \<open>
  A node in an arbitrary environment: any packet may arrive, scripts end or fail as they like.
  \<^verbatim>\<open>fork\<close> returns \<open>-1\<close> or the process number of the child.
\<close>

inductive controller_reachable :: "options \<Rightarrow> nat \<Rightarrow> nat \<Rightarrow> controller \<Rightarrow> bool" for opt n i where
  start: "controller_reachable opt n i (init_controller opt n i)"
| event: "controller_reachable opt n i c \<Longrightarrow> pid = -1 \<or> pid > 0 \<Longrightarrow> enabled opt ev c \<Longrightarrow>
     handle opt ver pid ev c = Some (c', eff) \<Longrightarrow> controller_reachable opt n i c'"

section \<open>Invariant of the controller\<close>

definition ctl_wf :: "controller \<Rightarrow> bool" where
  "ctl_wf c \<longleftrightarrow> command_pid c \<ge> -1 \<and> promotion_failure_streak c \<ge> 0 \<and> (command_pid c \<ge> 0 \<longleftrightarrow> command_type c \<noteq> CmdNone)
     \<and> (command_type c \<noteq> CmdNone \<longrightarrow> cmd_timeout_timer c)
     \<and> (floating_ip_manager c \<longrightarrow> command_type c \<in> {CmdNone, CmdPromote})
     \<and> (\<not> node_alive c \<or> promotion_backoff_active c \<longrightarrow> block_leader_promotion (uraft c))
     \<and> (promotion_backoff_active c \<longleftrightarrow> promotion_backoff_timer c)
     \<and> (dead_recovery_pending c \<longleftrightarrow> dead_recovery_timer c)"

lemmas ctl_ops = runSlowCommand_def stopSlowCommand_def startFloatingIpManager_def stopFloatingIpManager_def
  nodePromote_def nodeDemote_def startPromotionBackoff_def handlePromotionFailure_def no_command_def
  checkSlowCommand_def startDeadMetadataHandler_def cancelDeadRecovery_def scheduleDeadRecovery_def
  set_block_promotion_def

lemma init_ctl_wf: "ctl_wf (init_controller opt n i)"
  by (simp add: ctl_wf_def init_controller_def set_block_promotion_def)

lemma stepDown_block [simp]: "block_leader_promotion (fst (stepDownToFollower s d t)) = block_leader_promotion s"
  by (simp add: stepDownToFollower_def)

lemma demote_block [simp]: "block_leader_promotion (fst (demoteLeader s)) = block_leader_promotion s"
  by (simp add: demoteLeader_def)

lemma raft_handler_block:
  "raft_handler opt ver ev s = Some (s', eff) \<Longrightarrow> block_leader_promotion s' = block_leader_promotion s"
proof (cases ev)
  case (Packet j p)
  assume "raft_handler opt ver ev s = Some (s', eff)"
  then obtain s1 eff1 where c: "checkTerm s (packet_term p) = Some (s1, eff1)"
    and r: "receivePacket opt ver s j p = Some (s', eff)"
    using Packet by (auto simp: receivePacket_def split: option.splits)
  have "block_leader_promotion s1 = block_leader_promotion s"
    using c by (auto simp: checkTerm_def stepDownToFollower_def split: if_splits)
  moreover have "block_leader_promotion s' = block_leader_promotion s1"
    using c r by (cases p) (auto simp: receivePacket_def rpcAppend_def rpcReqVote_def rpcAppendResponse_def
        rpcReqVoteResponse_def Let_def split: if_splits)
  ultimately show ?thesis by simp
qed (auto simp: electionTimeout_def heartbeat_def loyalty_expired_def stepDownToFollower_def Let_def split: if_splits)

lemma nodePromote_wf: "ctl_wf c \<Longrightarrow> pid = -1 \<or> pid > 0 \<Longrightarrow> ctl_wf (nodePromote pid c)"
  by (auto simp: ctl_wf_def nodePromote_def runSlowCommand_def Let_def)

lemma nodeDemote_wf: "ctl_wf c \<Longrightarrow> pid = -1 \<or> pid > 0 \<Longrightarrow> ctl_wf (nodeDemote pid c)"
  by (auto simp: ctl_wf_def nodeDemote_def stopFloatingIpManager_def runSlowCommand_def Let_def)

lemma notify_wf: "ctl_wf c \<Longrightarrow> pid = -1 \<or> pid > 0 \<Longrightarrow> ctl_wf (fold (notify pid) eff c)"
proof (induction eff arbitrary: c)
  case (Cons e eff)
  then show ?case using nodePromote_wf nodeDemote_wf by (cases e) auto
qed simp

lemma slowCommandTimeout_wf: "ctl_wf c \<Longrightarrow> ctl_wf (slowCommandTimeout c)"
  by (auto simp: ctl_wf_def slowCommandTimeout_def stopSlowCommand_def handlePromotionFailure_def
      startPromotionBackoff_def set_block_promotion_def Let_def)

lemma checkNodeStatus_wf: "ctl_wf c \<Longrightarrow> pid = -1 \<or> pid > 0 \<Longrightarrow> ctl_wf (checkNodeStatus pid r c)"
  by (auto simp: ctl_wf_def checkNodeStatus_def ctl_ops Let_def split: option.splits if_splits)

lemma deadRecoveryTimeout_wf: "ctl_wf c \<Longrightarrow> pid = -1 \<or> pid > 0 \<Longrightarrow> ctl_wf (deadRecoveryTimeout pid c)"
  by (auto simp: ctl_wf_def deadRecoveryTimeout_def ctl_ops Let_def)

lemma pending_wf [simp]:
  "ctl_wf (c\<lparr>is_promote_pending := b\<rparr>) = ctl_wf c" "ctl_wf (c\<lparr>is_demote_pending := b\<rparr>) = ctl_wf c"
  by (simp_all add: ctl_wf_def)

text \<open>A finished command: what is left is well-formed without the command.\<close>

lemma finish_wf:
  "ctl_wf c \<Longrightarrow> ctl_wf (no_command (c\<lparr>cmd_timeout_timer := False\<rparr>))"
  "ctl_wf c \<Longrightarrow> ctl_wf (no_command (startFloatingIpManager (startPromotionBackoff True (c\<lparr>cmd_timeout_timer := False\<rparr>))))"
  "ctl_wf c \<Longrightarrow> ctl_wf (no_command (handlePromotionFailure (c\<lparr>cmd_timeout_timer := False\<rparr>)))"
  "ctl_wf c \<Longrightarrow> command_type c = CmdPromote \<Longrightarrow>
     ctl_wf (no_command (nodeDemote pid (startPromotionBackoff True (c\<lparr>cmd_timeout_timer := False\<rparr>))))"
  by (auto simp: ctl_wf_def ctl_ops Let_def)

lemma checkCommandStatus_wf:
  assumes c: "ctl_wf c" and pid: "pid = -1 \<or> pid > 0"
  shows "ctl_wf (checkCommandStatus pid st c)"
proof (cases "checkSlowCommand st c")
  case (Some ok)
  then have ne: "command_type c \<noteq> CmdNone" using c by (auto simp: checkSlowCommand_def ctl_wf_def split: if_splits)
  show ?thesis
  proof (cases "command_type c")
    case CmdDemote
    then show ?thesis
      using Some finish_wf(1) [OF c] nodePromote_wf [OF _ pid] by (simp add: checkCommandStatus_def Let_def)
  next
    case CmdPromote
    then show ?thesis
      using Some finish_wf [OF c] nodeDemote_wf [OF _ pid] by (simp add: checkCommandStatus_def Let_def)
  next
    case CmdStatusDead
    then show ?thesis using Some finish_wf(1) [OF c] by (simp add: checkCommandStatus_def Let_def)
  qed (use ne in simp)
qed (simp add: checkCommandStatus_def c)

lemma promotionBackoffTimeout_wf: "ctl_wf c \<Longrightarrow> ctl_wf (promotionBackoffTimeout c)"
  by (auto simp: ctl_wf_def promotionBackoffTimeout_def)

lemma handle_wf:
  assumes c: "ctl_wf c" and pid: "pid = -1 \<or> pid > 0" and h: "handle opt ver pid ev c = Some (c', eff)"
  shows "ctl_wf c'"
proof -
  obtain s where s: "raft_handler opt ver ev (uraft c) = Some (s, eff)"
    and c': "c' = controller_handler pid ev (fold (notify pid) eff (c\<lparr>uraft := s\<rparr>))"
    using h by (auto simp: handle_def)
  have "ctl_wf (c\<lparr>uraft := s\<rparr>)" using c raft_handler_block [OF s] by (simp add: ctl_wf_def)
  then have "ctl_wf (fold (notify pid) eff (c\<lparr>uraft := s\<rparr>))" by (rule notify_wf [OF _ pid])
  then show ?thesis
    unfolding c' using checkCommandStatus_wf checkNodeStatus_wf slowCommandTimeout_wf deadRecoveryTimeout_wf
      promotionBackoffTimeout_wf pid by (cases ev) auto
qed

lemma controller_reachable_wf: "controller_reachable opt n i c \<Longrightarrow> ctl_wf c"
  by (induction rule: controller_reachable.induct) (auto simp: init_ctl_wf intro: handle_wf)

text \<open>A president leads, and the election timer of a leader is stopped.\<close>

definition calm :: "raft \<Rightarrow> bool" where
  "calm s \<longleftrightarrow> (president s \<longrightarrow> type s = Leader) \<and> (type s = Leader \<longrightarrow> \<not> election_timer s)"

lemma calm_simps [simp]:
  "calm (fst (stepDownToFollower s d t))" "calm s \<Longrightarrow> calm (fst (demoteLeader s))"
  "calm (set_block_promotion b s) = calm s"
  by (auto simp: calm_def stepDownToFollower_def demoteLeader_def set_block_promotion_def)

lemma calm_receive:
  assumes "receivePacket opt ver s j p = Some (s', eff)" "calm s"
  shows "calm s'"
proof -
  obtain s1 eff1 where c: "checkTerm s (packet_term p) = Some (s1, eff1)"
    using assms by (auto simp: receivePacket_def split: option.splits)
  have "calm s1"
    using c assms(2) by (auto simp: calm_def checkTerm_def stepDownToFollower_def split: if_splits)
  then show ?thesis
    using c assms(1) by (cases p) (auto simp: calm_def receivePacket_def rpcAppend_def rpcReqVote_def vote_result_def
        rpcAppendResponse_def rpcReqVoteResponse_def Let_def split: if_splits)
qed

lemma calm_handler:
  assumes "raft_handler opt ver ev s = Some (s', eff)" "calm s" "ev = ElectionTimeout \<Longrightarrow> election_timer s"
  shows "calm s'"
proof (cases ev)
  case (Packet j p)
  then show ?thesis using assms calm_receive by simp
next
  case ElectionTimeout
  then show ?thesis using assms by (auto simp: calm_def electionTimeout_def Let_def split: if_splits)
next
  case Heartbeat
  then show ?thesis
    using assms by (auto simp: calm_def heartbeat_def stepDownToFollower_def Let_def split: if_splits)
qed (use assms in \<open>auto simp: calm_def loyalty_expired_def\<close>)

section \<open>Electors\<close>

definition bystander :: "raft \<Rightarrow> bool" where
  "bystander s \<longleftrightarrow> type s = Follower \<and> \<not> president s \<and> block_leader_promotion s"

lemma bystander_handler:
  assumes "raft_handler opt ver ev s = Some (s', eff)" "bystander s"
  shows "bystander s' \<and> NodePromote \<notin> set eff \<and> NodeDemote \<notin> set eff"
proof (cases ev)
  case (Packet j p)
  obtain s1 eff1 where c: "checkTerm s (packet_term p) = Some (s1, eff1)"
    and r: "receivePacket opt ver s j p = Some (s', eff)"
    using Packet assms by (auto simp: receivePacket_def split: option.splits)
  have b: "bystander s1" "NodePromote \<notin> set eff1" "NodeDemote \<notin> set eff1"
    using c assms(2) by (auto simp: bystander_def checkTerm_def stepDownToFollower_def split: if_splits)
  then show ?thesis
    using c r by (cases p) (auto simp: bystander_def receivePacket_def rpcAppend_def rpcReqVote_def
        rpcAppendResponse_def rpcReqVoteResponse_def Let_def split: if_splits)
qed (use assms in \<open>auto simp: bystander_def electionTimeout_def heartbeat_def loyalty_expired_def Let_def\<close>)

lemma notify_nothing: "NodePromote \<notin> set eff \<Longrightarrow> NodeDemote \<notin> set eff \<Longrightarrow> fold (notify pid) eff c = c"
proof (induction eff)
  case (Cons e eff)
  then show ?case by (cases e) auto
qed simp

lemma elector_bystander:
  assumes "controller_reachable opt n i c" "elector opt"
  shows "bystander (uraft c) \<and> command_type c = CmdNone \<and> \<not> cmd_timeout_timer c \<and> \<not> dead_recovery_timer c"
  using assms(1)
proof induction
  case start
  show ?case by (simp add: bystander_def init_controller_def set_block_promotion_def init_node_def)
next
  case (event c pid ev ver c' eff)
  obtain s where s: "raft_handler opt ver ev (uraft c) = Some (s, eff)"
    and c': "c' = controller_handler pid ev (fold (notify pid) eff (c\<lparr>uraft := s\<rparr>))"
    using event.hyps by (auto simp: handle_def)
  have "c' = controller_handler pid ev (c\<lparr>uraft := s\<rparr>)" and "bystander s"
    using bystander_handler [OF s] notify_nothing event.IH c' by auto
  then show ?case using event.IH event.hyps(3) assms(2) by (cases ev) (auto simp: promotionBackoffTimeout_def)
qed

section \<open>Clusters of controllers\<close>

record site =
  ctl :: "nat \<Rightarrow> controller"
  wire :: "(nat \<times> nat \<times> packet) set"

definition init_site :: "(nat \<Rightarrow> options) \<Rightarrow> nat \<Rightarrow> site" where
  "init_site opt n = \<lparr>ctl = (\<lambda>i. init_controller (opt i) n i), wire = {}\<rparr>"

text \<open>The health check finds the metadata server of a follower dead.\<close>

definition dead_follower :: "event \<Rightarrow> controller \<Rightarrow> bool" where
  "dead_follower ev c \<longleftrightarrow> ev = NodeStatus (Some ''dead'') \<and> node_alive c \<and> command_type c = CmdNone
     \<and> type (uraft c) = Follower"

inductive site_step :: "(nat \<Rightarrow> options) \<Rightarrow> nat \<Rightarrow> bool \<Rightarrow> site \<Rightarrow> site \<Rightarrow> bool" for opt n allow where
  "i < n \<Longrightarrow> pid = -1 \<or> pid > 0 \<Longrightarrow> (\<And>j p. ev = Packet j p \<Longrightarrow> (j, i, p) \<in> wire c) \<Longrightarrow>
     enabled (opt i) ev (ctl c i) \<Longrightarrow> allow \<or> \<not> dead_follower ev (ctl c i) \<Longrightarrow>
     handle (opt i) ver pid ev (ctl c i) = Some (k, eff) \<Longrightarrow>
     site_step opt n allow c (c\<lparr>ctl := (ctl c)(i := k), wire := wire c \<union> sent i eff\<rparr>)"

inductive site_reachable :: "(nat \<Rightarrow> options) \<Rightarrow> nat \<Rightarrow> bool \<Rightarrow> site \<Rightarrow> bool" for opt n allow where
  start: "site_reachable opt n allow (init_site opt n)"
| step: "site_reachable opt n allow c \<Longrightarrow> site_step opt n allow c c' \<Longrightarrow> site_reachable opt n allow c'"

definition raft_view :: "(nat \<Rightarrow> options) \<Rightarrow> nat \<Rightarrow> site \<Rightarrow> cluster" where
  "raft_view opt n c = \<lparr>server = (\<lambda>i. if i < n then uraft (ctl c i) else init_node (opt i) n i), net = wire c\<rparr>"

section \<open>Controllers refine the cluster\<close>

lemma notify_uraft [simp]: "uraft (fold (notify pid) eff c) = uraft c"
proof (induction eff arbitrary: c)
  case (Cons e eff)
  then show ?case
    by (cases e) (simp_all add: nodePromote_def nodeDemote_def runSlowCommand_def stopFloatingIpManager_def Let_def)
qed simp

text \<open>What a handler of the controller does to the state of uRaft: block promotions, or dismiss the leader and block.\<close>

lemma promotion_failure_uraft [simp]:
  "uraft (handlePromotionFailure c) = fst (demoteLeader (uraft c))
   \<or> uraft (handlePromotionFailure c) = set_block_promotion True (fst (demoteLeader (uraft c)))"
  by (simp add: handlePromotionFailure_def startPromotionBackoff_def Let_def)

lemma node_call_uraft [simp]:
  "uraft (nodePromote pid c) = uraft c" "uraft (nodeDemote pid c) = uraft c" "uraft (no_command c) = uraft c"
  "uraft (startFloatingIpManager c) = uraft c" "uraft (startPromotionBackoff True c) = uraft c"
  "uraft (stopSlowCommand c) = uraft c" "uraft (startDeadMetadataHandler pid c) = uraft c"
  "uraft (cancelDeadRecovery c) = uraft c" "uraft (scheduleDeadRecovery c) = uraft c"
  by (simp_all add: ctl_ops Let_def)

lemma checkCommandStatus_uraft:
  "uraft (checkCommandStatus pid st c) = uraft c \<or> uraft (checkCommandStatus pid st c) = uraft (handlePromotionFailure (c\<lparr>cmd_timeout_timer := False\<rparr>))"
  by (cases "checkSlowCommand st c"; cases "command_type c") (simp_all add: checkCommandStatus_def Let_def)

definition dismissed :: "raft \<Rightarrow> raft \<Rightarrow> bool" where
  "dismissed s s' \<longleftrightarrow> (\<exists>b. s' \<in> {s, fst (demoteLeader s), set_block_promotion b s, set_block_promotion b (fst (demoteLeader s))})"

lemma checkNodeStatus_uraft:
  assumes "\<not> dead_follower (NodeStatus r) c"
  shows "dismissed (uraft c) (uraft (checkNodeStatus pid r c))"
proof (cases "command_type c = CmdNone")
  case True
  define alive where "alive = (case r of Some x \<Rightarrow> if x = ''alive'' \<or> x = ''dead'' then x = ''alive'' else node_alive c | None \<Rightarrow> node_alive c)"
  have dead: "type (uraft c) \<noteq> Follower" if "\<not> alive" "node_alive c"
    using assms that True by (auto simp: dead_follower_def alive_def split: option.splits if_splits)
  have "fst (stepDownToFollower (set_block_promotion b s) False 0) = set_block_promotion b (fst (demoteLeader s))"
    if "type s \<noteq> Follower" for b s
    using that by (simp add: stepDownToFollower_def set_block_promotion_def demoteLeader_def)
  then show ?thesis
    using True dead unfolding checkNodeStatus_def alive_def [symmetric]
    by (cases alive; cases "node_alive c") (auto simp: Let_def dismissed_def)
qed (simp add: checkNodeStatus_def dismissed_def)

lemma controller_handler_uraft:
  assumes "\<not> dead_follower ev c"
  shows "dismissed (uraft c) (uraft (controller_handler pid ev c))"
proof (cases ev)
  case (CommandStatus st)
  have "dismissed (uraft c) (uraft (handlePromotionFailure (c\<lparr>cmd_timeout_timer := False\<rparr>)))"
    using promotion_failure_uraft [of "c\<lparr>cmd_timeout_timer := False\<rparr>"] by (auto simp: dismissed_def)
  then show ?thesis using CommandStatus checkCommandStatus_uraft [of pid st c] by (auto simp: dismissed_def)
next
  case CommandTimeout
  then show ?thesis
    using promotion_failure_uraft [of "c\<lparr>cmd_timeout_timer := False\<rparr>"]
    by (auto simp: slowCommandTimeout_def Let_def dismissed_def)
next
  case (NodeStatus r)
  then show ?thesis using checkNodeStatus_uraft assms by simp
qed (simp_all add: dismissed_def deadRecoveryTimeout_def promotionBackoffTimeout_def Let_def)

lemma update_update: "update (update c i (s, [])) i (s', []) = update c i (s', [])"
  by (simp add: update_def sent_def)

lemma update_same: "server c i = s \<Longrightarrow> update c i (s, []) = c"
  by (simp add: update_def sent_def fun_upd_idem)

lemma dismissed_reachable:
  assumes r: "raft_reachable opt n c" and "i < n" "dismissed (server c i) s"
  shows "raft_reachable opt n (update c i (s, []))"
proof -
  let ?d = "demoteLeader (server c i)"
  have snd: "snd ?d = []" by (simp add: demoteLeader_def stepDownToFollower_def)
  have d: "raft_reachable opt n (update c i (fst ?d, []))"
    using raft_reachable.step [OF r raft_step.demote [OF \<open>i < n\<close>]] snd by (metis prod.collapse)
  have b: "raft_reachable opt n (update c i (set_block_promotion b (server c i), []))" for b
    by (rule raft_reachable.step [OF r raft_step.block [OF \<open>i < n\<close>]])
  have db: "raft_reachable opt n (update c i (set_block_promotion b (fst ?d), []))" for b
    using raft_reachable.step [OF d raft_step.block [OF \<open>i < n\<close>, of _ _ b]]
    by (simp add: update_update) (simp add: update_def)
  show ?thesis using assms(3) r d b db by (auto simp: dismissed_def update_same)
qed

lemma raft_event_step:
  assumes "i < n" "\<And>j p. ev = Packet j p \<Longrightarrow> (j, i, p) \<in> net c" "ev = ElectionTimeout \<Longrightarrow> election_timer (server c i)"
    and "raft_handler (opt i) ver ev (server c i) = Some (s, eff)" "raft_reachable opt n c"
  shows "raft_reachable opt n (update c i (s, eff))"
proof (cases ev)
  case (Packet j p)
  then have "raft_step opt n c (update c i (s, eff))" using assms(1,2,4) by (auto intro: raft_step.deliver)
  then show ?thesis by (rule raft_reachable.step [OF assms(5)])
next
  case ElectionTimeout
  then have "(s, eff) = electionTimeout (opt i) ver (server c i)" using assms(4) by simp
  then have "raft_step opt n c (update c i (s, eff))" using raft_step.timeout assms(1,3) ElectionTimeout by metis
  then show ?thesis by (rule raft_reachable.step [OF assms(5)])
next
  case Heartbeat
  then have "raft_step opt n c (update c i (s, eff))" using assms(1,4) by (auto intro: raft_step.beat)
  then show ?thesis by (rule raft_reachable.step [OF assms(5)])
next
  case LoyaltyExpired
  then have "raft_step opt n c (update c i (s, eff))" using assms(1,4) by (auto intro: raft_step.expire)
  then show ?thesis by (rule raft_reachable.step [OF assms(5)])
qed (use assms(4,5) in \<open>simp_all add: update_same\<close>)

lemma raft_view_update:
  "i < n \<Longrightarrow> raft_view opt n (c\<lparr>ctl := (ctl c)(i := k), wire := wire c \<union> sent i eff\<rparr>) = update (raft_view opt n c) i (uraft k, eff)"
  by (auto simp: raft_view_def update_def fun_eq_iff)

lemma site_step_view:
  assumes "site_step opt n False c c'" "raft_reachable opt n (raft_view opt n c)"
  shows "raft_reachable opt n (raft_view opt n c')"
  using assms(1)
proof cases
  case (1 i pid ev ver k eff)
  let ?v = "raft_view opt n c"
  have srv: "server ?v i = uraft (ctl c i)" using 1 by (simp add: raft_view_def)
  obtain s where s: "raft_handler (opt i) ver ev (uraft (ctl c i)) = Some (s, eff)"
    and k: "k = controller_handler pid ev (fold (notify pid) eff ((ctl c i)\<lparr>uraft := s\<rparr>))"
    using 1 by (auto simp: handle_def)
  have r: "raft_reachable opt n (update ?v i (s, eff))"
    using 1 s srv assms(2) by (intro raft_event_step [where ev = ev and ver = ver]) (auto simp: raft_view_def)
  have "uraft k = s \<or> eff = [] \<and> s = uraft (ctl c i) \<and> dismissed s (uraft k)"
  proof (cases "controller_handler pid ev = (\<lambda>c. c)")
    case True
    then show ?thesis using k by simp
  next
    case False
    then have "eff = [] \<and> s = uraft (ctl c i)" using s by (cases ev) (auto simp: fun_eq_iff)
    moreover from this have "k = controller_handler pid ev (ctl c i)" using k by simp
    ultimately show ?thesis using controller_handler_uraft 1 by auto
  qed
  then show ?thesis
    unfolding \<open>c' = _\<close> raft_view_update [OF \<open>i < n\<close>]
    using r dismissed_reachable [OF assms(2) \<open>i < n\<close>] srv by auto
qed

lemma blocked_reachable:
  "k \<le> n \<Longrightarrow> raft_reachable opt n \<lparr>server = (\<lambda>i. if i < k then set_block_promotion True (init_node (opt i) n i)
       else init_node (opt i) n i), net = {}\<rparr>"
proof (induction k)
  case 0
  show ?case using raft_reachable.start [of opt n] by (simp add: init_cluster_def)
next
  case (Suc k)
  let ?c = "\<lambda>k. \<lparr>server = (\<lambda>i. if i < k then set_block_promotion True (init_node (opt i) n i)
       else init_node (opt i) n i), net = {}\<rparr>"
  have "?c (Suc k) = update (?c k) k (set_block_promotion True (server (?c k) k), [])"
    by (auto simp: update_def sent_def fun_eq_iff)
  moreover have "raft_step opt n (?c k) (update (?c k) k (set_block_promotion True (server (?c k) k), []))"
    using Suc.prems by (intro raft_step.block) simp
  moreover have "raft_reachable opt n (?c k)" using Suc by simp
  ultimately show ?case by (simp only: raft_reachable.step)
qed

lemma site_view_reachable:
  "site_reachable opt n False c \<Longrightarrow> raft_reachable opt n (raft_view opt n c)"
proof (induction rule: site_reachable.induct)
  case start
  have "raft_view opt n (init_site opt n) = \<lparr>server = (\<lambda>i. if i < n then set_block_promotion True (init_node (opt i) n i)
       else init_node (opt i) n i), net = {}\<rparr>"
    by (auto simp: raft_view_def init_site_def init_controller_def fun_eq_iff)
  then show ?case using blocked_reachable [of n n opt] by simp
next
  case (step c c')
  then show ?case using site_step_view by blast
qed

lemma controller_handler_calm:
  assumes "calm (uraft c)"
  shows "calm (uraft (controller_handler pid ev c))"
proof (cases "dead_follower ev c")
  case True
  then show ?thesis by (auto simp: dead_follower_def checkNodeStatus_def Let_def)
next
  case False
  then show ?thesis using controller_handler_uraft [OF False, of pid] assms by (auto simp: dismissed_def)
qed

lemma controller_reachable_calm: "controller_reachable opt n i c \<Longrightarrow> calm (uraft c)"
proof (induction rule: controller_reachable.induct)
  case start
  show ?case by (simp add: calm_def init_controller_def init_node_def set_block_promotion_def)
next
  case (event c pid ev ver c' eff)
  obtain s where s: "raft_handler opt ver ev (uraft c) = Some (s, eff)"
    and c': "c' = controller_handler pid ev (fold (notify pid) eff (c\<lparr>uraft := s\<rparr>))"
    using event.hyps by (auto simp: handle_def)
  have "calm s" using calm_handler [OF s event.IH] event.hyps(3) by (cases "ev = ElectionTimeout") auto
  then show ?case unfolding c' by (intro controller_handler_calm) simp
qed

section \<open>Running a schedule of controllers\<close>

text \<open>An action is the node, the process number a script would get, and the event.\<close>

fun site_run :: "options \<Rightarrow> (nat \<times> int \<times> event) list \<Rightarrow> controller list \<times> (nat \<times> nat \<times> packet) list
    \<Rightarrow> (controller list \<times> (nat \<times> nat \<times> packet) list) option" where
  "site_run opt [] (cs, ps) = Some (cs, ps)"
| "site_run opt ((i, pid, ev) # as) (cs, ps) =
     (if i < length cs \<and> (pid = -1 \<or> pid > 0) \<and> enabled opt ev (cs ! i)
         \<and> (case ev of Packet j p \<Rightarrow> (j, i, p) \<in> set ps | _ \<Rightarrow> True)
      then case handle opt 0 pid ev (cs ! i) of
             Some (c, eff) \<Rightarrow> site_run opt as (cs[i := c], packets i eff @ ps)
           | None \<Rightarrow> None
      else None)"

definition as_site :: "options \<Rightarrow> nat \<Rightarrow> controller list \<times> (nat \<times> nat \<times> packet) list \<Rightarrow> site" where
  "as_site opt n x = \<lparr>ctl = (\<lambda>i. if i < n then fst x ! i else init_controller opt n i), wire = set (snd x)\<rparr>"

definition site_init :: "options \<Rightarrow> nat \<Rightarrow> controller list \<times> (nat \<times> nat \<times> packet) list" where
  "site_init opt n = (map (init_controller opt n) [0..<n], [])"

lemma as_site_update: "length cs = n \<Longrightarrow> i < n \<Longrightarrow>
    as_site opt n (cs[i := k], packets i eff @ ps) = (as_site opt n (cs, ps))
      \<lparr>ctl := (ctl (as_site opt n (cs, ps)))(i := k), wire := wire (as_site opt n (cs, ps)) \<union> sent i eff\<rparr>"
  by (auto simp: as_site_def fun_eq_iff set_packets)

text \<open>A schedule in which no metadata server is found dead is also one of the restricted clusters.\<close>

definition no_death :: "(nat \<times> int \<times> event) list \<Rightarrow> bool" where
  "no_death as \<longleftrightarrow> list_all (\<lambda>(i, pid, ev). ev \<noteq> NodeStatus (Some ''dead'')) as"

lemma site_run_reachable:
  assumes "site_reachable (\<lambda>_. opt) n allow (as_site opt n (cs, ps))" "length cs = n" "site_run opt as (cs, ps) = Some x"
    "allow \<or> no_death as"
  shows "site_reachable (\<lambda>_. opt) n allow (as_site opt n x)"
  using assms
proof (induction as arbitrary: cs ps)
  case (Cons a as)
  obtain i pid ev where a: "a = (i, pid, ev)" by (cases a)
  obtain k eff where g: "i < n" "pid = -1 \<or> pid > 0" "enabled opt ev (cs ! i)"
      "case ev of Packet j p \<Rightarrow> (j, i, p) \<in> set ps | _ \<Rightarrow> True"
    and h: "handle opt 0 pid ev (cs ! i) = Some (k, eff)"
    and rest: "site_run opt as (cs[i := k], packets i eff @ ps) = Some x"
    using Cons.prems a by (auto split: option.splits if_splits)
  let ?c = "as_site opt n (cs, ps)"
  have k: "ctl ?c i = cs ! i" "wire ?c = set ps" using g(1) by (simp_all add: as_site_def)
  have "allow \<or> \<not> dead_follower ev (ctl ?c i)" using Cons.prems(4) a by (auto simp: no_death_def dead_follower_def)
  then have "site_step (\<lambda>_. opt) n allow ?c (?c\<lparr>ctl := (ctl ?c)(i := k), wire := wire ?c \<union> sent i eff\<rparr>)"
    using g h k by (intro site_step.intros [where pid = pid and ev = ev and ver = 0]) auto
  then have "site_reachable (\<lambda>_. opt) n allow (as_site opt n (cs[i := k], packets i eff @ ps))"
    using site_reachable.step [OF Cons.prems(1)] as_site_update [OF Cons.prems(2) g(1)] by simp
  then show ?case using Cons.IH [OF _ _ rest] Cons.prems(2,4) by (auto simp: no_death_def)
qed simp

lemma site_init_reachable:
  assumes "site_run opt as (site_init opt n) = Some x" "allow \<or> no_death as"
  shows "site_reachable (\<lambda>_. opt) n allow (as_site opt n x)"
proof -
  have "as_site opt n (site_init opt n) = init_site (\<lambda>_. opt) n"
    by (auto simp: as_site_def site_init_def init_site_def fun_eq_iff)
  then show ?thesis
    using site_run_reachable [of opt n allow "fst (site_init opt n)" "snd (site_init opt n)" as x] assms
      site_reachable.start [of "\<lambda>_. opt" n allow] by (simp add: site_init_def)
qed

lemmas site_init_any = site_init_reachable [where allow = True, OF _ disjI1 [OF TrueI]]

lemma site_controller_reachable:
  "site_reachable opt n allow c \<Longrightarrow> controller_reachable (opt i) n i (ctl c i)"
proof (induction rule: site_reachable.induct)
  case start
  show ?case by (simp add: init_site_def controller_reachable.start)
next
  case (step c c')
  from step.hyps(2) show ?case
  proof cases
    case (1 j pid ev ver k eff)
    then show ?thesis using step.IH by (auto intro: controller_reachable.event)
  qed
qed

text \<open>
  All metadata servers come up; nodes 0 and 2 stand for election in term 1; node 1 votes for node 0.
\<close>

definition campaign :: "(nat \<times> int \<times> event) list" where
  "campaign =
     [(0, 1, NodeStatus (Some ''alive'')), (1, 1, NodeStatus (Some ''alive'')), (2, 1, NodeStatus (Some ''alive'')),
      (1, 1, LoyaltyExpired), (0, 1, ElectionTimeout), (2, 1, ElectionTimeout),
      (1, 1, Packet 0 (RequestVote 1 0 21 0)), (0, 1, Packet 1 (RVResponse 1 True 21 0))]"

definition two_presidents_run :: "(nat \<times> int \<times> event) list" where
  "two_presidents_run = campaign @
     [(1, 7, NodeStatus (Some ''dead'')),
      (1, 1, Packet 2 (RequestVote 1 2 21 0)), (2, 1, Packet 1 (RVResponse 1 True 21 0)),
      (1, 1, Packet 0 (AppendEntries 1 0 21 0)), (0, 1, Packet 1 (AEResponse 1 True 21 0)), (0, 8, Heartbeat),
      (1, 1, Packet 2 (AppendEntries 1 2 21 0)), (2, 1, Packet 1 (AEResponse 1 True 21 0)), (2, 9, Heartbeat),
      (0, 1, CommandStatus (Some True)), (2, 1, CommandStatus (Some True))]"

text \<open>
  Node 0 wins term 1 and is being promoted when term 2 dismisses it; it wins term 3 before the
  promotion ends, and term 4 dismisses it before it is president again.
\<close>

definition stranded_master_run :: "(nat \<times> int \<times> event) list" where
  "stranded_master_run =
     [(0, 1, NodeStatus (Some ''alive'')), (1, 1, NodeStatus (Some ''alive'')), (2, 1, NodeStatus (Some ''alive'')),
      (1, 1, LoyaltyExpired), (2, 1, LoyaltyExpired),
      (0, 1, ElectionTimeout), (1, 1, Packet 0 (RequestVote 1 0 21 0)), (0, 1, Packet 1 (RVResponse 1 True 21 0)),
      (1, 1, Packet 0 (AppendEntries 1 0 21 0)), (0, 1, Packet 1 (AEResponse 1 True 21 0)), (0, 8, Heartbeat),
      (2, 1, ElectionTimeout), (2, 1, ElectionTimeout), (0, 1, Packet 2 (RequestVote 2 2 21 0)),
      (0, 1, ElectionTimeout), (1, 1, LoyaltyExpired),
      (1, 1, Packet 0 (RequestVote 3 0 22 0)), (0, 1, Packet 1 (RVResponse 3 True 22 0)),
      (0, 1, CommandStatus (Some True)),
      (2, 1, ElectionTimeout), (2, 1, ElectionTimeout), (0, 1, Packet 2 (RequestVote 4 2 21 0))]"

definition run_result :: "(nat \<times> int \<times> event) list \<Rightarrow> controller list \<times> (nat \<times> nat \<times> packet) list" where
  "run_result as = the (site_run three_options as (site_init three_options 3))"

lemma two_presidents_result:
  "site_run three_options two_presidents_run (site_init three_options 3) \<noteq> None
   \<and> map (\<lambda>c. (president (uraft c), current_term (uraft c), floating_ip_manager c)) (fst (run_result two_presidents_run))
     = [(True, 1, True), (False, 1, False), (True, 1, True)]"
  by code_simp

lemma stranded_master_result:
  "site_run three_options stranded_master_run (site_init three_options 3) \<noteq> None
   \<and> (let c = fst (run_result stranded_master_run) ! 0
      in (type (uraft c), floating_ip_manager c, command_type c, is_demote_pending c, is_promote_pending c)
         = (Follower, True, CmdNone, False, False))"
  by code_simp

lemma campaign_result:
  "site_run three_options campaign (site_init three_options 3) \<noteq> None
   \<and> map (\<lambda>c. (type (uraft c), current_term (uraft c))) (fst (run_result campaign)) = [(Leader, 1), (Follower, 1), (Candidate, 1)]"
  by code_simp

section \<open>Correctness of the controller\<close>

text \<open>
  C14: in every reachable state of a controller a script runs exactly when a command is recorded, and
  then its timeout is armed; the floating address is never managed while the server is being demoted
  or handled as dead; and while the server is dead or a backoff is active uRaft may not promote.
\<close>

theorem controller_invariant:
  assumes "controller_reachable opt n i c"
  shows "(command_pid c \<ge> 0 \<longleftrightarrow> command_type c \<noteq> CmdNone) \<and> (command_type c \<noteq> CmdNone \<longrightarrow> cmd_timeout_timer c)
     \<and> (floating_ip_manager c \<longrightarrow> command_type c \<notin> {CmdDemote, CmdStatusDead})
     \<and> (\<not> node_alive c \<or> promotion_backoff_active c \<longrightarrow> block_leader_promotion (uraft c))
     \<and> (dead_recovery_pending c \<longleftrightarrow> dead_recovery_timer c)"
  using controller_reachable_wf [OF assms] by (auto simp: ctl_wf_def)

theorem controller_invariant_witness:
  "floating_ip_manager (fst (run_result two_presidents_run) ! 0)
   \<and> command_type (fst (run_result two_presidents_run) ! 0) \<notin> {CmdDemote, CmdStatusDead}"
proof -
  let ?x = "run_result two_presidents_run"
  have "site_run three_options two_presidents_run (site_init three_options 3) = Some ?x"
    using two_presidents_result by (auto simp: run_result_def)
  then have "controller_reachable three_options 3 0 (ctl (as_site three_options 3 ?x) 0)"
    using site_controller_reachable [OF site_init_any, of three_options two_presidents_run 3 ?x 0] by simp
  then have "controller_reachable three_options 3 0 (fst ?x ! 0)" by (simp add: as_site_def)
  moreover have "floating_ip_manager (fst ?x ! 0)" by code_simp
  ultimately show ?thesis using controller_invariant [of three_options 3 0 "fst ?x ! 0"] by blast
qed

text \<open>
  C8: every reachable state of a cluster of controllers in which no follower finds its metadata server
  dead is, seen through the state of the nodes and the packets in flight, a reachable state of the
  cluster of uRaft nodes; and in it two leaders of the same term are the same node.
\<close>

theorem sites_elect_one_leader:
  assumes "site_reachable opt n False c" "\<forall>i < n. quorum (opt i) = init_quorum n"
  shows "raft_reachable opt n \<lparr>server = (\<lambda>i. if i < n then uraft (ctl c i) else init_node (opt i) n i), net = wire c\<rparr>
    \<and> (\<forall>i j. i < n \<and> j < n \<and> type (uraft (ctl c i)) = Leader \<and> type (uraft (ctl c j)) = Leader
         \<and> current_term (uraft (ctl c i)) = current_term (uraft (ctl c j)) \<longrightarrow> i = j)"
proof -
  have r: "raft_reachable opt n (raft_view opt n c)" by (rule site_view_reachable [OF assms(1)])
  have "i = j" if l: "i < n" "j < n" "type (uraft (ctl c i)) = Leader" "type (uraft (ctl c j)) = Leader"
      "current_term (uraft (ctl c i)) = current_term (uraft (ctl c j))" for i j
  proof (cases "n > 1")
    case True
    then obtain B where "cluster_wf n B (raft_view opt n c)" using reachable_wf [OF r] assms(2) by blast
    then show ?thesis using same_term_leaders [of n B "raft_view opt n c" i j] l by (simp add: raft_view_def)
  qed (use l in simp)
  then show ?thesis using r by (auto simp: raft_view_def)
qed

text \<open>Node 0 of three nodes leads term 1 after the campaign, in which no server is found dead.\<close>

theorem sites_elect_one_leader_witness:
  defines "c \<equiv> as_site three_options 3 (run_result campaign)"
  shows "site_reachable (\<lambda>_. three_options) 3 False c \<and> quorum three_options = init_quorum 3
    \<and> {i. i < 3 \<and> type (uraft (ctl c i)) = Leader \<and> current_term (uraft (ctl c i)) = 1} = {0}"
proof -
  let ?x = "run_result campaign"
  have run: "site_run three_options campaign (site_init three_options 3) = Some ?x"
    using campaign_result by (auto simp: run_result_def)
  have "no_death campaign" by (simp add: no_death_def campaign_def)
  then have r: "site_reachable (\<lambda>_. three_options) 3 False c" unfolding c_def by (intro site_init_reachable [OF run]) simp
  have q: "quorum three_options = init_quorum 3" by (simp add: three_options_def init_quorum_def)
  obtain k0 k1 k2 where "fst ?x = [k0, k1, k2]" "type (uraft k0) = Leader" "current_term (uraft k0) = 1"
    using campaign_result by (auto simp: map_eq_Cons_conv)
  then have k: "type (uraft (ctl c 0)) = Leader" "current_term (uraft (ctl c 0)) = 1" by (simp_all add: c_def as_site_def)
  have "i = 0" if "i < 3" "type (uraft (ctl c i)) = Leader" "current_term (uraft (ctl c i)) = 1" for i
    using conjunct2 [OF sites_elect_one_leader [OF r], rule_format, of i 0] q k that by simp
  then show ?thesis using r q k by fastforce
qed

text \<open>
  C32: without that restriction the election is unsafe: a follower whose metadata server is found dead
  steps down once more, forgets its vote and votes a second time in the same term. Two of three
  nodes are then president of the same term, both promoted and both managing the floating address.
\<close>

theorem dead_follower_elects_two_presidents:
  "\<exists>c. site_reachable (\<lambda>_. three_options) 3 True c \<and> quorum three_options = init_quorum 3
     \<and> president (uraft (ctl c 0)) \<and> president (uraft (ctl c 2))
     \<and> current_term (uraft (ctl c 0)) = current_term (uraft (ctl c 2))
     \<and> floating_ip_manager (ctl c 0) \<and> floating_ip_manager (ctl c 2)"
proof -
  let ?x = "run_result two_presidents_run" and ?c = "as_site three_options 3 (run_result two_presidents_run)"
  have run: "site_run three_options two_presidents_run (site_init three_options 3) = Some ?x"
    using two_presidents_result by (auto simp: run_result_def)
  obtain a b d where x: "fst ?x = [a, b, d]" "president (uraft a)" "president (uraft d)" "current_term (uraft a) = 1"
      "current_term (uraft d) = 1" "floating_ip_manager a" "floating_ip_manager d"
    using two_presidents_result by (auto simp: map_eq_Cons_conv)
  have "quorum three_options = init_quorum 3" by (simp add: three_options_def init_quorum_def)
  then show ?thesis
    using site_init_any [OF run] x by (intro exI [of _ ?c]) (simp add: as_site_def numeral_2_eq_2)
qed

text \<open>
  C33: a node may lose the leadership and keep its metadata server promoted: a leader that is not yet
  president again when its promotion ends cancels the pending demotion, and a higher term then makes
  it a follower without demoting the server, which keeps the floating address with nothing pending.
\<close>

theorem stranded_master:
  "\<exists>c. controller_reachable three_options 3 0 c \<and> type (uraft c) = Follower \<and> floating_ip_manager c
     \<and> command_type c = CmdNone \<and> \<not> is_demote_pending c \<and> \<not> dead_recovery_pending c"
proof -
  let ?x = "run_result stranded_master_run"
  let ?c = "fst ?x ! 0"
  have run: "site_run three_options stranded_master_run (site_init three_options 3) = Some ?x"
    using stranded_master_result by (auto simp: run_result_def)
  have "controller_reachable three_options 3 0 (ctl (as_site three_options 3 ?x) 0)"
    by (rule site_controller_reachable [OF site_init_any [OF run]])
  moreover have "\<not> dead_recovery_pending ?c" by code_simp
  ultimately show ?thesis
    using stranded_master_result by (intro exI [of _ ?c]) (simp add: as_site_def Let_def)
qed

text \<open>
  C29: when a promotion script fails, the node is a follower and not president, uRaft may not promote
  it, a backoff between one second and one minute runs, and the demotion script is started if a
  process can be created.
\<close>

theorem failed_promotion_recovers:
  assumes "controller_reachable opt n i c" "command_type c = CmdPromote" "pid = -1 \<or> pid > 0"
    and "c' = checkCommandStatus pid (Some False) c"
  shows "type (uraft c') = Follower \<and> \<not> president (uraft c') \<and> block_leader_promotion (uraft c')
     \<and> promotion_backoff_timer c' \<and> computePromotionBackoffMs c' \<in> {1000..60000}
     \<and> \<not> floating_ip_manager c' \<and> \<not> is_demote_pending c'
     \<and> command_type c' = (if pid = -1 then CmdNone else CmdDemote)"
proof -
  have pid: "command_pid c \<ge> 0" "promotion_failure_streak c \<ge> 0"
    using controller_reachable_wf [OF assms(1)] assms(2) by (simp_all add: ctl_wf_def)
  have calm: "president (uraft c) \<longrightarrow> type (uraft c) = Leader"
    using controller_reachable_calm [OF assms(1)] by (simp add: calm_def)
  define f where "f = no_command (handlePromotionFailure (c\<lparr>cmd_timeout_timer := False\<rparr>))"
  define s where "s = promotion_failure_streak c + 1"
  have "1 \<le> (2 :: int) ^ nat (min (s - 1) 6)" by simp
  then have ms: "(if s \<le> 0 then 0 else min (1000 * (2 :: int) ^ nat (min (s - 1) 6)) 60000) \<in> {1000..60000}"
    using pid(2) by (auto simp: s_def)
  then have pos: "\<not> s \<le> 0" "\<not> min (1000 * (2 :: int) ^ nat (min (s - 1) 6)) 60000 \<le> 0"
    by (simp_all add: min_le_iff_disj split: if_splits)
  have u: "type (fst (demoteLeader (uraft c))) = Follower" "\<not> president (fst (demoteLeader (uraft c)))"
    using calm by (auto simp: demoteLeader_def)
  have f: "uraft f = set_block_promotion True (fst (demoteLeader (uraft c)))" "promotion_backoff_timer f" "is_demote_pending f"
      "command_pid f = -1" "command_type f = CmdNone" "promotion_failure_streak f = s"
    using pos unfolding f_def
    by (simp_all add: handlePromotionFailure_def startPromotionBackoff_def computePromotionBackoffMs_def no_command_def
        Let_def s_def [symmetric])
  have c': "c' = (nodeDemote pid f)\<lparr>is_demote_pending := False\<rparr>"
    using pid assms(2,4) f(1,3) u(1)
    by (simp add: checkCommandStatus_def checkSlowCommand_def Let_def f_def [symmetric] set_block_promotion_def)
  have "computePromotionBackoffMs c' \<in> {1000..60000}"
    using ms pos f(6) unfolding c' by (simp add: nodeDemote_def runSlowCommand_def stopFloatingIpManager_def Let_def computePromotionBackoffMs_def)
  then show ?thesis
    using f u unfolding c'
    by (simp add: nodeDemote_def runSlowCommand_def stopFloatingIpManager_def Let_def set_block_promotion_def)
qed

text \<open>
  C36: when a promotion script runs into its timeout instead, the demotion that is meant to follow is
  recorded but never started: no later check of the commands does anything.
\<close>

theorem promotion_timeout_forgets_demotion:
  assumes "controller_reachable opt n i c" "command_type c = CmdPromote" "c' = slowCommandTimeout c"
  shows "type (uraft c') = Follower \<and> is_demote_pending c' \<and> command_type c' = CmdNone
     \<and> checkCommandStatus pid st c' = c'"
proof -
  have "command_pid c \<ge> 0" using controller_reachable_wf [OF assms(1)] assms(2) by (simp add: ctl_wf_def)
  moreover have "type (fst (demoteLeader s)) = Follower" for s by (simp add: demoteLeader_def)
  ultimately show ?thesis
    using assms(2,3)
    by (auto simp: slowCommandTimeout_def stopSlowCommand_def handlePromotionFailure_def startPromotionBackoff_def
        set_block_promotion_def checkCommandStatus_def checkSlowCommand_def Let_def)
qed

text \<open>A node that has just become president: the promotion script runs.\<close>

definition promoting_run :: "(nat \<times> int \<times> event) list" where
  "promoting_run = campaign @
     [(1, 1, Packet 0 (AppendEntries 1 0 21 0)), (0, 1, Packet 1 (AEResponse 1 True 21 0)), (0, 8, Heartbeat)]"

definition promoting :: controller where
  "promoting = fst (run_result promoting_run) ! 0"

lemma promoting_reachable: "controller_reachable three_options 3 0 promoting"
proof -
  have "site_run three_options promoting_run (site_init three_options 3) \<noteq> None" by code_simp
  then have run: "site_run three_options promoting_run (site_init three_options 3) = Some (run_result promoting_run)"
    by (auto simp: run_result_def)
  show ?thesis
    using site_controller_reachable [OF site_init_any [OF run], of 0] by (simp add: as_site_def promoting_def)
qed

lemma promoting_facts: "command_type promoting = CmdPromote"
  by code_simp

theorem failed_promotion_recovers_witness:
  "command_type (checkCommandStatus 9 (Some False) promoting) = CmdDemote"
  using failed_promotion_recovers [OF promoting_reachable promoting_facts, of 9] by simp

theorem promotion_timeout_forgets_demotion_witness:
  "is_demote_pending (slowCommandTimeout promoting) \<and> command_type (slowCommandTimeout promoting) = CmdNone"
  using promotion_timeout_forgets_demotion [OF promoting_reachable promoting_facts refl] by blast

text \<open>
  C30: an elector, whatever packets it receives and whenever its timers fire, is never candidate,
  leader or president, and never runs a script.
\<close>

theorem elector_never_leads:
  assumes "controller_reachable opt n i c" "elector opt"
  shows "type (uraft c) = Follower \<and> \<not> president (uraft c) \<and> command_type c = CmdNone"
  using elector_bystander [OF assms] by (simp add: bystander_def)

theorem elector_never_leads_witness:
  "type (uraft (init_controller (three_options\<lparr>elector := True\<rparr>) 3 0)) = Follower"
  using elector_never_leads [OF controller_reachable.start, of "three_options\<lparr>elector := True\<rparr>" 3 0] by simp

end
