(* ===== verification/QuotaDB.thy ===== *)
theory QuotaDB
  imports Prelude "HOL-Library.Word" "HOL-Library.AList" "HOL-Library.Multiset"
begin

text \<open>
  The quota database: \<^verbatim>\<open>QuotaDatabase\<close> of \<^verbatim>\<open>src/src/common/quota_database.h\<close> and
  \<^verbatim>\<open>quota_database.cc\<close>, the entries of \<^verbatim>\<open>protocol/quota.h\<close> and the hash functions
  of \<^verbatim>\<open>common/hashfn.h\<close> that its checksum uses. Limits and usage are 64-bit words. A hash table
  is an association list with distinct keys; the order of the list stands for the order of
  iteration, and facts about the tables are stated through their lookup function.
\<close>

section \<open>Entries\<close>

datatype quota_rigor = Soft | Hard | Used
datatype quota_resource = Inodes | Size
datatype quota_owner_type = OwnerUser | OwnerGroup | OwnerInode

instantiation quota_rigor :: enum
begin

definition enum_quota_rigor :: "quota_rigor list" where
  "enum_quota_rigor = [Soft, Hard, Used]"

definition enum_all_quota_rigor :: "(quota_rigor \<Rightarrow> bool) \<Rightarrow> bool" where
  "enum_all_quota_rigor P \<longleftrightarrow> P Soft \<and> P Hard \<and> P Used"

definition enum_ex_quota_rigor :: "(quota_rigor \<Rightarrow> bool) \<Rightarrow> bool" where
  "enum_ex_quota_rigor P \<longleftrightarrow> P Soft \<or> P Hard \<or> P Used"

instance
proof
  have all: "x \<in> {Soft, Hard, Used}" for x by (cases x) auto
  then show univ: "UNIV = set (Enum.enum :: quota_rigor list)" by (auto simp: enum_quota_rigor_def)
  show "distinct (Enum.enum :: quota_rigor list)" by (simp add: enum_quota_rigor_def)
  show "Enum.enum_all P \<longleftrightarrow> Ball UNIV P" for P :: "quota_rigor \<Rightarrow> bool"
    unfolding univ by (simp add: enum_all_quota_rigor_def enum_quota_rigor_def)
  show "Enum.enum_ex P \<longleftrightarrow> Bex UNIV P" for P :: "quota_rigor \<Rightarrow> bool"
    unfolding univ by (simp add: enum_ex_quota_rigor_def enum_quota_rigor_def)
qed

end

instantiation quota_resource :: enum
begin

definition enum_quota_resource :: "quota_resource list" where
  "enum_quota_resource = [Inodes, Size]"

definition enum_all_quota_resource :: "(quota_resource \<Rightarrow> bool) \<Rightarrow> bool" where
  "enum_all_quota_resource P \<longleftrightarrow> P Inodes \<and> P Size"

definition enum_ex_quota_resource :: "(quota_resource \<Rightarrow> bool) \<Rightarrow> bool" where
  "enum_ex_quota_resource P \<longleftrightarrow> P Inodes \<or> P Size"

instance
proof
  have all: "x \<in> {Inodes, Size}" for x by (cases x) auto
  then show univ: "UNIV = set (Enum.enum :: quota_resource list)" by (auto simp: enum_quota_resource_def)
  show "distinct (Enum.enum :: quota_resource list)" by (simp add: enum_quota_resource_def)
  show "Enum.enum_all P \<longleftrightarrow> Ball UNIV P" for P :: "quota_resource \<Rightarrow> bool"
    unfolding univ by (simp add: enum_all_quota_resource_def enum_quota_resource_def)
  show "Enum.enum_ex P \<longleftrightarrow> Bex UNIV P" for P :: "quota_resource \<Rightarrow> bool"
    unfolding univ by (simp add: enum_ex_quota_resource_def enum_quota_resource_def)
qed

end

type_synonym limits = "quota_rigor \<Rightarrow> quota_resource \<Rightarrow> 64 word"
type_synonym data_table = "(nat \<times> limits) list"
type_synonym quota_db = "quota_owner_type \<Rightarrow> data_table"

record quota_entry =
  owner_type :: quota_owner_type
  owner_id :: nat
  rigor :: quota_rigor
  resource :: quota_resource
  limit :: "64 word"

definition no_limits :: limits where
  "no_limits = (\<lambda>_ _. 0)"

definition empty_db :: quota_db where
  "empty_db = (\<lambda>_. [])"

section \<open>Operations\<close>

definition quota_get :: "quota_db \<Rightarrow> quota_owner_type \<Rightarrow> nat \<Rightarrow> limits option" where
  "quota_get db ot oid = map_of (db ot) oid"

text \<open>Indexing a table creates a missing entry with all limits zero.\<close>

definition limits_at :: "quota_db \<Rightarrow> quota_owner_type \<Rightarrow> nat \<Rightarrow> limits" where
  "limits_at db ot oid = (case quota_get db ot oid of Some l \<Rightarrow> l | None \<Rightarrow> no_limits)"

definition limits_set :: "limits \<Rightarrow> quota_rigor \<Rightarrow> quota_resource \<Rightarrow> 64 word \<Rightarrow> limits" where
  "limits_set l rg rs v = l(rg := (l rg)(rs := v))"

definition quota_set :: "quota_owner_type \<Rightarrow> nat \<Rightarrow> quota_rigor \<Rightarrow> quota_resource \<Rightarrow> 64 word \<Rightarrow> quota_db \<Rightarrow> quota_db" where
  "quota_set ot oid rg rs v db = db(ot := AList.update oid (limits_set (limits_at db ot oid) rg rs v) (db ot))"

definition quota_update :: "quota_owner_type \<Rightarrow> nat \<Rightarrow> quota_rigor \<Rightarrow> quota_resource \<Rightarrow> 64 word \<Rightarrow> quota_db \<Rightarrow> quota_db" where
  "quota_update ot oid rg rs delta db =
     db(ot := AList.update oid (limits_set (limits_at db ot oid) rg rs (limits_at db ot oid rg rs + delta)) (db ot))"

definition quota_remove :: "quota_owner_type \<Rightarrow> nat \<Rightarrow> quota_rigor \<Rightarrow> quota_resource \<Rightarrow> quota_db \<Rightarrow> quota_db" where
  "quota_remove ot oid rg rs db =
     (case quota_get db ot oid of
        None \<Rightarrow> db
      | Some l \<Rightarrow>
          let l' = limits_set l rg rs 0
          in if l' = no_limits then db(ot := AList.delete oid (db ot)) else db(ot := AList.update oid l' (db ot)))"

definition quota_remove_owner :: "quota_owner_type \<Rightarrow> nat \<Rightarrow> quota_db \<Rightarrow> quota_db" where
  "quota_remove_owner ot oid db =
     (case quota_get db ot oid of None \<Rightarrow> db | Some _ \<Rightarrow> db(ot := AList.delete oid (db ot)))"

definition removeEmpty :: "quota_owner_type \<Rightarrow> nat \<Rightarrow> quota_db \<Rightarrow> quota_db" where
  "removeEmpty ot oid db =
     (case quota_get db ot oid of
        None \<Rightarrow> db
      | Some l \<Rightarrow> if l = no_limits then db(ot := AList.delete oid (db ot)) else db)"

fun exceeds_loop :: "limits \<Rightarrow> quota_rigor \<Rightarrow> (quota_resource \<times> 64 word) list \<Rightarrow> bool" where
  "exceeds_loop l rg [] = False"
| "exceeds_loop l rg ((rs, delta) # xs) =
     (let lim = l rg rs; usage = l Used rs + delta
      in if lim \<noteq> 0 \<and> usage > lim then True else exceeds_loop l rg xs)"

definition exceeds :: "quota_db \<Rightarrow> quota_owner_type \<Rightarrow> nat \<Rightarrow> quota_rigor \<Rightarrow> (quota_resource \<times> 64 word) list \<Rightarrow> bool" where
  "exceeds db ot oid rg xs = (case quota_get db ot oid of None \<Rightarrow> False | Some l \<Rightarrow> exceeds_loop l rg xs)"

text \<open>The entries of one owner, and of all owners.\<close>

definition entry :: "quota_owner_type \<Rightarrow> nat \<Rightarrow> quota_rigor \<Rightarrow> quota_resource \<Rightarrow> limits \<Rightarrow> quota_entry" where
  "entry ot oid rg rs l = \<lparr>owner_type = ot, owner_id = oid, rigor = rg, resource = rs, limit = l rg rs\<rparr>"

definition owner_entries :: "quota_owner_type \<Rightarrow> nat \<times> limits \<Rightarrow> quota_entry list" where
  "owner_entries ot e =
     [x \<leftarrow> [entry ot (fst e) rg rs (snd e). rg \<leftarrow> [Soft, Hard], rs \<leftarrow> [Inodes, Size]]. limit x > 0]"

definition getEntries :: "quota_db \<Rightarrow> quota_entry list" where
  "getEntries db = [x. ot \<leftarrow> [OwnerUser, OwnerGroup, OwnerInode], e \<leftarrow> db ot, x \<leftarrow> owner_entries ot e]"

definition resource_stats :: "quota_owner_type \<Rightarrow> nat \<times> limits \<Rightarrow> quota_resource \<Rightarrow> quota_entry list" where
  "resource_stats ot e rs =
     (let xs = [x \<leftarrow> [entry ot (fst e) rg rs (snd e). rg \<leftarrow> [Soft, Hard]]. limit x > 0]
      in if xs = [] then [] else xs @ [entry ot (fst e) Used rs (snd e)])"

definition getEntriesWithStats :: "quota_db \<Rightarrow> quota_entry list" where
  "getEntriesWithStats db =
     [x. ot \<leftarrow> [OwnerUser, OwnerGroup, OwnerInode], e \<leftarrow> db ot, rs \<leftarrow> [Inodes, Size], x \<leftarrow> resource_stats ot e rs]"

section \<open>Checksum\<close>

unbundle bit_operations_syntax

definition hash32mult :: "32 word \<Rightarrow> 32 word" where
  "hash32mult key0 =
     (let key1 = (key0 XOR 61) XOR drop_bit 16 key0;
          key2 = key1 + push_bit 3 key1;
          key3 = key2 XOR drop_bit 4 key2;
          key4 = key3 * 0x27d4eb2d
      in key4 XOR drop_bit 15 key4)"

definition hash64 :: "64 word \<Rightarrow> 64 word" where
  "hash64 key0 =
     (let key1 = (NOT key0) + push_bit 21 key0;
          key2 = key1 XOR drop_bit 24 key1;
          key3 = (key2 + push_bit 3 key2) + push_bit 8 key2;
          key4 = key3 XOR drop_bit 14 key3;
          key5 = (key4 + push_bit 2 key4) + push_bit 4 key4;
          key6 = key5 XOR drop_bit 28 key5
      in key6 + push_bit 31 key6)"

definition hashCombineRaw :: "64 word \<Rightarrow> 64 word \<Rightarrow> 64 word" where
  "hashCombineRaw seed h = seed XOR (h + 11400714819323198485 + push_bit 6 seed + drop_bit 2 seed)"

fun owner_code :: "quota_owner_type \<Rightarrow> nat" where
  "owner_code OwnerUser = 0" | "owner_code OwnerGroup = 1" | "owner_code OwnerInode = 2"

fun rigor_code :: "quota_rigor \<Rightarrow> nat" where
  "rigor_code Soft = 0" | "rigor_code Hard = 1" | "rigor_code Used = 2"

fun resource_code :: "quota_resource \<Rightarrow> nat" where
  "resource_code Inodes = 0" | "resource_code Size = 1"

text \<open>The owner's number is narrowed to eight bits before it is hashed.\<close>

definition hash_byte :: "nat \<Rightarrow> 64 word" where
  "hash_byte n = ucast (hash32mult (ucast (word_of_nat n :: 8 word)))"

definition quota_hash :: "quota_entry \<Rightarrow> 64 word" where
  "quota_hash e =
     fold (\<lambda>h seed. hashCombineRaw seed h)
       [hash_byte (owner_code (owner_type e)), hash_byte (owner_id e), hash_byte (rigor_code (rigor e)),
        hash_byte (resource_code (resource e)), hash64 (limit e)] 0x2a9ae768d80f202f"

definition checksum :: "quota_db \<Rightarrow> 64 word" where
  "checksum db = fold (\<lambda>e sum. sum XOR quota_hash e) (getEntries db) 0xcd13ca11bcb1beb5"

section \<open>Lookup laws\<close>

definition db_wf :: "quota_db \<Rightarrow> bool" where
  "db_wf db \<longleftrightarrow> (\<forall>ot. distinct (map fst (db ot)))"

lemma empty_db_simps [simp]: "quota_get empty_db ot oid = None" "limits_at empty_db ot oid = no_limits"
  by (simp_all add: quota_get_def empty_db_def limits_at_def)

lemma limits_set_same [simp]: "limits_set l rg rs v rg rs = v"
  by (simp add: limits_set_def)

lemma limits_set_other: "(rg', rs') \<noteq> (rg, rs) \<Longrightarrow> limits_set l rg rs v rg' rs' = l rg' rs'"
  by (auto simp: limits_set_def)

lemma quota_get_set [simp]:
  "quota_get (quota_set ot oid rg rs v db) ot' oid' =
     (if ot' = ot \<and> oid' = oid then Some (limits_set (limits_at db ot oid) rg rs v) else quota_get db ot' oid')"
  by (simp add: quota_get_def quota_set_def update_conv')

lemma quota_get_update [simp]:
  "quota_get (quota_update ot oid rg rs d db) ot' oid' =
     (if ot' = ot \<and> oid' = oid
      then Some (limits_set (limits_at db ot oid) rg rs (limits_at db ot oid rg rs + d)) else quota_get db ot' oid')"
  by (simp add: quota_get_def quota_update_def update_conv')

lemma quota_get_remove_owner [simp]:
  "quota_get (quota_remove_owner ot oid db) ot' oid' = (if ot' = ot \<and> oid' = oid then None else quota_get db ot' oid')"
  by (auto simp: quota_get_def quota_remove_owner_def delete_conv' split: option.splits)

lemma quota_get_removeEmpty [simp]:
  "quota_get (removeEmpty ot oid db) ot' oid' =
     (if ot' = ot \<and> oid' = oid \<and> quota_get db ot oid = Some no_limits then None else quota_get db ot' oid')"
  by (auto simp: quota_get_def removeEmpty_def delete_conv' split: option.splits)

text \<open>Missing entries and entries with all limits zero read the same.\<close>

lemma limits_at_set [simp]:
  "limits_at (quota_set ot oid rg rs v db) ot' oid' =
     (if ot' = ot \<and> oid' = oid then limits_set (limits_at db ot oid) rg rs v else limits_at db ot' oid')"
  by (simp add: limits_at_def)

lemma limits_at_update [simp]:
  "limits_at (quota_update ot oid rg rs d db) ot' oid' =
     (if ot' = ot \<and> oid' = oid then limits_set (limits_at db ot oid) rg rs (limits_at db ot oid rg rs + d)
      else limits_at db ot' oid')"
  by (simp add: limits_at_def)

lemma limits_at_removeEmpty [simp]: "limits_at (removeEmpty ot oid db) ot' oid' = limits_at db ot' oid'"
  by (auto simp: limits_at_def)

lemma limits_at_remove:
  "limits_at (quota_remove ot oid rg rs db) ot' oid' =
     (if ot' = ot \<and> oid' = oid then limits_set (limits_at db ot oid) rg rs 0 else limits_at db ot' oid')"
proof (cases "quota_get db ot oid")
  case None
  have "limits_set no_limits rg rs 0 = no_limits" by (simp add: limits_set_def no_limits_def fun_eq_iff)
  then show ?thesis using None by (simp add: limits_at_def quota_remove_def)
next
  case (Some l)
  then show ?thesis
    by (auto simp: limits_at_def quota_remove_def quota_get_def update_conv' delete_conv' Let_def split: option.splits)
qed

lemma db_wf_ops [intro, simp]:
  "db_wf empty_db" "db_wf db \<Longrightarrow> db_wf (quota_set ot oid rg rs v db)"
  "db_wf db \<Longrightarrow> db_wf (quota_update ot oid rg rs d db)" "db_wf db \<Longrightarrow> db_wf (quota_remove ot oid rg rs db)"
  "db_wf db \<Longrightarrow> db_wf (quota_remove_owner ot oid db)" "db_wf db \<Longrightarrow> db_wf (removeEmpty ot oid db)"
  by (auto simp: db_wf_def empty_db_def quota_set_def quota_update_def quota_remove_def quota_remove_owner_def
      removeEmpty_def distinct_update distinct_delete Let_def split: option.splits)

lemma exceeds_loop_iff:
  "exceeds_loop l rg xs \<longleftrightarrow> (\<exists>(rs, d) \<in> set xs. l rg rs \<noteq> 0 \<and> l Used rs + d > l rg rs)"
  by (induction xs rule: exceeds_loop.induct) (auto simp: Let_def)

lemma exceeds_iff:
  "exceeds db ot oid rg xs \<longleftrightarrow>
     (\<exists>(rs, d) \<in> set xs. limits_at db ot oid rg rs \<noteq> 0 \<and> limits_at db ot oid Used rs + d > limits_at db ot oid rg rs)"
  by (auto simp: exceeds_def limits_at_def no_limits_def exceeds_loop_iff split: option.splits)

text \<open>The entries say exactly which limits are set.\<close>

lemma in_owner_entries:
  "x \<in> set (owner_entries ot e) \<longleftrightarrow> (\<exists>rg rs. rg \<noteq> Used \<and> x = entry ot (fst e) rg rs (snd e) \<and> limit x > 0)"
proof
  assume "\<exists>rg rs. rg \<noteq> Used \<and> x = entry ot (fst e) rg rs (snd e) \<and> limit x > 0"
  then obtain rg rs where "rg \<noteq> Used" "x = entry ot (fst e) rg rs (snd e)" "limit x > 0" by blast
  then show "x \<in> set (owner_entries ot e)" by (cases rg; cases rs) (simp_all add: owner_entries_def)
next
  assume "x \<in> set (owner_entries ot e)"
  then have "limit x > 0" "x \<in> set [entry ot (fst e) rg rs (snd e). rg \<leftarrow> [Soft, Hard], rs \<leftarrow> [Inodes, Size]]"
    unfolding owner_entries_def set_filter by blast+
  then show "\<exists>rg rs. rg \<noteq> Used \<and> x = entry ot (fst e) rg rs (snd e) \<and> limit x > 0" by auto
qed

lemma in_getEntries: "x \<in> set (getEntries db) \<longleftrightarrow> (\<exists>ot e. e \<in> set (db ot) \<and> x \<in> set (owner_entries ot e))"
proof
  assume "\<exists>ot e. e \<in> set (db ot) \<and> x \<in> set (owner_entries ot e)"
  then obtain ot e where e: "e \<in> set (db ot)" "x \<in> set (owner_entries ot e)" by blast
  then show "x \<in> set (getEntries db)" by (cases ot) (auto simp: getEntries_def)
qed (auto simp: getEntries_def)

lemma set_getEntries:
  assumes "db_wf db"
  shows "x \<in> set (getEntries db) \<longleftrightarrow> rigor x \<noteq> Used \<and> limit x > 0
     \<and> limit x = limits_at db (owner_type x) (owner_id x) (rigor x) (resource x)"
proof
  assume "x \<in> set (getEntries db)"
  then obtain ot i l rg rs where x: "(i, l) \<in> set (db ot)" "rg \<noteq> Used" "x = entry ot i rg rs l" "limit x > 0"
    by (auto simp: in_getEntries in_owner_entries)
  then have "quota_get db ot i = Some l" using assms by (simp add: db_wf_def quota_get_def)
  then show "rigor x \<noteq> Used \<and> limit x > 0 \<and> limit x = limits_at db (owner_type x) (owner_id x) (rigor x) (resource x)"
    using x by (simp add: entry_def limits_at_def)
next
  assume x: "rigor x \<noteq> Used \<and> limit x > 0 \<and> limit x = limits_at db (owner_type x) (owner_id x) (rigor x) (resource x)"
  then obtain l where l: "quota_get db (owner_type x) (owner_id x) = Some l"
    by (cases "quota_get db (owner_type x) (owner_id x)") (auto simp: limits_at_def no_limits_def)
  then have "(owner_id x, l) \<in> set (db (owner_type x))" by (simp add: quota_get_def map_of_SomeD)
  moreover have "x = entry (owner_type x) (owner_id x) (rigor x) (resource x) l"
    using x l by (simp add: entry_def limits_at_def)
  ultimately show "x \<in> set (getEntries db)" using x unfolding in_getEntries in_owner_entries
    by (metis fst_conv snd_conv)
qed

lemma distinct_owner_entries: "distinct (owner_entries ot e)"
  by (simp add: owner_entries_def entry_def)

lemma owner_entries_owner: "x \<in> set (owner_entries ot e) \<Longrightarrow> owner_type x = ot \<and> owner_id x = fst e"
  by (auto simp: in_owner_entries entry_def)

lemma distinct_table_entries:
  "distinct (map fst es) \<Longrightarrow> distinct (concat (map (owner_entries ot) es))"
proof (induction es)
  case (Cons e es)
  have "x \<notin> set (concat (map (owner_entries ot) es))" if "x \<in> set (owner_entries ot e)" for x
  proof
    assume "x \<in> set (concat (map (owner_entries ot) es))"
    then obtain e' where "e' \<in> set es" "x \<in> set (owner_entries ot e')" by auto
    then have "fst e = fst e'" using that owner_entries_owner by metis
    then show False using Cons.prems \<open>e' \<in> set es\<close> by auto
  qed
  then show ?case using Cons distinct_owner_entries by auto
qed simp

lemma distinct_getEntries: "db_wf db \<Longrightarrow> distinct (getEntries db)"
proof -
  assume wf: "db_wf db"
  have own: "owner_type x = ot" if "x \<in> set (concat (map (owner_entries ot) es))" for x ot es
    using that owner_entries_owner by auto
  have d: "distinct (concat (map (owner_entries ot) (db ot)))" for ot
    using wf by (intro distinct_table_entries) (simp add: db_wf_def)
  have "getEntries db = concat (map (owner_entries OwnerUser) (db OwnerUser))
      @ concat (map (owner_entries OwnerGroup) (db OwnerGroup)) @ concat (map (owner_entries OwnerInode) (db OwnerInode))"
    by (simp add: getEntries_def)
  moreover have "set (concat (map (owner_entries ot) (db ot))) \<inter> set (concat (map (owner_entries ot') (db ot'))) = {}"
    if "ot \<noteq> ot'" for ot ot'
    using own that by blast
  ultimately show ?thesis using d by (simp only: distinct_append) auto
qed

text \<open>The checksum is determined by the limits: usage and the order of iteration do not matter.\<close>

lemma checksum_limits:
  assumes "db_wf db" "db_wf db'" "\<And>ot oid rg rs. rg \<noteq> Used \<Longrightarrow> limits_at db ot oid rg rs = limits_at db' ot oid rg rs"
  shows "checksum db = checksum db'"
proof -
  have "set (getEntries db) = set (getEntries db')"
    using set_getEntries assms by (intro set_eqI) auto
  then have "mset (getEntries db) = mset (getEntries db')"
    using distinct_getEntries assms(1,2) by (simp add: set_eq_iff_mset_eq_distinct)
  then have "fold (\<lambda>e sum. sum XOR quota_hash e) (getEntries db) = fold (\<lambda>e sum. sum XOR quota_hash e) (getEntries db')"
    by (intro fold_multiset_equiv) (auto simp: fun_eq_iff xor.assoc xor.commute xor.left_commute)
  then show ?thesis by (simp add: checksum_def)
qed

end
