(* ===== verification/NodeTree.thy ===== *)
theory NodeTree
  imports Prelude
begin

text \<open>
  The directory tree as the quota code walks it: the nodes of \<^verbatim>\<open>FSNode\<close>
  (\<^verbatim>\<open>src/src/master/filesystem_node_types.h\<close>) with their lists of parents, the ancestor test of
  \<^verbatim>\<open>filesystem_node.cc\<close> and the walks of \<^verbatim>\<open>filesystem_quota.cc\<close>: depth, common
  ancestor and path. A pointer to a node is its inode number. The walks follow the first parent until
  there is none; they are partial functions, and \<^const>\<open>None\<close> is a failed assertion or a walk
  that does not end. On well-formed trees every walk is proved to end.
\<close>

section \<open>Nodes\<close>

datatype node_type =
    FileNode | DirectoryNode | SymlinkNode | FifoNode | BlockDevNode | CharDevNode | SocketNode
  | TrashNode | ReservedNode | UnknownNode

record fsnode =
  ntype :: node_type
  nuid :: nat
  ngid :: nat
  parents :: "(nat \<times> string) list"
  stat_inodes :: nat
  stat_size :: nat

type_synonym tree = "nat \<Rightarrow> fsnode option"

definition idToNodeVerify :: "tree \<Rightarrow> nat \<Rightarrow> fsnode option" where
  "idToNodeVerify ns i = (case ns i of Some nd \<Rightarrow> if ntype nd = DirectoryNode then Some nd else None | None \<Rightarrow> None)"

text \<open>\<^verbatim>\<open>getChildName\<close>: the name under which a node is linked in a directory.\<close>

definition getChildName :: "nat \<Rightarrow> fsnode \<Rightarrow> string" where
  "getChildName dir nd = (case find (\<lambda>p. fst p = dir) (parents nd) of Some p \<Rightarrow> snd p | None \<Rightarrow> [])"

text \<open>Tests some element of a list, with tests that may fail.\<close>

fun any_opt :: "('a \<Rightarrow> bool option) \<Rightarrow> 'a list \<Rightarrow> bool option" where
  "any_opt f [] = Some False"
| "any_opt f (x # xs) = (case f x of None \<Rightarrow> None | Some True \<Rightarrow> Some True | Some False \<Rightarrow> any_opt f xs)"

lemma any_opt_Some: "(\<And>x. x \<in> set xs \<Longrightarrow> f x = Some (P x)) \<Longrightarrow> any_opt f xs = Some (\<exists>x \<in> set xs. P x)"
  by (induction xs) (auto split: bool.splits)

section \<open>Walks\<close>

text \<open>\<^verbatim>\<open>isAncestor\<close>: every parent is followed up to the root.\<close>

partial_function (option) ancestor_loop :: "tree \<Rightarrow> nat \<Rightarrow> nat \<Rightarrow> bool option" where
  [code]: "ancestor_loop ns anc d =
     (if anc = d then Some True
      else case ns d of
        None \<Rightarrow> None
      | Some nd \<Rightarrow>
          (case parents nd of
             [] \<Rightarrow> Some False
           | p # ps \<Rightarrow> if ps \<noteq> [] then None
                      else case idToNodeVerify ns (fst p) of None \<Rightarrow> None | Some _ \<Rightarrow> ancestor_loop ns anc (fst p)))"

definition isAncestor :: "tree \<Rightarrow> nat \<Rightarrow> fsnode \<Rightarrow> bool option" where
  "isAncestor ns anc nd =
     any_opt (\<lambda>p. case idToNodeVerify ns (fst p) of None \<Rightarrow> None | Some _ \<Rightarrow> ancestor_loop ns anc (fst p)) (parents nd)"

partial_function (option) depth_loop :: "tree \<Rightarrow> nat \<Rightarrow> nat \<Rightarrow> nat option" where
  [code]: "depth_loop ns a depth =
     (case ns a of
        None \<Rightarrow> None
      | Some nd \<Rightarrow>
          (case parents nd of
             [] \<Rightarrow> Some depth
           | p # _ \<Rightarrow> (case idToNodeVerify ns (fst p) of None \<Rightarrow> None | Some _ \<Rightarrow> depth_loop ns (fst p) (depth + 1))))"

definition fsnodes_find_depth :: "tree \<Rightarrow> nat \<Rightarrow> nat option" where
  "fsnodes_find_depth ns a = depth_loop ns a 1"

text \<open>One step up; the node must have a parent.\<close>

definition first_parent :: "tree \<Rightarrow> nat \<Rightarrow> nat option" where
  "first_parent ns a =
     (case ns a of
        Some nd \<Rightarrow> (case parents nd of [] \<Rightarrow> None | p # _ \<Rightarrow> map_option (\<lambda>_. fst p) (idToNodeVerify ns (fst p)))
      | None \<Rightarrow> None)"

fun climb :: "tree \<Rightarrow> nat \<Rightarrow> nat \<Rightarrow> nat option" where
  "climb ns 0 a = Some a"
| "climb ns (Suc k) a = Option.bind (first_parent ns a) (climb ns k)"

text \<open>Both nodes go up until they meet; the result \<^term>\<open>Some None\<close> is the null pointer.\<close>

partial_function (option) meet_loop :: "tree \<Rightarrow> nat \<Rightarrow> nat \<Rightarrow> nat option option" where
  [code]: "meet_loop ns a b =
     (case ns a of
        None \<Rightarrow> None
      | Some nd \<Rightarrow>
          (if parents nd = [] then Some None
           else case first_parent ns a of
             None \<Rightarrow> None
           | Some a' \<Rightarrow>
               (case first_parent ns b of
                  None \<Rightarrow> None
                | Some b' \<Rightarrow> if a' = b' then Some (Some a') else meet_loop ns a' b')))"

definition fsnodes_find_common_ancestor :: "tree \<Rightarrow> nat \<Rightarrow> nat \<Rightarrow> nat option option" where
  "fsnodes_find_common_ancestor ns a b =
     (case fsnodes_find_depth ns a of
        None \<Rightarrow> None
      | Some depth_a \<Rightarrow>
          (case fsnodes_find_depth ns b of
             None \<Rightarrow> None
           | Some depth_b \<Rightarrow>
               (case climb ns (depth_a - depth_b) a of
                  None \<Rightarrow> None
                | Some a' \<Rightarrow>
                    (case climb ns (depth_b - depth_a) b of
                       None \<Rightarrow> None
                     | Some b' \<Rightarrow> if a' = b' then Some (Some a') else meet_loop ns a' b'))))"

text \<open>
  \<^verbatim>\<open>fsnodes_getpath\<close>: the first loop adds up the length of the path, the second one
  fills it in from the end. \<open>root\<close> is the root of the file system, \<open>base\<close> the root
  of the session.
\<close>

partial_function (option) path_size :: "tree \<Rightarrow> nat \<Rightarrow> nat \<Rightarrow> nat \<Rightarrow> nat \<Rightarrow> nat option" where
  [code]: "path_size ns root base p len =
     (case ns p of
        None \<Rightarrow> None
      | Some nd \<Rightarrow>
          (if p \<noteq> root \<and> parents nd \<noteq> [] \<and> p \<noteq> base
           then case idToNodeVerify ns (fst (hd (parents nd))) of
                  None \<Rightarrow> None
                | Some _ \<Rightarrow> path_size ns root base (fst (hd (parents nd)))
                             (len + length (getChildName (fst (hd (parents nd))) nd) + 1)
           else Some len))"

text \<open>
  The string is kept as the part that is filled already: \<open>len\<close> characters in front of it are
  still missing.
\<close>

definition path_piece :: "string \<Rightarrow> nat \<Rightarrow> string \<Rightarrow> nat \<times> string" where
  "path_piece name len ret =
     (let (len1, ret1) =
        (if len \<ge> length name then (len - length name, name @ ret)
         else if len > 0 then (0, drop (length name - len) name @ ret)
         else (len, ret))
      in if len1 > 0 then (len1 - 1, CHR ''/'' # ret1) else (len1, ret1))"

partial_function (option) path_fill :: "tree \<Rightarrow> nat \<Rightarrow> nat \<Rightarrow> nat \<Rightarrow> string \<Rightarrow> string option" where
  [code]: "path_fill ns root p len ret =
     (case ns p of
        None \<Rightarrow> None
      | Some nd \<Rightarrow>
          (if p \<noteq> root \<and> parents nd \<noteq> []
           then case idToNodeVerify ns (fst (hd (parents nd))) of
                  None \<Rightarrow> None
                | Some _ \<Rightarrow>
                    (let x = path_piece (getChildName (fst (hd (parents nd))) nd) len ret
                     in path_fill ns root (fst (hd (parents nd))) (fst x) (snd x))
           else Some (replicate len (CHR 0x00) @ ret)))"

definition fsnodes_getpath :: "tree \<Rightarrow> nat \<Rightarrow> nat \<Rightarrow> nat \<Rightarrow> string option" where
  "fsnodes_getpath ns root base node =
     (if node = base then Some ''/''
      else case path_size ns root base node 0 of
             None \<Rightarrow> None
           | Some len \<Rightarrow> path_fill ns root node (min len 65535) [])"

section \<open>Well-formed trees\<close>

text \<open>
  Parents are directories, a directory has at most one parent, and going up terminates: every parent
  is nearer to the root, where \<open>h\<close> measures the distance.
\<close>

definition tree_wf :: "tree \<Rightarrow> bool" where
  "tree_wf ns \<longleftrightarrow>
     (\<forall>a nd p. ns a = Some nd \<longrightarrow> p \<in> fst ` set (parents nd) \<longrightarrow> (\<exists>pd. ns p = Some pd \<and> ntype pd = DirectoryNode))
     \<and> (\<forall>a nd. ns a = Some nd \<longrightarrow> ntype nd = DirectoryNode \<longrightarrow> length (parents nd) \<le> 1)
     \<and> (\<exists>h :: nat \<Rightarrow> nat. \<forall>a nd p. ns a = Some nd \<longrightarrow> p \<in> fst ` set (parents nd) \<longrightarrow> h p < h a)"

definition is_dir :: "tree \<Rightarrow> nat \<Rightarrow> bool" where
  "is_dir ns a \<longleftrightarrow> (\<exists>nd. ns a = Some nd \<and> ntype nd = DirectoryNode)"

text \<open>\<open>p\<close> is a parent of \<open>a\<close>; the ancestors of a node are the nodes above it.\<close>

definition up :: "tree \<Rightarrow> nat \<Rightarrow> nat \<Rightarrow> bool" where
  "up ns a p \<longleftrightarrow> (\<exists>nd. ns a = Some nd \<and> p \<in> fst ` set (parents nd))"

text \<open>The chain of directories from a directory to its root.\<close>

inductive chain :: "tree \<Rightarrow> nat \<Rightarrow> nat list \<Rightarrow> bool" for ns where
  single: "ns a = Some nd \<Longrightarrow> parents nd = [] \<Longrightarrow> chain ns a [a]"
| above: "ns a = Some nd \<Longrightarrow> parents nd = [(p, x)] \<Longrightarrow> is_dir ns p \<Longrightarrow> chain ns p xs \<Longrightarrow> chain ns a (a # xs)"

inductive_cases chain_cases: "chain ns a xs"

lemma tree_wf_parent: "tree_wf ns \<Longrightarrow> ns a = Some nd \<Longrightarrow> p \<in> fst ` set (parents nd) \<Longrightarrow> is_dir ns p"
  unfolding tree_wf_def is_dir_def by (elim conjE) simp

lemma tree_wf_single: "tree_wf ns \<Longrightarrow> ns a = Some nd \<Longrightarrow> ntype nd = DirectoryNode \<Longrightarrow> length (parents nd) \<le> 1"
  unfolding tree_wf_def by (elim conjE) simp

lemma tree_wf_height: "tree_wf ns \<Longrightarrow>
    \<exists>h :: nat \<Rightarrow> nat. \<forall>a nd p. ns a = Some nd \<longrightarrow> p \<in> fst ` set (parents nd) \<longrightarrow> h p < h a"
  unfolding tree_wf_def by (elim conjE)

lemma chain_exists:
  assumes "tree_wf ns" "is_dir ns a"
  shows "\<exists>xs. chain ns a xs"
proof -
  obtain h :: "nat \<Rightarrow> nat" where h: "\<And>a nd p. ns a = Some nd \<Longrightarrow> p \<in> fst ` set (parents nd) \<Longrightarrow> h p < h a"
    using tree_wf_height [OF assms(1)] by blast
  show ?thesis using assms(2)
  proof (induction "h a" arbitrary: a rule: less_induct)
    case less
    then obtain nd where nd: "ns a = Some nd" "ntype nd = DirectoryNode" by (auto simp: is_dir_def)
    then have "length (parents nd) \<le> 1" by (rule tree_wf_single [OF assms(1)])
    then consider "parents nd = []" | p x where "parents nd = [(p, x)]"
      by (cases "parents nd") (auto simp: Suc_le_eq)
    then show ?case
    proof cases
      case 1
      then show ?thesis using chain.single [of ns a nd] nd(1) by blast
    next
      case (2 p x)
      then have p: "p \<in> fst ` set (parents nd)" by simp
      then have "is_dir ns p" by (rule tree_wf_parent [OF assms(1) nd(1)])
      then obtain xs where "chain ns p xs" using less.hyps [OF h [OF nd(1) p]] by blast
      then show ?thesis using chain.above [of ns a nd p x xs] nd(1) 2 \<open>is_dir ns p\<close> by blast
    qed
  qed
qed

lemma chain_ne: "chain ns a xs \<Longrightarrow> xs \<noteq> [] \<and> hd xs = a"
  by (auto elim: chain_cases)

lemma chain_set: "chain ns a xs \<Longrightarrow> set xs = {d. (up ns)\<^sup>*\<^sup>* a d}"
proof (induction rule: chain.induct)
  case (single a nd)
  have "a = d" if "(up ns)\<^sup>*\<^sup>* a d" for d
    using that single by (cases rule: converse_rtranclpE) (auto simp: up_def)
  then show ?case by auto
next
  case (above a nd p x xs)
  have "up ns a q \<longleftrightarrow> q = p" for q using above by (auto simp: up_def)
  then have "(up ns)\<^sup>*\<^sup>* a d \<longleftrightarrow> d = a \<or> (up ns)\<^sup>*\<^sup>* p d" for d
    by (metis converse_rtranclp_into_rtranclp converse_rtranclpE rtranclp.rtrancl_refl)
  then show ?case using above.IH by auto
qed

lemma verify_is_dir: "is_dir ns p \<Longrightarrow> \<exists>pd. idToNodeVerify ns p = Some pd"
  by (auto simp: idToNodeVerify_def is_dir_def)

lemma ancestor_loop_chain: "chain ns d xs \<Longrightarrow> ancestor_loop ns anc d = Some (anc \<in> set xs)"
proof (induction rule: chain.induct)
  case (single a nd)
  then show ?case by (subst ancestor_loop.simps) auto
next
  case (above a nd p x xs)
  then show ?case using verify_is_dir [of ns p] by (subst ancestor_loop.simps) auto
qed

lemma depth_loop_chain: "chain ns a xs \<Longrightarrow> depth_loop ns a k = Some (k + length xs - 1)"
proof (induction arbitrary: k rule: chain.induct)
  case (single a nd)
  then show ?case by (subst depth_loop.simps) auto
next
  case (above a nd p x xs)
  then show ?case using verify_is_dir [of ns p] chain_ne [OF above.hyps(4)] by (subst depth_loop.simps) (cases xs; auto)
qed

lemma chain_drop: "chain ns a xs \<Longrightarrow> k < length xs \<Longrightarrow> chain ns (xs ! k) (drop k xs)"
proof (induction arbitrary: k rule: chain.induct)
  case (single a nd)
  then show ?case by (auto intro: chain.single)
next
  case (above a nd p x xs)
  then show ?case by (cases k) (auto intro: chain.above)
qed

lemma first_parent_chain: "chain ns a (a # b # xs) \<Longrightarrow> first_parent ns a = Some b \<and> chain ns b (b # xs)"
proof (erule chain_cases)
  fix nd p x ys
  assume a: "a # b # xs = a # ys" "ns a = Some nd" "parents nd = [(p, x)]" "is_dir ns p" "chain ns p ys"
  then show ?thesis using chain_ne [OF a(5)] verify_is_dir [OF a(4)] by (auto simp: first_parent_def)
qed simp

lemma chain_Cons: "chain ns a xs \<Longrightarrow> \<exists>ys. xs = a # ys"
  using chain_ne [of ns a xs] by (cases xs) auto

lemma climb_chain: "chain ns a xs \<Longrightarrow> k < length xs \<Longrightarrow> climb ns k a = Some (xs ! k)"
proof (induction k arbitrary: a xs)
  case 0
  then show ?case using chain_Cons by fastforce
next
  case (Suc k)
  then obtain b ys where xs: "xs = a # b # ys" using chain_Cons [of ns a xs] by (cases xs; cases "tl xs") auto
  then show ?case using first_parent_chain [of ns a b ys] Suc by auto
qed

section \<open>Common ancestors\<close>

text \<open>Two chains from the same level that meet, meet for good.\<close>

lemma chain_unique: "chain ns a xs \<Longrightarrow> chain ns a ys \<Longrightarrow> xs = ys"
proof (induction arbitrary: ys rule: chain.induct)
  case (single a nd)
  from single.prems show ?case
  proof (rule chain_cases)
    fix nd' p x xs assume "ns a = Some nd'" "parents nd' = [(p, x)]"
    then show ?thesis using single.hyps by simp
  qed simp
next
  case (above a nd p x xs)
  from above.prems show ?case
  proof (rule chain_cases)
    fix nd' p' x' xs' assume c: "ys = a # xs'" "ns a = Some nd'" "parents nd' = [(p', x')]" "chain ns p' xs'"
    then have "p' = p" using above.hyps(1,2) by simp
    then show ?thesis using above.IH c(1,4) by simp
  qed (use above.hyps(1,2) in simp)
qed

lemma meet_loop_chain:
  assumes "chain ns a xs" "chain ns b ys" "length xs = length ys" "a \<noteq> b"
  shows "meet_loop ns a b = Some (find (\<lambda>d. d \<in> set ys) xs) \<and> a \<notin> set ys"
  using assms
proof (induction arbitrary: b ys rule: chain.induct)
  case (single a nd)
  then have "ys = [b]" using chain_Cons [OF single.prems(1)] by auto
  then show ?case using single by (subst meet_loop.simps) auto
next
  case (above a nd p x xs)
  obtain zs where xs: "xs = p # zs" using chain_Cons [OF above.hyps(4)] by blast
  obtain q us where ys: "ys = b # q # us"
    using chain_Cons [OF above.prems(1)] above.prems(2) xs by (cases "tl ys") auto
  have q: "first_parent ns b = Some q" "chain ns q (q # us)"
    using first_parent_chain above.prems(1) unfolding ys by auto
  have p: "first_parent ns a = Some p"
    using above.hyps verify_is_dir [OF above.hyps(3)] by (auto simp: first_parent_def)
  have len: "length xs = length (q # us)" using above.prems(2) ys by simp
  have loop: "meet_loop ns a b = (if p = q then Some (Some p) else meet_loop ns p q)"
    using p q above.hyps by (subst meet_loop.simps) auto
  have nb: "b \<notin> set xs"
  proof
    assume "b \<in> set xs"
    then obtain k where k: "k < length xs" "xs ! k = b" by (auto simp: in_set_conv_nth)
    have "chain ns b (drop k xs)" using chain_drop [OF above.hyps(4) k(1)] k(2) by simp
    then have "drop k xs = ys" using chain_unique above.prems(1) by blast
    then have "length xs - k = Suc (length xs)" using above.prems(2) by (metis length_Cons length_drop)
    then show False by simp
  qed
  have na: "a \<notin> set (q # us)"
  proof
    assume "a \<in> set (q # us)"
    then obtain k where k: "k < length (q # us)" "(q # us) ! k = a" unfolding in_set_conv_nth by blast
    have "chain ns a (drop k (q # us))" using chain_drop [OF q(2) k(1)] k(2) by simp
    moreover have "chain ns a (a # xs)" using chain.above above.hyps by blast
    ultimately have "drop k (q # us) = a # xs" by (rule chain_unique)
    then have "length (q # us) - k = Suc (length xs)" by (metis length_Cons length_drop)
    then show False using len by simp
  qed
  have skip: "find (\<lambda>d. d \<in> set ys) (a # xs) = find (\<lambda>d. d \<in> set (q # us)) xs"
  proof -
    have "find (\<lambda>d. d \<in> set ys) xs = find (\<lambda>d. d \<in> set (q # us)) xs"
      using nb unfolding ys by (intro find_cong) auto
    then show ?thesis using na above.prems(3) ys by auto
  qed
  show ?case
  proof (cases "p = q")
    case True
    then show ?thesis using loop skip xs na above.prems(3) ys by simp
  next
    case False
    then show ?thesis using loop skip above.IH [OF q(2) len] na above.prems(3) ys by simp
  qed
qed

lemma find_drop: "(\<And>x. x \<in> set (take k xs) \<Longrightarrow> \<not> P x) \<Longrightarrow> find P (drop k xs) = find P xs"
  by (metis append_take_drop_id find_None_iff find_append option.simps(4))

text \<open>The part of the longer chain above the length of the other one is not on the other chain.\<close>

lemma chain_longer:
  assumes "chain ns a xs" "chain ns b ys" "d \<in> set (take (length xs - length ys) xs)"
  shows "d \<notin> set ys"
proof
  assume "d \<in> set ys"
  then obtain j where j: "j < length ys" "ys ! j = d" by (auto simp: in_set_conv_nth)
  obtain k where k: "k < length xs - length ys" "xs ! k = d" using assms(3) by (auto simp: in_set_conv_nth)
  have "chain ns d (drop k xs)" "chain ns d (drop j ys)"
    using chain_drop [OF assms(1), of k] chain_drop [OF assms(2) j(1)] j(2) k by simp_all
  then have "drop k xs = drop j ys" by (rule chain_unique)
  then have "length xs - k = length ys - j" by (metis length_drop)
  then show False using j(1) k(1) by linarith
qed

lemma common_ancestor_chain:
  assumes a: "chain ns a xs" and b: "chain ns b ys"
  shows "fsnodes_find_common_ancestor ns a b = Some (find (\<lambda>d. d \<in> set ys) xs)"
proof -
  define k where "k = length xs - length ys"
  define l where "l = length ys - length xs"
  have len: "length xs > 0" "length ys > 0" using chain_ne a b by auto
  have kl: "k < length xs" "l < length ys" using len by (auto simp: k_def l_def)
  have ca: "chain ns (xs ! k) (drop k xs)" and cb: "chain ns (ys ! l) (drop l ys)"
    using chain_drop a b kl by blast+
  have e: "length (drop k xs) = length (drop l ys)" by (simp add: k_def l_def)
  have f: "fsnodes_find_common_ancestor ns a b =
      (if xs ! k = ys ! l then Some (Some (xs ! k)) else meet_loop ns (xs ! k) (ys ! l))"
    using depth_loop_chain [OF a, of 1] depth_loop_chain [OF b, of 1] climb_chain [OF a kl(1)] climb_chain [OF b kl(2)] len
    by (simp add: fsnodes_find_common_ancestor_def fsnodes_find_depth_def k_def l_def)
  have "find (\<lambda>d. d \<in> set ys) xs = find (\<lambda>d. d \<in> set ys) (drop k xs)"
    using chain_longer [OF a b] by (intro find_drop [symmetric]) (auto simp: k_def)
  also have "\<dots> = find (\<lambda>d. d \<in> set (drop l ys)) (drop k xs)"
  proof (rule find_cong [OF refl])
    fix d assume "d \<in> set (drop k xs)"
    then have "d \<in> set xs" by (meson in_set_dropD)
    then have "d \<notin> set (take l ys)" using chain_longer [OF b a] by (auto simp: l_def)
    then show "d \<in> set ys \<longleftrightarrow> d \<in> set (drop l ys)"
      by (metis Un_iff append_take_drop_id set_append)
  qed
  finally have "find (\<lambda>d. d \<in> set ys) xs = find (\<lambda>d. d \<in> set (drop l ys)) (drop k xs)" .
  moreover have "drop k xs = xs ! k # drop (Suc k) xs" "drop l ys = ys ! l # drop (Suc l) ys"
    using kl by (simp_all add: Cons_nth_drop_Suc)
  ultimately show ?thesis
    unfolding f using meet_loop_chain [OF ca cb e] by (cases "xs ! k = ys ! l") auto
qed

section \<open>Ancestors\<close>

lemma up_parents:
  "ns a = Some nd \<Longrightarrow> (\<exists>p \<in> set (parents nd). (up ns)\<^sup>*\<^sup>* (fst p) d) \<longleftrightarrow> (up ns)\<^sup>+\<^sup>+ a d"
  using rtranclp_into_tranclp2 [of "up ns" a _ d] by (force simp: up_def dest: tranclpD)

lemma isAncestor_iff:
  assumes wf: "tree_wf ns" and nd: "ns a = Some nd"
  shows "isAncestor ns anc nd = Some ((up ns)\<^sup>+\<^sup>+ a anc)"
proof -
  have step: "(case idToNodeVerify ns (fst p) of None \<Rightarrow> None | Some _ \<Rightarrow> ancestor_loop ns anc (fst p))
      = Some ((up ns)\<^sup>*\<^sup>* (fst p) anc)" if "p \<in> set (parents nd)" for p
  proof -
    have d: "is_dir ns (fst p)" using tree_wf_parent [OF wf nd] that by blast
    then obtain xs where xs: "chain ns (fst p) xs" using chain_exists [OF wf] by blast
    obtain pd where "idToNodeVerify ns (fst p) = Some pd" using verify_is_dir [OF d] by blast
    then show ?thesis using ancestor_loop_chain [OF xs, of anc] chain_set [OF xs] by simp
  qed
  have "isAncestor ns anc nd = Some (\<exists>p \<in> set (parents nd). (up ns)\<^sup>*\<^sup>* (fst p) anc)"
    unfolding isAncestor_def by (rule any_opt_Some [OF step])
  then show ?thesis using up_parents [of ns a nd anc] nd by simp
qed

section \<open>Paths\<close>

inductive route :: "tree \<Rightarrow> nat \<Rightarrow> nat \<Rightarrow> nat \<Rightarrow> string list \<Rightarrow> bool" for ns root base where
  stop: "ns p = Some nd \<Longrightarrow> p = root \<or> parents nd = [] \<or> p = base \<Longrightarrow> route ns root base p []"
| go: "ns p = Some nd \<Longrightarrow> p \<noteq> root \<Longrightarrow> p \<noteq> base \<Longrightarrow> parents nd = (q, name) # rest \<Longrightarrow> is_dir ns q \<Longrightarrow>
     route ns root base q names \<Longrightarrow> route ns root base p (name # names)"

definition full_path :: "string list \<Rightarrow> string" where
  "full_path names = concat (map (\<lambda>name. CHR ''/'' # name) (rev names))"

lemma full_path_Cons: "full_path (name # names) = full_path names @ CHR ''/'' # name"
  by (simp add: full_path_def)

lemma route_exists:
  assumes wf: "tree_wf ns" and "ns p = Some nd"
  shows "\<exists>names. route ns root base p names"
proof -
  obtain h :: "nat \<Rightarrow> nat" where h: "\<And>a nd p. ns a = Some nd \<Longrightarrow> p \<in> fst ` set (parents nd) \<Longrightarrow> h p < h a"
    using tree_wf_height [OF wf] by blast
  show ?thesis using assms(2)
  proof (induction "h p" arbitrary: p nd rule: less_induct)
    case less
    show ?case
    proof (cases "p = root \<or> parents nd = [] \<or> p = base")
      case True
      then show ?thesis using route.stop [of ns p nd] less.prems by blast
    next
      case False
      then obtain q name rest where ps: "parents nd = (q, name) # rest" by (cases "parents nd") auto
      then have q: "q \<in> fst ` set (parents nd)" by simp
      have d: "is_dir ns q" by (rule tree_wf_parent [OF wf less.prems q])
      then obtain qd where "ns q = Some qd" by (auto simp: is_dir_def)
      then obtain names where "route ns root base q names" using less.hyps [OF h [OF less.prems q]] by blast
      then show ?thesis using route.go [of ns p nd root base q name rest names] less.prems False ps d by blast
    qed
  qed
qed

lemma getChildName_hd: "parents nd = (q, name) # rest \<Longrightarrow> getChildName q nd = name"
  by (simp add: getChildName_def)

lemma path_size_route: "route ns root base p names \<Longrightarrow> path_size ns root base p k = Some (k + length (full_path names))"
proof (induction arbitrary: k rule: route.induct)
  case (stop p nd)
  then show ?case by (subst path_size.simps) (auto simp: full_path_def)
next
  case (go p nd q name rest names)
  then show ?case
    using verify_is_dir [OF go.hyps(5)] by (subst path_size.simps) (auto simp: getChildName_hd full_path_Cons)
qed

lemma path_fill_zero:
  assumes wf: "tree_wf ns" and "ns p = Some nd"
  shows "path_fill ns root p 0 ret = Some ret"
proof -
  obtain h :: "nat \<Rightarrow> nat" where h: "\<And>a nd p. ns a = Some nd \<Longrightarrow> p \<in> fst ` set (parents nd) \<Longrightarrow> h p < h a"
    using tree_wf_height [OF wf] by blast
  show ?thesis using assms(2)
  proof (induction "h p" arbitrary: p nd rule: less_induct)
    case less
    show ?case
    proof (cases "p = root \<or> parents nd = []")
      case True
      then show ?thesis using less.prems by (subst path_fill.simps) auto
    next
      case False
      then have q: "fst (hd (parents nd)) \<in> fst ` set (parents nd)" by auto
      have d: "is_dir ns (fst (hd (parents nd)))" by (rule tree_wf_parent [OF wf less.prems q])
      then obtain qd where "ns (fst (hd (parents nd))) = Some qd" by (auto simp: is_dir_def)
      then have "path_fill ns root (fst (hd (parents nd))) 0 ret = Some ret"
        using less.hyps [OF h [OF less.prems q]] by blast
      moreover have "path_piece name 0 ret = (0, ret)" for name by (simp add: path_piece_def)
      ultimately show ?thesis
        using False less.prems verify_is_dir [OF d] by (subst path_fill.simps) auto
    qed
  qed
qed

lemma path_piece_step:
  assumes "len \<le> length (full_path (name # names))"
  shows "fst (path_piece name len ret) \<le> length (full_path names)
    \<and> drop (length (full_path names) - fst (path_piece name len ret)) (full_path names) @ snd (path_piece name len ret)
      = drop (length (full_path (name # names)) - len) (full_path (name # names)) @ ret"
proof -
  consider "len > length name" | "len = length name" | "len < length name" "len > 0" | "len = 0" by linarith
  then show ?thesis
    using assms by cases (auto simp: path_piece_def full_path_Cons Let_def Suc_diff_le)
qed

lemma path_fill_route:
  assumes "tree_wf ns"
  shows "route ns root base p names \<Longrightarrow> len \<le> length (full_path names) \<Longrightarrow>
     path_fill ns root p len ret = Some (drop (length (full_path names) - len) (full_path names) @ ret)"
proof (induction arbitrary: len ret rule: route.induct)
  case (stop p nd)
  then show ?case using path_fill_zero [OF assms] by (simp add: full_path_def)
next
  case (go p nd q name rest names)
  let ?x = "path_piece name len ret"
  have "path_fill ns root p len ret = path_fill ns root q (fst ?x) (snd ?x)"
    using go.hyps verify_is_dir [OF go.hyps(5)] by (subst path_fill.simps) (auto simp: getChildName_hd Let_def)
  then show ?case using path_piece_step [OF go.prems] go.IH [of "fst ?x" "snd ?x"] by simp
qed

lemma getpath_route:
  assumes "tree_wf ns" "ns node = Some nd" "node \<noteq> base"
  shows "\<exists>names. route ns root base node names \<and> fsnodes_getpath ns root base node
     = Some (drop (length (full_path names) - 65535) (full_path names))"
proof -
  obtain names where r: "route ns root base node names" using route_exists [OF assms(1,2)] by blast
  have "fsnodes_getpath ns root base node = path_fill ns root node (min (length (full_path names)) 65535) []"
    using path_size_route [OF r, of 0] assms(3) by (simp add: fsnodes_getpath_def)
  also have "\<dots> = Some (drop (length (full_path names) - min (length (full_path names)) 65535) (full_path names) @ [])"
    by (rule path_fill_route [OF assms(1) r]) simp
  finally show ?thesis using r by (intro exI [of _ names]) (auto simp: min_def)
qed

end
