(* ===== verification/Quotas.thy ===== *)
theory Quotas
  imports QuotaDB NodeTree
begin

text \<open>
  Quota checks, requests and replay of the master: \<^verbatim>\<open>src/src/master/filesystem_quota.cc\<close>
  and \<^verbatim>\<open>filesystem_quota.h\<close>. The global \<^verbatim>\<open>gMetadata\<close> is a record of the nodes,
  the quota database, its checksum, the metadata version and the lines of the changelog. A result
  \<^const>\<open>None\<close> is a failed assertion.
\<close>

section \<open>State\<close>

text \<open>A line \<^verbatim>\<open>SETQUOTA\<close> of the changelog: rigor, resource and owner type as characters.\<close>

type_synonym setquota_line = "char \<times> char \<times> char \<times> nat \<times> 64 word"

record quota_meta =
  nodes :: tree
  quota_database :: quota_db
  quota_checksum :: "64 word"
  metadata_version :: nat
  log_lines :: "setquota_line list"

record fs_context =
  ctx_uid :: nat
  ctx_gid :: nat
  ctx_rootinode :: nat
  ses_readonly :: bool
  ses_ignoregid :: bool
  ses_allcanchangequota :: bool

datatype quota_status = StatusOk | ErrorEperm | ErrorEinval | ErrorErofs

section \<open>Checks\<close>

type_synonym changes = "(quota_resource \<times> 64 word) list"

fun dir_usage :: "fsnode \<Rightarrow> quota_resource \<Rightarrow> 64 word" where
  "dir_usage nd Inodes = word_of_nat (stat_inodes nd)"
| "dir_usage nd Size = word_of_nat (stat_size nd)"

fun dir_quota_loop :: "limits \<Rightarrow> fsnode \<Rightarrow> changes \<Rightarrow> bool" where
  "dir_quota_loop l nd [] = False"
| "dir_quota_loop l nd ((rs, delta) # xs) =
     (if l Hard rs \<le> 0 then dir_quota_loop l nd xs
      else if dir_usage nd rs + delta > l Hard rs then True
      else dir_quota_loop l nd xs)"

definition fsnodes_test_dir_quota_noparents :: "tree \<Rightarrow> quota_db \<Rightarrow> changes \<Rightarrow> nat \<Rightarrow> bool" where
  "fsnodes_test_dir_quota_noparents ns db xs a =
     (case ns a of
        None \<Rightarrow> False
      | Some nd \<Rightarrow>
          if ntype nd \<noteq> DirectoryNode then False
          else case quota_get db OwnerInode a of None \<Rightarrow> False | Some l \<Rightarrow> dir_quota_loop l nd xs)"

definition fsnodes_quota_exceeded_ug :: "quota_db \<Rightarrow> nat \<Rightarrow> nat \<Rightarrow> changes \<Rightarrow> bool" where
  "fsnodes_quota_exceeded_ug db uid gid xs \<longleftrightarrow>
     exceeds db OwnerUser uid Hard xs \<or> exceeds db OwnerGroup gid Hard xs"

definition quota_exceeded_ug_node :: "tree \<Rightarrow> quota_db \<Rightarrow> nat \<Rightarrow> changes \<Rightarrow> bool" where
  "quota_exceeded_ug_node ns db a xs =
     (case ns a of None \<Rightarrow> False | Some nd \<Rightarrow> fsnodes_quota_exceeded_ug db (nuid nd) (ngid nd) xs)"

text \<open>The walk of a directory to the root.\<close>

partial_function (option) dirs_exceeded :: "tree \<Rightarrow> quota_db \<Rightarrow> changes \<Rightarrow> nat \<Rightarrow> bool option" where
  [code]: "dirs_exceeded ns db xs a =
     (case ns a of
        None \<Rightarrow> None
      | Some nd \<Rightarrow>
          (case parents nd of
             [] \<Rightarrow> Some False
           | p # _ \<Rightarrow>
               (case idToNodeVerify ns (fst p) of
                  None \<Rightarrow> None
                | Some _ \<Rightarrow>
                    if fsnodes_test_dir_quota_noparents ns db xs (fst p) then Some True
                    else dirs_exceeded ns db xs (fst p))))"

definition dir_exceeded :: "tree \<Rightarrow> quota_db \<Rightarrow> changes \<Rightarrow> nat \<Rightarrow> bool option" where
  "dir_exceeded ns db xs a =
     (if fsnodes_test_dir_quota_noparents ns db xs a then Some True else dirs_exceeded ns db xs a)"

text \<open>A node that is not a directory is checked below each of its parents, which are directories.\<close>

definition fsnodes_quota_exceeded_dir :: "tree \<Rightarrow> quota_db \<Rightarrow> changes \<Rightarrow> nat \<Rightarrow> bool option" where
  "fsnodes_quota_exceeded_dir ns db xs a =
     (case ns a of
        None \<Rightarrow> Some False
      | Some nd \<Rightarrow>
          if ntype nd = DirectoryNode then dir_exceeded ns db xs a
          else any_opt (\<lambda>p. case idToNodeVerify ns (fst p) of None \<Rightarrow> None | Some _ \<Rightarrow> dir_exceeded ns db xs (fst p))
                 (parents nd))"

text \<open>Moving a directory: only the directories below the common ancestor gain resources.\<close>

partial_function (option) move_loop :: "tree \<Rightarrow> quota_db \<Rightarrow> changes \<Rightarrow> nat option \<Rightarrow> nat \<Rightarrow> bool option" where
  [code]: "move_loop ns db xs common a =
     (case ns a of
        None \<Rightarrow> None
      | Some nd \<Rightarrow>
          (case parents nd of
             [] \<Rightarrow> Some False
           | p # _ \<Rightarrow>
               if Some (fst p) = common then Some False
               else if fsnodes_test_dir_quota_noparents ns db xs (fst p) then Some True
               else move_loop ns db xs common (fst p)))"

definition fsnodes_quota_exceeded_move :: "tree \<Rightarrow> quota_db \<Rightarrow> changes \<Rightarrow> nat \<Rightarrow> nat \<Rightarrow> bool option" where
  "fsnodes_quota_exceeded_move ns db xs a prev =
     (case fsnodes_find_common_ancestor ns prev a of
        None \<Rightarrow> None
      | Some common \<Rightarrow>
          if Some a = common then Some False
          else if fsnodes_test_dir_quota_noparents ns db xs a then Some True
          else move_loop ns db xs common a)"

definition fsnodes_quota_exceeded :: "tree \<Rightarrow> quota_db \<Rightarrow> changes \<Rightarrow> nat \<Rightarrow> bool option" where
  "fsnodes_quota_exceeded ns db xs a =
     (if quota_exceeded_ug_node ns db a xs then Some True else fsnodes_quota_exceeded_dir ns db xs a)"

section \<open>Usage\<close>

fun fsnodes_quota_update :: "nat \<Rightarrow> nat \<Rightarrow> changes \<Rightarrow> quota_db \<Rightarrow> quota_db" where
  "fsnodes_quota_update uid gid [] db = db"
| "fsnodes_quota_update uid gid ((rs, delta) # xs) db =
     (if delta = 0 then fsnodes_quota_update uid gid xs db
      else fsnodes_quota_update uid gid xs
             (quota_update OwnerGroup gid Used rs delta (quota_update OwnerUser uid Used rs delta db)))"

definition fsnodes_quota_remove :: "quota_owner_type \<Rightarrow> nat \<Rightarrow> quota_meta \<Rightarrow> quota_meta" where
  "fsnodes_quota_remove ot oid m =
     (let db = quota_remove_owner ot oid (quota_database m)
      in m\<lparr>quota_database := db, quota_checksum := checksum db\<rparr>)"

section \<open>Requests\<close>

fun filter_opt :: "('a \<Rightarrow> bool option) \<Rightarrow> 'a list \<Rightarrow> 'a list option" where
  "filter_opt f [] = Some []"
| "filter_opt f (x # xs) =
     (case f x of None \<Rightarrow> None
      | Some keep \<Rightarrow> map_option (\<lambda>ys. if keep then x # ys else ys) (filter_opt f xs))"

definition visible_entry :: "tree \<Rightarrow> nat \<Rightarrow> quota_entry \<Rightarrow> bool option" where
  "visible_entry ns root e =
     (if owner_type e = OwnerInode
      then case ns (owner_id e) of
             None \<Rightarrow> Some False
           | Some nd \<Rightarrow> if root = owner_id e then Some True else isAncestor ns root nd
      else Some True)"

definition fs_remove_invisible_quota_entries :: "tree \<Rightarrow> nat \<Rightarrow> quota_entry list \<Rightarrow> quota_entry list option" where
  "fs_remove_invisible_quota_entries ns root es =
     (if root = 1 then Some es
      else case idToNodeVerify ns root of None \<Rightarrow> None | Some _ \<Rightarrow> filter_opt (visible_entry ns root) es)"

definition fill_usage :: "tree \<Rightarrow> quota_entry \<Rightarrow> quota_entry" where
  "fill_usage ns e =
     (if owner_type e \<noteq> OwnerInode \<or> rigor e \<noteq> Used then e
      else case ns (owner_id e) of
             None \<Rightarrow> e
           | Some nd \<Rightarrow> if ntype nd \<noteq> DirectoryNode then e else e\<lparr>limit := dir_usage nd (resource e)\<rparr>)"

definition fs_quota_get_all :: "quota_meta \<Rightarrow> fs_context \<Rightarrow> (quota_status + quota_entry list) option" where
  "fs_quota_get_all m ctx =
     (if ctx_uid ctx \<noteq> 0 \<and> \<not> ses_allcanchangequota ctx then Some (Inl ErrorEperm)
      else map_option Inr (fs_remove_invisible_quota_entries (nodes m) (ctx_rootinode ctx)
             (map (fill_usage (nodes m)) (getEntriesWithStats (quota_database m)))))"

definition owner_status :: "quota_meta \<Rightarrow> fs_context \<Rightarrow> quota_owner_type \<times> nat \<Rightarrow> quota_status" where
  "owner_status m ctx ow =
     (if ctx_uid ctx \<noteq> 0 \<and> \<not> ses_allcanchangequota ctx
      then case fst ow of
             OwnerUser \<Rightarrow> if ctx_uid ctx \<noteq> snd ow then ErrorEperm else StatusOk
           | OwnerGroup \<Rightarrow> if ctx_gid ctx \<noteq> snd ow \<and> \<not> ses_ignoregid ctx then ErrorEperm else StatusOk
           | OwnerInode \<Rightarrow>
               (case nodes m (snd ow) of
                  None \<Rightarrow> ErrorEinval
                | Some nd \<Rightarrow>
                    if ntype nd \<noteq> DirectoryNode then ErrorEinval
                    else if nuid nd \<noteq> ctx_uid ctx \<or> (ngid nd \<noteq> ctx_gid ctx \<and> \<not> ses_ignoregid ctx) then ErrorEperm
                    else StatusOk)
      else StatusOk)"

definition owner_results :: "quota_meta \<Rightarrow> quota_owner_type \<times> nat \<Rightarrow> quota_entry list option" where
  "owner_results m ow =
     (case quota_get (quota_database m) (fst ow) (snd ow) of
        None \<Rightarrow> Some []
      | Some l \<Rightarrow>
          let shown = [entry (fst ow) (snd ow) rg rs l. rg \<leftarrow> [Soft, Hard], rs \<leftarrow> [Inodes, Size]]
          in if fst ow = OwnerInode
             then case nodes m (snd ow) of
                    None \<Rightarrow> None
                  | Some nd \<Rightarrow> Some (shown @ [entry OwnerInode (snd ow) Used rs (\<lambda>_. dir_usage nd). rs \<leftarrow> [Inodes, Size]])
             else Some (shown @ [entry (fst ow) (snd ow) Used rs l. rs \<leftarrow> [Inodes, Size]]))"

fun quota_get_loop :: "quota_meta \<Rightarrow> fs_context \<Rightarrow> (quota_owner_type \<times> nat) list \<Rightarrow> quota_entry list
    \<Rightarrow> (quota_status + quota_entry list) option" where
  "quota_get_loop m ctx [] tmp = Some (Inr tmp)"
| "quota_get_loop m ctx (ow # ows) tmp =
     (if owner_status m ctx ow \<noteq> StatusOk then Some (Inl (owner_status m ctx ow))
      else case owner_results m ow of None \<Rightarrow> None | Some es \<Rightarrow> quota_get_loop m ctx ows (tmp @ es))"

definition fs_quota_get :: "quota_meta \<Rightarrow> fs_context \<Rightarrow> (quota_owner_type \<times> nat) list \<Rightarrow> (quota_status + quota_entry list) option" where
  "fs_quota_get m ctx owners =
     (case quota_get_loop m ctx owners [] of
        None \<Rightarrow> None
      | Some (Inl st) \<Rightarrow> Some (Inl st)
      | Some (Inr tmp) \<Rightarrow> map_option Inr (fs_remove_invisible_quota_entries (nodes m) (ctx_rootinode ctx) tmp))"

text \<open>\<open>root\<close> is the number of the root directory.\<close>

fun fs_quota_get_info :: "tree \<Rightarrow> nat \<Rightarrow> fs_context \<Rightarrow> quota_entry list \<Rightarrow> string list option" where
  "fs_quota_get_info ns root ctx [] = Some []"
| "fs_quota_get_info ns root ctx (e # es) =
     (case (if owner_type e = OwnerInode
            then case ns (owner_id e) of
                   None \<Rightarrow> Some []
                 | Some _ \<Rightarrow> fsnodes_getpath ns root (ctx_rootinode ctx) (owner_id e)
            else Some []) of
        None \<Rightarrow> None
      | Some info \<Rightarrow> map_option ((#) info) (fs_quota_get_info ns root ctx es))"

fun rigor_name :: "quota_rigor \<Rightarrow> char" where
  "rigor_name Soft = CHR ''S''" | "rigor_name Hard = CHR ''H''" | "rigor_name Used = CHR ''U''"

fun resource_name :: "quota_resource \<Rightarrow> char" where
  "resource_name Inodes = CHR ''I''" | "resource_name Size = CHR ''S''"

fun owner_name :: "quota_owner_type \<Rightarrow> char" where
  "owner_name OwnerUser = CHR ''U''" | "owner_name OwnerGroup = CHR ''G''" | "owner_name OwnerInode = CHR ''I''"

text \<open>Sets one limit; the change is logged or, in replay, counted.\<close>

definition store_limit :: "quota_owner_type \<Rightarrow> nat \<Rightarrow> quota_rigor \<Rightarrow> quota_resource \<Rightarrow> 64 word \<Rightarrow> quota_meta \<Rightarrow> quota_meta" where
  "store_limit ot oid rg rs v m =
     (let db = removeEmpty ot oid (quota_set ot oid rg rs v (quota_database m))
      in m\<lparr>quota_database := db, quota_checksum := checksum db, metadata_version := metadata_version m + 1\<rparr>)"

definition line_of :: "quota_entry \<Rightarrow> setquota_line" where
  "line_of e = (rigor_name (rigor e), resource_name (resource e), owner_name (owner_type e), owner_id e, limit e)"

definition set_entry :: "quota_entry \<Rightarrow> quota_meta \<Rightarrow> quota_meta" where
  "set_entry e m =
     (store_limit (owner_type e) (owner_id e) (rigor e) (resource e) (limit e) m)\<lparr>log_lines := log_lines m @ [line_of e]\<rparr>"

definition fs_quota_set :: "fs_context \<Rightarrow> quota_entry list \<Rightarrow> quota_meta \<Rightarrow> quota_status \<times> quota_meta" where
  "fs_quota_set ctx es m =
     (if ses_readonly ctx then (ErrorErofs, m)
      else if ctx_uid ctx \<noteq> 0 \<and> \<not> ses_allcanchangequota ctx then (ErrorEperm, m)
      else if list_ex (\<lambda>e. owner_type e = OwnerInode \<and> nodes m (owner_id e) = None) es then (ErrorEinval, m)
      else (StatusOk, fold set_entry es m))"

section \<open>Replay\<close>

definition decodeChar :: "char list \<Rightarrow> 'a list \<Rightarrow> char \<Rightarrow> 'a option" where
  "decodeChar keys vals key = map_of (zip keys vals) key"

definition fs_apply_setquota :: "setquota_line \<Rightarrow> quota_meta \<Rightarrow> quota_status \<times> quota_meta" where
  "fs_apply_setquota line m =
     (case line of (rg, rs, ot, oid, v) \<Rightarrow>
        (case (decodeChar ''SH'' [Soft, Hard] rg, decodeChar ''SI'' [Size, Inodes] rs,
               decodeChar ''UGI'' [OwnerUser, OwnerGroup, OwnerInode] ot) of
           (Some rg', Some rs', Some ot') \<Rightarrow> (StatusOk, store_limit ot' oid rg' rs' v m)
         | _ \<Rightarrow> (ErrorEinval, m)))"

text \<open>Replay of a list of lines stops at the first line that is refused.\<close>

fun replay_quota :: "setquota_line list \<Rightarrow> quota_meta \<Rightarrow> quota_status \<times> quota_meta" where
  "replay_quota [] m = (StatusOk, m)"
| "replay_quota (l # ls) m =
     (case fs_apply_setquota l m of (StatusOk, m') \<Rightarrow> replay_quota ls m' | (st, m') \<Rightarrow> (st, m'))"

lemma dir_quota_loop_iff:
  "dir_quota_loop l nd xs \<longleftrightarrow> (\<exists>(rs, d) \<in> set xs. l Hard rs \<noteq> 0 \<and> dir_usage nd rs + d > l Hard rs)"
  by (induction l nd xs rule: dir_quota_loop.induct) auto

lemma test_dir_iff:
  "fsnodes_test_dir_quota_noparents ns db xs a \<longleftrightarrow> is_dir ns a \<and>
     (\<exists>nd. ns a = Some nd \<and> (\<exists>(rs, d) \<in> set xs. limits_at db OwnerInode a Hard rs \<noteq> 0
        \<and> dir_usage nd rs + d > limits_at db OwnerInode a Hard rs))"
  by (auto simp: fsnodes_test_dir_quota_noparents_def is_dir_def limits_at_def no_limits_def dir_quota_loop_iff
      split: option.splits)

lemma dirs_exceeded_chain:
  "chain ns a ds \<Longrightarrow> dirs_exceeded ns db xs a = Some (\<exists>d \<in> set (tl ds). fsnodes_test_dir_quota_noparents ns db xs d)"
proof (induction rule: chain.induct)
  case (single a nd)
  then show ?case by (subst dirs_exceeded.simps) auto
next
  case (above a nd p x ds)
  obtain es where ds: "ds = p # es" using chain_Cons [OF above.hyps(4)] by blast
  show ?case using above ds verify_is_dir [OF above.hyps(3)] by (subst dirs_exceeded.simps) auto
qed

lemma dir_exceeded_chain:
  "chain ns a ds \<Longrightarrow> dir_exceeded ns db xs a = Some (\<exists>d \<in> set ds. fsnodes_test_dir_quota_noparents ns db xs d)"
  using dirs_exceeded_chain [of ns a ds db xs] chain_Cons [of ns a ds] by (auto simp: dir_exceeded_def)

lemma dir_exceeded_up:
  assumes "tree_wf ns" "is_dir ns a"
  shows "dir_exceeded ns db xs a = Some (\<exists>d. (up ns)\<^sup>*\<^sup>* a d \<and> fsnodes_test_dir_quota_noparents ns db xs d)"
proof -
  obtain ds where ds: "chain ns a ds" using chain_exists [OF assms] by blast
  show ?thesis using dir_exceeded_chain [OF ds] chain_set [OF ds] by auto
qed

lemma exceeded_dir_up:
  assumes wf: "tree_wf ns" and nd: "ns a = Some nd"
  shows "fsnodes_quota_exceeded_dir ns db xs a = Some (\<exists>d. (up ns)\<^sup>*\<^sup>* a d \<and> fsnodes_test_dir_quota_noparents ns db xs d)"
proof (cases "ntype nd = DirectoryNode")
  case True
  then show ?thesis using nd dir_exceeded_up [OF wf, of a] by (simp add: fsnodes_quota_exceeded_dir_def is_dir_def)
next
  case False
  let ?t = "fsnodes_test_dir_quota_noparents ns db xs"
  have "(case idToNodeVerify ns (fst p) of None \<Rightarrow> None | Some _ \<Rightarrow> dir_exceeded ns db xs (fst p))
      = Some (\<exists>d. (up ns)\<^sup>*\<^sup>* (fst p) d \<and> ?t d)" if "p \<in> set (parents nd)" for p
  proof -
    have d: "is_dir ns (fst p)" using tree_wf_parent [OF wf nd] that by blast
    then show ?thesis using verify_is_dir [OF d] dir_exceeded_up [OF wf d] by auto
  qed
  then have res: "fsnodes_quota_exceeded_dir ns db xs a = Some (\<exists>p \<in> set (parents nd). \<exists>d. (up ns)\<^sup>*\<^sup>* (fst p) d \<and> ?t d)"
    using nd False any_opt_Some [of "parents nd" _ "\<lambda>p. \<exists>d. (up ns)\<^sup>*\<^sup>* (fst p) d \<and> ?t d"]
    by (simp add: fsnodes_quota_exceeded_dir_def)
  have "\<not> ?t a" using nd False by (simp add: test_dir_iff is_dir_def)
  moreover have "(\<exists>p \<in> set (parents nd). (up ns)\<^sup>*\<^sup>* (fst p) d) \<longleftrightarrow> (up ns)\<^sup>+\<^sup>+ a d" for d
    using up_parents [of ns a nd d] nd by simp
  moreover have "(up ns)\<^sup>*\<^sup>* a d \<longleftrightarrow> d = a \<or> (up ns)\<^sup>+\<^sup>+ a d" for d
    by (metis rtranclp.rtrancl_refl rtranclpD tranclp_into_rtranclp)
  ultimately have "(\<exists>p \<in> set (parents nd). \<exists>d. (up ns)\<^sup>*\<^sup>* (fst p) d \<and> ?t d) \<longleftrightarrow> (\<exists>d. (up ns)\<^sup>*\<^sup>* a d \<and> ?t d)"
    by metis
  then show ?thesis using res by simp
qed

text \<open>The first common node of two chains is the same from both sides.\<close>

lemma find_split: "find P xs = Some x \<Longrightarrow> \<exists>ys zs. xs = ys @ x # zs \<and> P x \<and> (\<forall>y \<in> set ys. \<not> P y)"
  by (induction xs) (auto split: if_splits intro: exI [of _ "[]"], metis Cons_eq_appendI set_ConsD)

lemma chain_suffix: "chain ns a (xs @ c # zs) \<Longrightarrow> chain ns c (c # zs)"
  using chain_drop [of ns a "xs @ c # zs" "length xs"] by simp

lemma chain_from:
  assumes "chain ns a (xs @ c # zs)" "chain ns b ys" "c \<in> set ys"
  shows "\<exists>us. ys = us @ c # zs"
proof -
  obtain us vs where ys: "ys = us @ c # vs" using assms(3) by (meson split_list)
  have "c # vs = c # zs" using chain_unique chain_suffix assms(1,2) unfolding ys by blast
  then show ?thesis using ys by blast
qed

lemma common_sym:
  assumes a: "chain ns a xs" and b: "chain ns b ys"
  shows "find (\<lambda>d. d \<in> set ys) xs = find (\<lambda>d. d \<in> set xs) ys"
proof (cases "find (\<lambda>d. d \<in> set ys) xs")
  case None
  then show ?thesis by (metis find_None_iff)
next
  case (Some c)
  then obtain us vs where xs: "xs = us @ c # vs" "c \<in> set ys" "\<forall>u \<in> set us. u \<notin> set ys"
    using find_split [of "\<lambda>d. d \<in> set ys" xs c] by blast
  obtain ws where ys: "ys = ws @ c # vs" using chain_from [OF _ b xs(2)] a xs(1) by blast
  have "w \<notin> set xs" if w: "w \<in> set ws" for w
  proof
    assume "w \<in> set xs"
    obtain w1 w2 where ws: "ws = w1 @ w # w2" using w by (meson split_list)
    have "chain ns b (w1 @ w # (w2 @ c # vs))" using b ys ws by simp
    then obtain us' where "xs = us' @ w # (w2 @ c # vs)" using chain_from [OF _ a \<open>w \<in> set xs\<close>] by blast
    then have "us @ c # vs = (us' @ w # w2) @ c # vs" using xs(1) by simp
    then have "w \<in> set us" by simp
    then show False using xs(3) w ys by auto
  qed
  then have "find (\<lambda>d. d \<in> set xs) ws = None" by (auto simp: find_None_iff)
  then show ?thesis using Some ys xs(1) by (simp add: find_append)
qed

text \<open>What is below the first common node is exactly what is not common.\<close>

lemma before_common:
  assumes a: "chain ns a xs" and b: "chain ns b ys" and c: "find (\<lambda>d. d \<in> set ys) xs = c"
  shows "set (takeWhile (\<lambda>d. Some d \<noteq> c) xs) = set xs - set ys"
proof (cases c)
  case None
  then have "set xs - set ys = set xs" using c by (auto simp: find_None_iff)
  then show ?thesis using None by (simp add: takeWhile_eq_all_conv [THEN iffD2])
next
  case (Some x)
  then obtain us vs where xs: "xs = us @ x # vs" "x \<in> set ys" "\<forall>u \<in> set us. u \<notin> set ys"
    using find_split [of "\<lambda>d. d \<in> set ys" xs x] c by blast
  obtain ws where ys: "ys = ws @ x # vs" using chain_from [OF _ b xs(2)] a xs(1) by blast
  have "\<forall>u \<in> set us. u \<noteq> x" using xs(2,3) by blast
  then have "takeWhile (\<lambda>d. d \<noteq> x) xs = us" unfolding xs(1) by (simp add: takeWhile_append2)
  moreover have "set xs - set ys = set us" using xs ys by auto
  ultimately show ?thesis using Some by simp
qed

lemma move_loop_chain:
  "chain ns a ds \<Longrightarrow> move_loop ns db xs common a =
     Some (\<exists>d \<in> set (takeWhile (\<lambda>d. Some d \<noteq> common) (tl ds)). fsnodes_test_dir_quota_noparents ns db xs d)"
proof (induction rule: chain.induct)
  case (single a nd)
  then show ?case by (subst move_loop.simps) auto
next
  case (above a nd p x ds)
  obtain es where ds: "ds = p # es" using chain_Cons [OF above.hyps(4)] by blast
  show ?case using above ds by (subst move_loop.simps) auto
qed

lemma exceeded_move_up:
  assumes wf: "tree_wf ns" and "is_dir ns a" "is_dir ns prev"
  shows "fsnodes_quota_exceeded_move ns db xs a prev =
     Some (\<exists>d. (up ns)\<^sup>*\<^sup>* a d \<and> \<not> (up ns)\<^sup>*\<^sup>* prev d \<and> fsnodes_test_dir_quota_noparents ns db xs d)"
proof -
  obtain ds es where ds: "chain ns a ds" and es: "chain ns prev es" using chain_exists [OF wf] assms by meson
  define c where "c = find (\<lambda>d. d \<in> set es) ds"
  have c: "fsnodes_find_common_ancestor ns prev a = Some c"
    using common_ancestor_chain [OF es ds] common_sym [OF es ds] by (simp add: c_def)
  obtain ds' where ds': "ds = a # ds'" using chain_Cons [OF ds] by blast
  have "fsnodes_quota_exceeded_move ns db xs a prev =
      Some (\<exists>d \<in> set (takeWhile (\<lambda>d. Some d \<noteq> c) ds). fsnodes_test_dir_quota_noparents ns db xs d)"
    using c move_loop_chain [OF ds, of db xs c] ds' by (auto simp: fsnodes_quota_exceeded_move_def)
  then show ?thesis
    using before_common [OF ds es, of c] chain_set [OF ds] chain_set [OF es] by (auto simp: c_def)
qed

section \<open>Replay of a request\<close>

lemma apply_line_of: "rigor e \<noteq> Used \<Longrightarrow> fs_apply_setquota (line_of e) m =
    (StatusOk, store_limit (owner_type e) (owner_id e) (rigor e) (resource e) (limit e) m)"
  by (cases "rigor e"; cases "resource e"; cases "owner_type e")
    (simp_all add: fs_apply_setquota_def line_of_def decodeChar_def)

definition same_quotas :: "quota_meta \<Rightarrow> quota_meta \<Rightarrow> bool" where
  "same_quotas m s \<longleftrightarrow> quota_database s = quota_database m \<and> quota_checksum s = quota_checksum m
     \<and> metadata_version s = metadata_version m"

lemma same_quotas_store: "same_quotas m s \<Longrightarrow> same_quotas (store_limit ot oid rg rs v m) (store_limit ot oid rg rs v s)"
  by (simp add: same_quotas_def store_limit_def Let_def)

lemma same_quotas_log: "same_quotas (m\<lparr>log_lines := ls\<rparr>) s = same_quotas m s"
  by (simp add: same_quotas_def)

lemma log_set_entry [simp]: "log_lines (set_entry e m) = log_lines m @ [line_of e]"
  by (simp add: set_entry_def)

lemma log_fold_set: "log_lines (fold set_entry es m) = log_lines m @ map line_of es"
  by (induction es arbitrary: m) simp_all

lemma replay_fold_set:
  "same_quotas m s \<Longrightarrow> (\<And>e. e \<in> set es \<Longrightarrow> rigor e \<noteq> Used) \<Longrightarrow>
     fst (replay_quota (map line_of es) s) = StatusOk \<and> same_quotas (fold set_entry es m) (snd (replay_quota (map line_of es) s))"
proof (induction es arbitrary: m s)
  case (Cons e es)
  let ?s = "store_limit (owner_type e) (owner_id e) (rigor e) (resource e) (limit e) s"
  have "same_quotas (set_entry e m) ?s"
    using same_quotas_store [OF Cons.prems(1)] by (simp add: set_entry_def same_quotas_log)
  then show ?case using Cons.IH [of "set_entry e m" ?s] Cons.prems apply_line_of [of e s] by simp
qed (simp add: same_quotas_def)

lemma replay_used:
  "replay_quota (map line_of (es @ e # es')) s = (ErrorEinval, snd (replay_quota (map line_of es) s))"
  if "\<And>x. x \<in> set es \<Longrightarrow> rigor x \<noteq> Used" "rigor e = Used"
  using that(1)
proof (induction es arbitrary: s)
  case Nil
  show ?case using that(2) by (simp add: fs_apply_setquota_def line_of_def decodeChar_def)
next
  case (Cons x es)
  then show ?case using apply_line_of [of x s] by simp
qed

section \<open>Usage stays within the limits\<close>

lemma quota_update_used:
  assumes "distinct (map fst xs)"
  shows "limits_at (fsnodes_quota_update uid gid xs db) ot oid Used rs =
     limits_at db ot oid Used rs
       + (if (ot, oid) \<in> {(OwnerUser, uid), (OwnerGroup, gid)} then (case map_of xs rs of Some d \<Rightarrow> d | None \<Rightarrow> 0) else 0)"
  using assms
proof (induction uid gid xs db rule: fsnodes_quota_update.induct)
  case (2 uid gid rs' d xs db)
  have "map_of xs rs' = None" using "2.prems" by (auto simp: map_of_eq_None_iff)
  then show ?case
    using 2 by (cases "d = 0") (auto simp: limits_set_def split: option.splits)
qed simp

lemma quota_update_limits:
  "rg \<noteq> Used \<Longrightarrow> limits_at (fsnodes_quota_update uid gid xs db) ot oid rg rs = limits_at db ot oid rg rs"
  by (induction uid gid xs db rule: fsnodes_quota_update.induct) (auto simp: limits_set_other)

lemma quota_update_wf: "db_wf db \<Longrightarrow> db_wf (fsnodes_quota_update uid gid xs db)"
  by (induction uid gid xs db rule: fsnodes_quota_update.induct) auto

section \<open>Correctness of quotas\<close>

text \<open>
  C7: on a well-formed tree the quota check of a node always ends, and it refuses the change exactly
  when for some changed resource the usage after the change, computed in 64 bits, exceeds a hard limit
  that is set: a limit of the user of the node, of its group, or of some directory above it along any
  of its links.
\<close>

theorem quota_check_correct:
  assumes "tree_wf ns" "ns a = Some nd"
  shows "fsnodes_quota_exceeded ns db xs a =
     Some (\<exists>(rs, delta) \<in> set xs.
          (limits_at db OwnerUser (nuid nd) Hard rs \<noteq> 0
             \<and> limits_at db OwnerUser (nuid nd) Used rs + delta > limits_at db OwnerUser (nuid nd) Hard rs)
        \<or> (limits_at db OwnerGroup (ngid nd) Hard rs \<noteq> 0
             \<and> limits_at db OwnerGroup (ngid nd) Used rs + delta > limits_at db OwnerGroup (ngid nd) Hard rs)
        \<or> (\<exists>d dd. (up ns)\<^sup>*\<^sup>* a d \<and> ns d = Some dd \<and> ntype dd = DirectoryNode
             \<and> limits_at db OwnerInode d Hard rs \<noteq> 0 \<and> dir_usage dd rs + delta > limits_at db OwnerInode d Hard rs))"
proof -
  have "(\<exists>d. (up ns)\<^sup>*\<^sup>* a d \<and> fsnodes_test_dir_quota_noparents ns db xs d) \<longleftrightarrow>
      (\<exists>(rs, delta) \<in> set xs. \<exists>d dd. (up ns)\<^sup>*\<^sup>* a d \<and> ns d = Some dd \<and> ntype dd = DirectoryNode
         \<and> limits_at db OwnerInode d Hard rs \<noteq> 0 \<and> dir_usage dd rs + delta > limits_at db OwnerInode d Hard rs)"
    unfolding test_dir_iff is_dir_def by fastforce
  then have "fsnodes_quota_exceeded ns db xs a = Some (exceeds db OwnerUser (nuid nd) Hard xs \<or> exceeds db OwnerGroup (ngid nd) Hard xs
      \<or> (\<exists>(rs, delta) \<in> set xs. \<exists>d dd. (up ns)\<^sup>*\<^sup>* a d \<and> ns d = Some dd \<and> ntype dd = DirectoryNode
           \<and> limits_at db OwnerInode d Hard rs \<noteq> 0 \<and> dir_usage dd rs + delta > limits_at db OwnerInode d Hard rs))"
    using assms(2) exceeded_dir_up [OF assms, of db xs]
    by (simp add: fsnodes_quota_exceeded_def quota_exceeded_ug_node_def fsnodes_quota_exceeded_ug_def)
  then show ?thesis unfolding exceeds_iff split_beta' bex_disj_distrib .
qed

text \<open>
  A small tree: the root 1, its directories 2 and 3, a directory 4 in 2, and a file 5 linked in
  3 and 4. Directory 2 has a hard limit of 10 inodes and holds 10.
\<close>

definition tree_node :: "node_type \<Rightarrow> (nat \<times> string) list \<Rightarrow> fsnode" where
  "tree_node t ps = \<lparr>ntype = t, nuid = 7, ngid = 8, parents = ps, stat_inodes = 10, stat_size = 0\<rparr>"

definition small_tree :: tree where
  "small_tree =
     [1 \<mapsto> tree_node DirectoryNode [], 2 \<mapsto> tree_node DirectoryNode [(1, ''a'')], 3 \<mapsto> tree_node DirectoryNode [(1, ''b'')],
      4 \<mapsto> tree_node DirectoryNode [(2, ''c'')], 5 \<mapsto> tree_node FileNode [(3, ''f''), (4, ''g'')]]"

definition small_db :: quota_db where
  "small_db = quota_set OwnerInode 2 Hard Inodes 10 empty_db"

lemma small_tree_wf: "tree_wf small_tree"
proof -
  have "\<forall>a nd p. small_tree a = Some nd \<longrightarrow> p \<in> fst ` set (parents nd) \<longrightarrow> p < a"
    by (auto simp: small_tree_def tree_node_def split: if_splits)
  then have "\<exists>h :: nat \<Rightarrow> nat. \<forall>a nd p. small_tree a = Some nd \<longrightarrow> p \<in> fst ` set (parents nd) \<longrightarrow> h p < h a"
    by (intro exI [of _ "\<lambda>a. a"]) simp
  then show ?thesis unfolding tree_wf_def by (auto simp: small_tree_def tree_node_def split: if_splits)
qed

lemma small_tree_dirs: "is_dir small_tree 2" "is_dir small_tree 3" "is_dir small_tree 4"
  by (simp_all add: is_dir_def small_tree_def tree_node_def)

text \<open>The change is refused because of directory 2 and, after the group got a limit, because of the group.\<close>

theorem quota_check_correct_witness:
  "tree_wf small_tree \<and> fsnodes_quota_exceeded small_tree small_db [(Inodes, 1)] 5 = Some True
   \<and> fsnodes_quota_exceeded small_tree (quota_set OwnerGroup 8 Hard Size 3 empty_db) [(Inodes, 1), (Size, 4)] 5 = Some True
   \<and> fsnodes_quota_exceeded small_tree (quota_set OwnerGroup 8 Hard Size 3 empty_db) [(Inodes, 1)] 5 = Some False"
proof -
  have n: "small_tree 5 = Some (tree_node FileNode [(3, ''f''), (4, ''g'')])" "small_tree 2 = Some (tree_node DirectoryNode [(1, ''a'')])"
    by (simp_all add: small_tree_def)
  note check = quota_check_correct [OF small_tree_wf n(1)]
  have "up small_tree 5 4" "up small_tree 4 2" by (simp_all add: up_def small_tree_def tree_node_def)
  then have "(up small_tree)\<^sup>*\<^sup>* 5 2" by (meson converse_rtranclp_into_rtranclp rtranclp.rtrancl_refl)
  then have "\<exists>d dd. (up small_tree)\<^sup>*\<^sup>* 5 d \<and> small_tree d = Some dd \<and> ntype dd = DirectoryNode
      \<and> limits_at small_db OwnerInode d Hard Inodes \<noteq> 0 \<and> dir_usage dd Inodes + 1 > limits_at small_db OwnerInode d Hard Inodes"
    using n(2) by (intro exI [of _ 2] exI [of _ "tree_node DirectoryNode [(1, ''a'')]"]) (simp add: tree_node_def small_db_def)
  then have "fsnodes_quota_exceeded small_tree small_db [(Inodes, 1)] 5 = Some True" unfolding check by simp
  moreover have "fsnodes_quota_exceeded small_tree (quota_set OwnerGroup 8 Hard Size 3 empty_db) [(Inodes, 1), (Size, 4)] 5 = Some True"
    "fsnodes_quota_exceeded small_tree (quota_set OwnerGroup 8 Hard Size 3 empty_db) [(Inodes, 1)] 5 = Some False"
    unfolding check by (simp_all add: tree_node_def limits_set_def no_limits_def)
  ultimately show ?thesis using small_tree_wf by simp
qed

text \<open>
  C15: when a directory moves from below \<open>prev\<close> to below \<open>a\<close>, the check ends and
  tests exactly the directories that gain: those above \<open>a\<close> (itself included) that are not
  above \<open>prev\<close>. Walking to the common ancestor is equivalent to comparing the sets of ancestors.
\<close>

theorem move_check_correct:
  assumes "tree_wf ns" "is_dir ns a" "is_dir ns prev"
  shows "fsnodes_quota_exceeded_move ns db xs a prev =
     Some (\<exists>d. (up ns)\<^sup>*\<^sup>* a d \<and> \<not> (up ns)\<^sup>*\<^sup>* prev d \<and> fsnodes_test_dir_quota_noparents ns db xs d)"
  by (rule exceeded_move_up [OF assms])

theorem move_check_correct_witness:
  "fsnodes_quota_exceeded_move small_tree small_db [(Inodes, 1)] 4 3 = Some True"
proof -
  have "up small_tree 4 2" by (simp add: up_def small_tree_def tree_node_def)
  then have "(up small_tree)\<^sup>*\<^sup>* 4 2" by blast
  moreover have "(up small_tree)\<^sup>*\<^sup>* 3 d \<Longrightarrow> d \<in> {3, 1}" for d
    by (induction rule: rtranclp_induct) (auto simp: up_def small_tree_def tree_node_def)
  then have "\<not> (up small_tree)\<^sup>*\<^sup>* 3 2" by fastforce
  moreover have "fsnodes_test_dir_quota_noparents small_tree small_db [(Inodes, 1)] 2"
    by (simp add: fsnodes_test_dir_quota_noparents_def small_tree_def tree_node_def small_db_def)
  ultimately have "\<exists>d. (up small_tree)\<^sup>*\<^sup>* 4 d \<and> \<not> (up small_tree)\<^sup>*\<^sup>* 3 d
      \<and> fsnodes_test_dir_quota_noparents small_tree small_db [(Inodes, 1)] d" by blast
  then show ?thesis
    using move_check_correct [OF small_tree_wf small_tree_dirs(3,2), of small_db "[(Inodes, 1)]"] by simp
qed

text \<open>
  C23: a change that the user and group check admits leaves, after the usage has been updated, the
  usage of the user and of the group of every changed resource within the hard limit of that resource,
  if one is set; the usage of other resources, all limits, and the checksum of the database do not
  change.
\<close>

theorem admitted_change_within_limits:
  assumes "\<not> fsnodes_quota_exceeded_ug db uid gid xs" "distinct (map fst xs)" "db_wf db"
    and "(ot, oid) \<in> {(OwnerUser, uid), (OwnerGroup, gid)}" "db' = fsnodes_quota_update uid gid xs db"
  shows "(\<forall>rs delta. (rs, delta) \<in> set xs \<longrightarrow> limits_at db' ot oid Used rs = limits_at db ot oid Used rs + delta
        \<and> (limits_at db' ot oid Hard rs \<noteq> 0 \<longrightarrow> limits_at db' ot oid Used rs \<le> limits_at db' ot oid Hard rs))
    \<and> (\<forall>rs. rs \<notin> fst ` set xs \<longrightarrow> limits_at db' ot oid Used rs = limits_at db ot oid Used rs)
    \<and> (\<forall>rg rs. rg \<noteq> Used \<longrightarrow> limits_at db' ot oid rg rs = limits_at db ot oid rg rs) \<and> checksum db' = checksum db"
proof -
  have used: "limits_at db' ot oid Used rs = limits_at db ot oid Used rs + delta" if "(rs, delta) \<in> set xs" for rs delta
    using quota_update_used [OF assms(2)] assms(2,4,5) that by simp
  have "\<not> exceeds db ot oid Hard xs" using assms(1,4) by (auto simp: fsnodes_quota_exceeded_ug_def)
  then have "limits_at db ot oid Used rs + delta \<le> limits_at db ot oid Hard rs"
    if "(rs, delta) \<in> set xs" "limits_at db ot oid Hard rs \<noteq> 0" for rs delta
    using that by (fastforce simp: exceeds_iff)
  moreover have "checksum db' = checksum db"
    using assms(3,5) by (intro checksum_limits) (simp_all add: quota_update_wf quota_update_limits)
  moreover have "limits_at db' ot oid Used rs = limits_at db ot oid Used rs" if "rs \<notin> fst ` set xs" for rs
    using quota_update_used [OF assms(2)] assms(4,5) that by (simp add: map_of_eq_None_iff [THEN iffD2])
  ultimately show ?thesis using used assms(5) by (simp add: quota_update_limits)
qed

theorem admitted_change_within_limits_witness:
  defines "db \<equiv> quota_set OwnerUser 7 Hard Size 100 empty_db"
  shows "\<not> fsnodes_quota_exceeded_ug db 7 8 [(Size, 60)]
    \<and> limits_at (fsnodes_quota_update 7 8 [(Size, 60)] db) OwnerUser 7 Used Size \<le>
      limits_at (fsnodes_quota_update 7 8 [(Size, 60)] db) OwnerUser 7 Hard Size"
proof -
  have l: "limits_at db OwnerUser 7 = limits_set no_limits Hard Size 100" "limits_at db OwnerGroup 8 = no_limits"
    by (simp_all add: db_def)
  have n: "\<not> fsnodes_quota_exceeded_ug db 7 8 [(Size, 60)]"
    using l by (simp add: fsnodes_quota_exceeded_ug_def exceeds_iff limits_set_def no_limits_def)
  have wf: "db_wf db" by (simp add: db_def)
  have "limits_at (fsnodes_quota_update 7 8 [(Size, 60)] db) OwnerUser 7 Hard Size = 100"
    using l by (simp add: quota_update_limits limits_set_def)
  then show ?thesis
    using n admitted_change_within_limits [OF n _ wf, of OwnerUser 7] by simp
qed

text \<open>
  C22: replaying the lines that an accepted request has logged reproduces the quota database, its
  checksum and the metadata version on a server with the same quotas, provided that no entry of the
  request changes the usage. A line for an entry that does change the usage is refused, and the
  replay stops there.
\<close>

theorem quota_request_replay:
  assumes "fs_quota_set ctx es m = (StatusOk, m')" "same_quotas m s"
  shows "log_lines m' = log_lines m @ map line_of es
     \<and> ((\<forall>e \<in> set es. rigor e \<noteq> Used) \<longrightarrow>
          fst (replay_quota (map line_of es) s) = StatusOk \<and> same_quotas m' (snd (replay_quota (map line_of es) s)))
     \<and> ((\<exists>e \<in> set es. rigor e = Used) \<longrightarrow> fst (replay_quota (map line_of es) s) = ErrorEinval)"
proof -
  have m': "m' = fold set_entry es m" using assms(1) by (auto simp: fs_quota_set_def split: if_splits)
  have "fst (replay_quota (map line_of es) s) = ErrorEinval" if u: "\<exists>e \<in> set es. rigor e = Used"
  proof -
    obtain us e vs where "es = us @ e # vs" "rigor e = Used" "\<forall>u \<in> set us. rigor u \<noteq> Used"
      using split_list_first_propE [OF u] by blast
    then show ?thesis using replay_used [of us e vs s] by simp
  qed
  then show ?thesis using m' log_fold_set replay_fold_set [OF assms(2)] by blast
qed

definition root_context :: fs_context where
  "root_context = \<lparr>ctx_uid = 0, ctx_gid = 0, ctx_rootinode = 1, ses_readonly = False, ses_ignoregid = False,
     ses_allcanchangequota = False\<rparr>"

definition small_meta :: quota_meta where
  "small_meta = \<lparr>nodes = small_tree, quota_database = empty_db, quota_checksum = checksum empty_db,
     metadata_version = 1, log_lines = []\<rparr>"

definition usage_entry :: quota_entry where
  "usage_entry = \<lparr>owner_type = OwnerUser, owner_id = 7, rigor = Used, resource = Size, limit = 5\<rparr>"

theorem quota_request_replay_witness:
  "fst (fs_quota_set root_context [usage_entry] small_meta) = StatusOk
   \<and> fst (replay_quota (map line_of [usage_entry]) small_meta) = ErrorEinval"
proof -
  have ok: "fs_quota_set root_context [usage_entry] small_meta = (StatusOk, set_entry usage_entry small_meta)"
    by (simp add: fs_quota_set_def root_context_def usage_entry_def)
  have "same_quotas small_meta small_meta" by (simp add: same_quotas_def)
  then show ?thesis using quota_request_replay [OF ok] ok by (simp add: usage_entry_def)
qed

text \<open>
  C31: the path shown for a quota of a directory is the concatenation of the names from the root of
  the session down to the node, each after a slash, and of a longer path the last 65535 characters.
\<close>

theorem quota_path_correct:
  assumes "tree_wf ns" "ns a = Some nd" "a \<noteq> base"
  shows "\<exists>names. route ns root base a names \<and> fsnodes_getpath ns root base a
     = Some (drop (length (full_path names) - 65535) (full_path names))"
  by (rule getpath_route [OF assms])

theorem quota_path_correct_witness:
  "\<exists>names. route small_tree 1 1 4 names
     \<and> fsnodes_getpath small_tree 1 1 4 = Some (drop (length (full_path names) - 65535) (full_path names))"
  by (rule quota_path_correct [OF small_tree_wf, of 4 "tree_node DirectoryNode [(2, ''c'')]"]) (simp_all add: small_tree_def)

end
