(* ===== verification/SliceTypes.thy ===== *)
theory SliceTypes
  imports Prelude "HOL-Library.Word" "HOL-Library.Signed_Division"
begin

text \<open>
  How a chunk is cut into parts: the slice types of \<^verbatim>\<open>src/src/common/goal.h\<close>
  (\<^verbatim>\<open>SliceType\<close>), their traits in \<^verbatim>\<open>src/src/common/slice_traits.h\<close> and the packed
  pairs of slice type and part of \<^verbatim>\<open>src/src/common/chunk_part_type.h\<close>. Types, parts and
  packed values are natural numbers, a packed value is reduced to its 16 or 8 bits where it is stored;
  lengths are integers with the division of C++, which truncates. The functions on erasure code types
  are for the types from \<open>kECFirst\<close> on, the only ones the code passes to them.
\<close>

section \<open>Slice types\<close>

definition kStandard :: nat where "kStandard = 0"
definition kTape :: nat where "kTape = 1"
definition kXor2 :: nat where "kXor2 = 2"
definition kXor9 :: nat where "kXor9 = 9"
definition kECFirst :: nat where "kECFirst = 10"
definition kECLast :: nat where "kECLast = kECFirst + (31 * 32 - 1)"
definition kTypeCount :: nat where "kTypeCount = kECLast + 1"

lemmas type_consts = kStandard_def kTape_def kXor2_def kXor9_def kECFirst_def kECLast_def kTypeCount_def

definition kTypeParts :: "nat list" where
  "kTypeParts = [1, 1, 3, 4, 5, 6, 7, 8, 9, 10]"

definition type_valid :: "nat \<Rightarrow> bool" where
  "type_valid t \<longleftrightarrow> t < kTypeCount"

definition expectedParts :: "nat \<Rightarrow> nat" where
  "expectedParts t = (if t < kECFirst then kTypeParts ! t else 3 + (t - kECFirst) div 32 + (t - kECFirst) mod 32)"

definition isStandard :: "nat \<Rightarrow> bool" where "isStandard t \<longleftrightarrow> t = kStandard"
definition isTape :: "nat \<Rightarrow> bool" where "isTape t \<longleftrightarrow> t = kTape"
definition isXor :: "nat \<Rightarrow> bool" where "isXor t \<longleftrightarrow> kXor2 \<le> t \<and> t \<le> kXor9"
definition isEC :: "nat \<Rightarrow> bool" where "isEC t \<longleftrightarrow> kECFirst \<le> t \<and> t \<le> kECLast"

text \<open>Assertions on the arguments are results \<^const>\<open>None\<close>.\<close>

definition xor_getSliceType :: "nat \<Rightarrow> nat option" where
  "xor_getSliceType level = (if 2 \<le> level \<and> level \<le> 9 then Some ((level - 2) + kXor2) else None)"

definition isXorLevelValid :: "nat \<Rightarrow> bool" where
  "isXorLevelValid level \<longleftrightarrow> 2 \<le> level \<and> level \<le> 9"

definition getXorLevel :: "nat \<Rightarrow> nat" where
  "getXorLevel t = t + 2 - kXor2"

definition ec_getSliceType :: "int \<Rightarrow> int \<Rightarrow> int" where
  "ec_getSliceType data_count parity_count = 32 * (data_count - 2) + (parity_count - 1) + int kECFirst"

definition ec_getNumberOfDataParts :: "nat \<Rightarrow> nat" where
  "ec_getNumberOfDataParts t = 2 + (t - kECFirst) div 32"

definition ec_getNumberOfParityParts :: "nat \<Rightarrow> nat" where
  "ec_getNumberOfParityParts t = 1 + (t - kECFirst) mod 32"

definition getNumberOfDataParts :: "nat \<Rightarrow> nat" where
  "getNumberOfDataParts t =
     (if isXor t then getXorLevel t else if isEC t then ec_getNumberOfDataParts t else 1)"

definition getNumberOfParityParts :: "nat \<Rightarrow> nat" where
  "getNumberOfParityParts t = (if isXor t then 1 else if isEC t then ec_getNumberOfParityParts t else 0)"

definition requiredPartsToRecover :: "nat \<Rightarrow> nat" where
  "requiredPartsToRecover t = getNumberOfDataParts t"

definition isEC2 :: "nat \<Rightarrow> bool" where
  "isEC2 t \<longleftrightarrow> isEC t \<and> (ec_getNumberOfParityParts t \<ge> 5
     \<or> (ec_getNumberOfParityParts t = 4 \<and> ec_getNumberOfDataParts t > 20))"

section \<open>Packed part types\<close>

text \<open>A packed value is the number of the type times 64 plus the number of the part.\<close>

definition chunk_part_type :: "nat \<Rightarrow> nat \<Rightarrow> nat option" where
  "chunk_part_type t part = (if t < 2048 \<and> part < 64 then Some ((t * 64 + part) mod 2 ^ 16) else None)"

definition getSliceType :: "nat \<Rightarrow> nat" where
  "getSliceType cpt = cpt div 64"

definition getSlicePart :: "nat \<Rightarrow> nat" where
  "getSlicePart cpt = cpt mod 64"

definition cpt_valid :: "nat \<Rightarrow> bool" where
  "cpt_valid cpt \<longleftrightarrow> type_valid (getSliceType cpt) \<and> getSlicePart cpt < expectedParts (getSliceType cpt)"

text \<open>The packed values of old protocol versions fit a byte; they know the types up to \<^verbatim>\<open>xor9\<close>.\<close>

definition legacy_part_type :: "nat \<Rightarrow> nat \<Rightarrow> nat option" where
  "legacy_part_type t part = (if part < 11 \<and> t \<le> 10 then Some ((t * 11 + part) mod 2 ^ 8) else None)"

definition legacy_getSliceType :: "nat \<Rightarrow> nat" where
  "legacy_getSliceType cpt = cpt div 11"

definition legacy_getSlicePart :: "nat \<Rightarrow> nat" where
  "legacy_getSlicePart cpt = cpt mod 11"

definition legacy_valid :: "nat \<Rightarrow> bool" where
  "legacy_valid cpt \<longleftrightarrow> legacy_getSliceType cpt \<le> 9 \<and> legacy_getSlicePart cpt < expectedParts (legacy_getSliceType cpt)"

definition to_legacy :: "nat \<Rightarrow> nat option" where
  "to_legacy cpt = legacy_part_type (min (getSliceType cpt) 10) (min (getSlicePart cpt) 10)"

definition from_legacy :: "nat \<Rightarrow> nat" where
  "from_legacy cpt = (legacy_getSliceType cpt * 64 + legacy_getSlicePart cpt) mod 2 ^ 16"

text \<open>Deserialization refuses values that are not valid.\<close>

definition deserialize_cpt :: "16 word \<Rightarrow> nat option" where
  "deserialize_cpt w = (if cpt_valid (unat w) then Some (unat w) else None)"

definition deserialize_legacy_cpt :: "8 word \<Rightarrow> nat option" where
  "deserialize_legacy_cpt w = (if legacy_valid (unat w) then Some (unat w) else None)"

definition isXorParity :: "nat \<Rightarrow> bool" where
  "isXorParity cpt \<longleftrightarrow> isXor (getSliceType cpt) \<and> getSlicePart cpt = 0"

definition ec_isParityPart :: "nat \<Rightarrow> bool" where
  "ec_isParityPart cpt \<longleftrightarrow> getSlicePart cpt \<ge> ec_getNumberOfDataParts (getSliceType cpt)"

definition isParityPart :: "nat \<Rightarrow> bool" where
  "isParityPart cpt \<longleftrightarrow>
     (if isXor (getSliceType cpt) then isXorParity cpt
      else if isEC (getSliceType cpt) then ec_isParityPart cpt else False)"

definition isDataPart :: "nat \<Rightarrow> bool" where
  "isDataPart cpt \<longleftrightarrow> \<not> isParityPart cpt"

definition isEC2Part :: "nat \<Rightarrow> bool" where
  "isEC2Part cpt \<longleftrightarrow> ec_isParityPart cpt \<and> (ec_getNumberOfParityParts (getSliceType cpt) \<ge> 5
     \<or> (ec_getNumberOfParityParts (getSliceType cpt) = 4 \<and> ec_getNumberOfDataParts (getSliceType cpt) > 20))"

definition getDataPartIndex :: "nat \<Rightarrow> int" where
  "getDataPartIndex cpt = (if isXor (getSliceType cpt) then int (getSlicePart cpt) - 1 else int (getSlicePart cpt))"

definition getParityPartIndex :: "nat \<Rightarrow> int" where
  "getParityPartIndex cpt =
     (if isEC (getSliceType cpt)
      then int (getSlicePart cpt) - int (ec_getNumberOfDataParts (getSliceType cpt)) else 0)"

section \<open>Lengths of parts\<close>

text \<open>The size of a block is an option of the build; this is its default in \<^verbatim>\<open>CMakeLists.txt\<close>.\<close>

definition SFSBLOCKSIZE :: int where "SFSBLOCKSIZE = 65536"

definition data_index :: "nat \<Rightarrow> int" where
  "data_index cpt = (if isDataPart cpt then getDataPartIndex cpt else 0)"

definition getNumberOfBlocks :: "nat \<Rightarrow> nat \<Rightarrow> nat" where
  "getNumberOfBlocks cpt blocks_in_chunk =
     nat ((int blocks_in_chunk + (int (getNumberOfDataParts (getSliceType cpt)) - data_index cpt - 1)) mod 2 ^ 32)
       div getNumberOfDataParts (getSliceType cpt)"

definition chunkLengthToChunkPartLength :: "nat \<Rightarrow> int \<Rightarrow> int" where
  "chunkLengthToChunkPartLength cpt chunk_length =
     (let n = int (getNumberOfDataParts (getSliceType cpt))
      in if n = 1 then chunk_length
         else
           let full_stripe = chunk_length sdiv (n * SFSBLOCKSIZE);
               base_len = full_stripe * SFSBLOCKSIZE;
               base = base_len * n;
               rest = chunk_length - base;
               part_rest_len = min (max (rest - data_index cpt * SFSBLOCKSIZE) 0) SFSBLOCKSIZE
           in base_len + part_rest_len)"

section \<open>Facts about types and parts\<close>

lemma getSlice_pack [simp]: "part < 64 \<Longrightarrow> getSliceType (t * 64 + part) = t" "part < 64 \<Longrightarrow> getSlicePart (t * 64 + part) = part"
  by (simp_all add: getSliceType_def getSlicePart_def)

lemma getSlice_pack_first [simp]: "getSliceType (t * 64) = t" "getSlicePart (t * 64) = 0"
  by (simp_all add: getSliceType_def getSlicePart_def)

lemma type_cases:
  assumes "type_valid t"
  obtains "\<not> isXor t" "\<not> isEC t" "expectedParts t = 1" | "isXor t" | "isEC t"
proof (cases "t \<le> 1")
  case True
  then have "t = 0 \<or> t = 1" by auto
  then show ?thesis using that(1) by (auto simp: isXor_def isEC_def expectedParts_def kTypeParts_def type_consts)
next
  case False
  then have "isXor t \<or> isEC t" using assms by (auto simp: type_valid_def isXor_def isEC_def type_consts)
  then show ?thesis using that by blast
qed

lemma xor_ec_disjoint: "isXor t \<Longrightarrow> \<not> isEC t"
  by (auto simp: isXor_def isEC_def type_consts)

text \<open>A slice consists of its data parts and its parity parts.\<close>

lemma expectedParts_split:
  assumes "type_valid t"
  shows "expectedParts t = getNumberOfDataParts t + getNumberOfParityParts t"
proof (cases "t < kECFirst")
  case True
  then have "t \<in> {0, 1, 2, 3, 4, 5, 6, 7, 8, 9}" by (auto simp: kECFirst_def)
  then show ?thesis
    by (elim insertE) (simp_all add: expectedParts_def kTypeParts_def getNumberOfDataParts_def getNumberOfParityParts_def
        isXor_def isEC_def getXorLevel_def type_consts nth_Cons')
next
  case False
  then have "isEC t" "\<not> isXor t" using assms by (auto simp: isEC_def isXor_def type_valid_def type_consts)
  then show ?thesis
    using False by (simp add: expectedParts_def getNumberOfDataParts_def getNumberOfParityParts_def
        ec_getNumberOfDataParts_def ec_getNumberOfParityParts_def)
qed

lemma data_parts_bounds:
  assumes "type_valid t"
  shows "1 \<le> getNumberOfDataParts t" "getNumberOfDataParts t \<le> 32" "getNumberOfParityParts t \<le> 32" "expectedParts t \<le> 64"
proof -
  have ec: "ec_getNumberOfDataParts t \<le> 32" if "isEC t"
  proof -
    have "t - kECFirst < 31 * 32" using that by (auto simp: isEC_def type_consts)
    then have "(t - kECFirst) div 32 < 31" by (simp add: less_mult_imp_div_less)
    then show ?thesis by (simp add: ec_getNumberOfDataParts_def)
  qed
  have ep: "ec_getNumberOfParityParts t \<le> 32" by (simp add: ec_getNumberOfParityParts_def Suc_le_eq)
  show 1: "1 \<le> getNumberOfDataParts t" "getNumberOfDataParts t \<le> 32" "getNumberOfParityParts t \<le> 32"
    using ec ep by (auto simp: getNumberOfDataParts_def getNumberOfParityParts_def getXorLevel_def ec_getNumberOfDataParts_def
        isXor_def type_consts)
  show "expectedParts t \<le> 64" using 1 expectedParts_split [OF assms] by simp
qed

lemma pack_bound:
  assumes "type_valid t" "part < expectedParts t"
  shows "chunk_part_type t part = Some (t * 64 + part)"
  using assms data_parts_bounds(4) [OF assms(1)] by (auto simp: chunk_part_type_def type_valid_def type_consts)

text \<open>The data parts of a type, by their index.\<close>

lemma data_part_iff:
  assumes "type_valid t" "part < expectedParts t"
  shows "isDataPart (t * 64 + part) \<longleftrightarrow> (if isXor t then 1 \<le> part else part < getNumberOfDataParts t)"
proof -
  have p: "part < 64" using data_parts_bounds(4) [OF assms(1)] assms(2) by simp
  from assms(1) show ?thesis
  proof (cases rule: type_cases)
    case 1
    then show ?thesis using p assms(2)
      by (simp add: isDataPart_def isParityPart_def getNumberOfDataParts_def)
  next
    case 2
    then show ?thesis using p by (auto simp: isDataPart_def isParityPart_def isXorParity_def)
  next
    case 3
    then have "\<not> isXor t" using xor_ec_disjoint by blast
    then show ?thesis using 3 p by (auto simp: isDataPart_def isParityPart_def ec_isParityPart_def getNumberOfDataParts_def)
  qed
qed

lemma data_parts_set:
  assumes "type_valid t"
  shows "{part. part < expectedParts t \<and> isDataPart (t * 64 + part)}
     = (if isXor t then {1..getNumberOfDataParts t} else {..<getNumberOfDataParts t})"
proof -
  have "isXor t \<Longrightarrow> getNumberOfParityParts t = 1" by (simp add: getNumberOfParityParts_def)
  then have e: "isXor t \<Longrightarrow> expectedParts t = Suc (getNumberOfDataParts t)"
    using expectedParts_split [OF assms] by simp
  have le: "getNumberOfDataParts t \<le> expectedParts t" using expectedParts_split [OF assms] by simp
  show ?thesis
  proof (cases "isXor t")
    case True
    then show ?thesis using e data_part_iff [OF assms] by (auto simp: less_Suc_eq_le)
  next
    case False
    then show ?thesis using le data_part_iff [OF assms] by auto
  qed
qed

lemma data_index_eq:
  assumes "type_valid t" "part < expectedParts t" "isDataPart (t * 64 + part)"
  shows "data_index (t * 64 + part) = (if isXor t then int part - 1 else int part)"
  using assms data_parts_bounds(4) [OF assms(1)] by (simp add: data_index_def getDataPartIndex_def)

lemma data_index_range:
  assumes "type_valid t" "part < expectedParts t"
  shows "0 \<le> data_index (t * 64 + part)" "data_index (t * 64 + part) < int (getNumberOfDataParts t)"
proof -
  have "0 \<le> data_index (t * 64 + part) \<and> data_index (t * 64 + part) < int (getNumberOfDataParts t)"
  proof (cases "isDataPart (t * 64 + part)")
    case True
    then have "part \<in> (if isXor t then {1..getNumberOfDataParts t} else {..<getNumberOfDataParts t})"
      using assms(2) data_parts_set [OF assms(1)] by blast
    then show ?thesis using data_index_eq [OF assms True] by (auto split: if_splits)
  next
    case False
    then show ?thesis using data_parts_bounds(1) [OF assms(1)] by (simp add: data_index_def)
  qed
  then show "0 \<le> data_index (t * 64 + part)" "data_index (t * 64 + part) < int (getNumberOfDataParts t)" by simp_all
qed

text \<open>Summing over the data parts is summing over their indices.\<close>

lemma sum_data_parts:
  assumes "type_valid t"
  shows "(\<Sum>part | part < expectedParts t \<and> isDataPart (t * 64 + part). f (data_index (t * 64 + part)))
     = (\<Sum>i<getNumberOfDataParts t. f (int i))"
proof -
  let ?S = "{part. part < expectedParts t \<and> isDataPart (t * 64 + part)}"
  have "(\<Sum>part\<in>?S. f (data_index (t * 64 + part))) = (\<Sum>part\<in>?S. f (if isXor t then int part - 1 else int part))"
    using data_index_eq [OF assms] by (intro sum.cong) auto
  also have "\<dots> = (\<Sum>i<getNumberOfDataParts t. f (int i))"
  proof (cases "isXor t")
    case True
    have "(\<Sum>part\<in>{1..getNumberOfDataParts t}. f (int part - 1)) = (\<Sum>i<getNumberOfDataParts t. f (int i))"
      by (rule sum.reindex_bij_witness [where i = Suc and j = "\<lambda>p. p - 1"]) (auto simp: of_nat_diff)
    then show ?thesis using True data_parts_set [OF assms] by simp
  next
    case False
    then show ?thesis using data_parts_set [OF assms] by simp
  qed
  finally show ?thesis .
qed

section \<open>The parts of a chunk make up the chunk\<close>

text \<open>The bytes of an incomplete stripe that fall into the block with index \<open>i\<close>.\<close>

abbreviation stripe_rest :: "int \<Rightarrow> int \<Rightarrow> int" where
  "stripe_rest r i \<equiv> min (max (r - i * SFSBLOCKSIZE) 0) SFSBLOCKSIZE"

lemma sum_stripe_rest: "0 \<le> r \<Longrightarrow> (\<Sum>i<n. stripe_rest r (int i)) = min r (int n * SFSBLOCKSIZE)"
  by (induction n) (auto simp: SFSBLOCKSIZE_def algebra_simps min_def max_def)

lemma part_length_eq:
  assumes "type_valid t" "part < expectedParts t" "0 \<le> len"
  shows "chunkLengthToChunkPartLength (t * 64 + part) len =
    (len div (int (getNumberOfDataParts t) * SFSBLOCKSIZE)) * SFSBLOCKSIZE
      + stripe_rest (len mod (int (getNumberOfDataParts t) * SFSBLOCKSIZE)) (data_index (t * 64 + part))"
proof -
  define N where "N = int (getNumberOfDataParts t) * SFSBLOCKSIZE"
  have p: "part < 64" using assms data_parts_bounds(4) [OF assms(1)] by simp
  have n: "1 \<le> getNumberOfDataParts t" by (rule data_parts_bounds [OF assms(1)])
  have sd: "len sdiv N = len div N"
    using assms(3) n by (simp add: N_def SFSBLOCKSIZE_def signed_divide_int_def sgn_if)
  have r: "len - len div N * SFSBLOCKSIZE * int (getNumberOfDataParts t) = len mod N"
    by (simp add: N_def minus_div_mult_eq_mod [symmetric] algebra_simps)
  show ?thesis
  proof (cases "getNumberOfDataParts t = 1")
    case True
    then have "data_index (t * 64 + part) = 0" using data_index_range [OF assms(1,2)] by simp
    moreover have "len div SFSBLOCKSIZE * SFSBLOCKSIZE + len mod SFSBLOCKSIZE = len" by simp
    ultimately show ?thesis using True p
      by (simp add: chunkLengthToChunkPartLength_def SFSBLOCKSIZE_def min_absorb1 max_absorb1)
  next
    case False
    then show ?thesis using p sd r by (simp add: chunkLengthToChunkPartLength_def Let_def N_def)
  qed
qed

lemma part_blocks_eq:
  assumes "type_valid t" "part < expectedParts t" "b + 32 < 2 ^ 32"
  shows "int (getNumberOfBlocks (t * 64 + part) b) =
    (int b + (int (getNumberOfDataParts t) - data_index (t * 64 + part) - 1)) div int (getNumberOfDataParts t)"
proof -
  define x where "x = int b + (int (getNumberOfDataParts t) - data_index (t * 64 + part) - 1)"
  have p: "part < 64" using assms data_parts_bounds(4) [OF assms(1)] by simp
  have "0 \<le> x" "x < 2 ^ 32"
    using data_index_range [OF assms(1,2)] data_parts_bounds(2) [OF assms(1)] assms(3) by (simp_all add: x_def)
  then have "x mod 2 ^ 32 = x" by (rule mod_pos_pos_trivial)
  then show ?thesis using p \<open>0 \<le> x\<close> unfolding getNumberOfBlocks_def by (simp add: x_def [symmetric] zdiv_int)
qed

lemma round_up_block:
  fixes r i :: int
  assumes "0 \<le> i"
  shows "(stripe_rest r i + SFSBLOCKSIZE - 1) div SFSBLOCKSIZE = (if i * SFSBLOCKSIZE < r then 1 else 0)"
proof (cases "i * SFSBLOCKSIZE < r")
  case True
  then have "(stripe_rest r i + SFSBLOCKSIZE - 1) - SFSBLOCKSIZE \<in> {0..<SFSBLOCKSIZE}"
    by (auto simp: SFSBLOCKSIZE_def)
  then show ?thesis using True by (simp add: SFSBLOCKSIZE_def)
next
  case False
  then have "stripe_rest r i = 0" by (simp add: SFSBLOCKSIZE_def)
  then show ?thesis using False by (simp add: SFSBLOCKSIZE_def)
qed

lemma stripe_blocks:
  fixes n c i :: int
  assumes "0 \<le> i" "i < n" "0 \<le> c" "c \<le> n"
  shows "(q * n + c + (n - i - 1)) div n = q + (if i < c then 1 else 0)"
proof -
  have "(q * n + c + (n - i - 1)) div n = q + (c + (n - i - 1)) div n"
    using assms div_mult_self1 [of n "c + (n - i - 1)" q] by (simp add: algebra_simps)
  moreover have "(c + (n - i - 1)) div n = (if i < c then 1 else 0)"
  proof (cases "i < c")
    case True
    then have "(c - i - 1 + 1 * n) div n = 1 + (c - i - 1) div n" using assms by (intro div_mult_self1) auto
    moreover have "(c - i - 1) div n = 0" using True assms by (intro div_pos_pos_trivial) auto
    ultimately show ?thesis using True by (simp add: algebra_simps)
  next
    case False
    then show ?thesis using assms by (simp add: div_pos_pos_trivial)
  qed
  ultimately show ?thesis by simp
qed

lemma round_up_split:
  fixes q n r :: int
  shows "(q * (n * SFSBLOCKSIZE) + r + SFSBLOCKSIZE - 1) div SFSBLOCKSIZE = q * n + (r + SFSBLOCKSIZE - 1) div SFSBLOCKSIZE"
proof -
  have "(r + SFSBLOCKSIZE - 1 + (q * n) * SFSBLOCKSIZE) div SFSBLOCKSIZE = q * n + (r + SFSBLOCKSIZE - 1) div SFSBLOCKSIZE"
    by (rule div_mult_self1) (simp add: SFSBLOCKSIZE_def)
  then show ?thesis by (simp add: algebra_simps)
qed

lemma part_blocks_of_length:
  assumes "type_valid t" "part < expectedParts t" "0 \<le> len" "len \<le> 1024 * SFSBLOCKSIZE"
  shows "int (getNumberOfBlocks (t * 64 + part) (nat ((len + SFSBLOCKSIZE - 1) div SFSBLOCKSIZE)))
    = (chunkLengthToChunkPartLength (t * 64 + part) len + SFSBLOCKSIZE - 1) div SFSBLOCKSIZE"
proof -
  define n where "n = int (getNumberOfDataParts t)"
  define i where "i = data_index (t * 64 + part)"
  define q where "q = len div (n * SFSBLOCKSIZE)"
  define r where "r = len mod (n * SFSBLOCKSIZE)"
  define c where "c = (r + SFSBLOCKSIZE - 1) div SFSBLOCKSIZE"
  have n: "1 \<le> n" using data_parts_bounds(1) [OF assms(1)] by (simp add: n_def)
  have i: "0 \<le> i" "i < n" using data_index_range [OF assms(1,2)] by (simp_all add: i_def n_def)
  have len: "len = q * (n * SFSBLOCKSIZE) + r" unfolding q_def r_def by (rule div_mult_mod_eq [symmetric])
  have r: "0 \<le> r" "r < n * SFSBLOCKSIZE" using n by (simp_all add: r_def SFSBLOCKSIZE_def)
  have c: "0 \<le> c" "c \<le> n" "i < c \<longleftrightarrow> i * SFSBLOCKSIZE < r"
    using r by (auto simp: c_def SFSBLOCKSIZE_def)
  have b: "(len + SFSBLOCKSIZE - 1) div SFSBLOCKSIZE = q * n + c"
    unfolding len c_def by (rule round_up_split)
  have b0: "0 \<le> q * n + c" and b1: "q * n + c + 32 < 2 ^ 32"
    using assms(3,4) unfolding b [symmetric] by (simp_all add: SFSBLOCKSIZE_def)
  have "int (getNumberOfBlocks (t * 64 + part) (nat (q * n + c))) = (q * n + c + (n - i - 1)) div n"
    using part_blocks_eq [OF assms(1,2), of "nat (q * n + c)"] b0 b1 by (simp add: n_def i_def)
  also have "\<dots> = q + (if i < c then 1 else 0)" by (rule stripe_blocks [OF i c(1,2)])
  also have "\<dots> = q * 1 + (stripe_rest r i + SFSBLOCKSIZE - 1) div SFSBLOCKSIZE"
    using c(3) round_up_block [OF i(1), of r] by simp
  also have "\<dots> = (q * SFSBLOCKSIZE + stripe_rest r i + SFSBLOCKSIZE - 1) div SFSBLOCKSIZE"
    using round_up_split [of q 1 "stripe_rest r i"] by simp
  finally show ?thesis
    unfolding b part_length_eq [OF assms(1-3)] by (simp add: q_def r_def n_def i_def)
qed

lemma sum_part_lengths:
  assumes "type_valid t" "0 \<le> len"
  shows "(\<Sum>part | part < expectedParts t \<and> isDataPart (t * 64 + part). chunkLengthToChunkPartLength (t * 64 + part) len) = len"
proof -
  define n where "n = getNumberOfDataParts t"
  define q where "q = len div (int n * SFSBLOCKSIZE)"
  define r where "r = len mod (int n * SFSBLOCKSIZE)"
  have n: "1 \<le> n" using data_parts_bounds(1) [OF assms(1)] by (simp add: n_def)
  have r: "0 \<le> r" "r < int n * SFSBLOCKSIZE" using n by (simp_all add: r_def SFSBLOCKSIZE_def)
  have "(\<Sum>part | part < expectedParts t \<and> isDataPart (t * 64 + part). chunkLengthToChunkPartLength (t * 64 + part) len)
    = (\<Sum>part | part < expectedParts t \<and> isDataPart (t * 64 + part).
        (\<lambda>i. q * SFSBLOCKSIZE + stripe_rest r i) (data_index (t * 64 + part)))"
    by (rule sum.cong) (use assms in \<open>simp_all add: part_length_eq q_def r_def n_def\<close>)
  also have "\<dots> = (\<Sum>i<n. q * SFSBLOCKSIZE + stripe_rest r (int i))"
    unfolding n_def by (rule sum_data_parts [OF assms(1)])
  also have "\<dots> = int n * (q * SFSBLOCKSIZE) + r"
    using sum_stripe_rest [OF r(1), of n] r(2) by (simp add: sum.distrib)
  also have "\<dots> = q * (int n * SFSBLOCKSIZE) + r" by (simp add: mult_ac)
  also have "\<dots> = len" unfolding q_def r_def by (rule div_mult_mod_eq)
  finally show ?thesis .
qed

lemma parity_part_longest:
  assumes "type_valid t" "part < expectedParts t" "parity < expectedParts t" "isParityPart (t * 64 + parity)" "0 \<le> len"
  shows "chunkLengthToChunkPartLength (t * 64 + part) len \<le> chunkLengthToChunkPartLength (t * 64 + parity) len"
proof -
  have "data_index (t * 64 + parity) = 0" using assms(4) by (simp add: data_index_def isDataPart_def)
  then show ?thesis
    using data_index_range(1) [OF assms(1,2)] assms part_length_eq by (auto simp: SFSBLOCKSIZE_def)
qed

text \<open>
  C16: For every valid slice type and every chunk length up to 64 MiB, the lengths computed for the data
  parts of the chunk add up to the length of the chunk, no part is longer than a parity part, and
  the number of blocks computed for any part is the number of blocks that the computed length of
  that part needs.
\<close>

theorem chunk_parts_make_chunk:
  assumes "type_valid t" "0 \<le> len" "len \<le> 1024 * SFSBLOCKSIZE"
  shows "(\<Sum>part | part < expectedParts t \<and> isDataPart (t * 64 + part). chunkLengthToChunkPartLength (t * 64 + part) len) = len
    \<and> (\<forall>part parity. part < expectedParts t \<and> parity < expectedParts t \<and> isParityPart (t * 64 + parity) \<longrightarrow>
      chunkLengthToChunkPartLength (t * 64 + part) len \<le> chunkLengthToChunkPartLength (t * 64 + parity) len)
    \<and> (\<forall>part < expectedParts t.
      int (getNumberOfBlocks (t * 64 + part) (nat ((len + SFSBLOCKSIZE - 1) div SFSBLOCKSIZE)))
        = (chunkLengthToChunkPartLength (t * 64 + part) len + SFSBLOCKSIZE - 1) div SFSBLOCKSIZE)"
  using sum_part_lengths [OF assms(1,2)] parity_part_longest [OF assms(1)] part_blocks_of_length [OF assms(1)] assms(2,3)
  by blast

theorem chunk_parts_make_chunk_witness:
  "type_valid 4 \<and> expectedParts 4 = 5
    \<and> map (\<lambda>part. chunkLengthToChunkPartLength (4 * 64 + part) 200000) [0, 1, 2, 3, 4] = [65536, 65536, 65536, 65536, 3392]
    \<and> (\<Sum>part | part < expectedParts 4 \<and> isDataPart (4 * 64 + part). chunkLengthToChunkPartLength (4 * 64 + part) 200000) = 200000"
  using conjunct1 [OF chunk_parts_make_chunk [of 4 200000]]
  by (simp add: type_valid_def expectedParts_def kTypeParts_def type_consts SFSBLOCKSIZE_def chunkLengthToChunkPartLength_def
      getNumberOfDataParts_def getSliceType_def isXor_def getXorLevel_def data_index_def isDataPart_def isParityPart_def
      isXorParity_def getSlicePart_def getDataPartIndex_def signed_divide_int_def)

lemma unat_of_nat_small: "n < 2 ^ LENGTH('a) \<Longrightarrow> unat (of_nat n :: 'a::len word) = n"
  by (simp add: unat_of_nat)

lemma old_part_lt_11:
  assumes "t < 10" "part < expectedParts t"
  shows "part \<le> 9"
proof -
  have "t \<in> {0, 1, 2, 3, 4, 5, 6, 7, 8, 9}" using assms(1) by auto
  then show ?thesis using assms(2)
    by (elim insertE) (simp_all add: expectedParts_def kTypeParts_def kECFirst_def nth_Cons')
qed

lemma legacy_conversion:
  assumes "type_valid t" "part < expectedParts t"
  shows "\<exists>old. to_legacy (t * 64 + part) = Some old \<and> old < 2 ^ 8
    \<and> (if isEC t then deserialize_legacy_cpt (of_nat old) = None
       else deserialize_legacy_cpt (of_nat old) = Some old \<and> from_legacy old = t * 64 + part)"
proof -
  let ?old = "min t 10 * 11 + min part 10"
  have p: "part < 64" using assms data_parts_bounds(4) [OF assms(1)] by simp
  have lt: "?old < 2 ^ 8" by (simp add: min_def)
  have l: "to_legacy (t * 64 + part) = Some ?old"
    using p lt by (simp add: to_legacy_def legacy_part_type_def)
  have u: "unat (of_nat ?old :: 8 word) = ?old" by (rule unat_of_nat_small) (use lt in simp)
  have s: "legacy_getSliceType ?old = min t 10" "legacy_getSlicePart ?old = min part 10"
    by (simp_all add: legacy_getSliceType_def legacy_getSlicePart_def)
  show ?thesis
  proof (cases "isEC t")
    case True
    then have "\<not> legacy_valid ?old" unfolding legacy_valid_def s by (simp add: isEC_def kECFirst_def)
    then show ?thesis using l lt u True by (intro exI [of _ ?old]) (simp add: deserialize_legacy_cpt_def)
  next
    case False
    then have t: "t < 10" using assms(1) by (auto simp: isEC_def type_valid_def type_consts)
    then have m: "min t 10 = t" "min part 10 = part" using old_part_lt_11 [OF t assms(2)] by simp_all
    have s': "legacy_getSliceType (t * 11 + part) = t" "legacy_getSlicePart (t * 11 + part) = part" using s unfolding m by simp_all
    have "legacy_valid ?old" unfolding legacy_valid_def m s' using t assms(2) by simp
    moreover have "from_legacy ?old = t * 64 + part" unfolding from_legacy_def m s' using t p by simp
    ultimately show ?thesis using l lt u False by (intro exI [of _ ?old]) (simp add: deserialize_legacy_cpt_def)
  qed
qed

text \<open>
  Packing a valid slice type and one of its parts fits the 16 bits of a chunk part type, unpacks
  to the same type and part, is accepted by deserialization, and the conversion for old protocol
  versions is undone by the opposite conversion for the types that old versions know, while the
  erasure code types are converted to a value that old versions refuse.
\<close>

theorem part_type_roundtrip:
  assumes "type_valid t" "part < expectedParts t"
  shows "\<exists>cpt. chunk_part_type t part = Some cpt \<and> cpt < 2 ^ 16 \<and> getSliceType cpt = t \<and> getSlicePart cpt = part
    \<and> deserialize_cpt (of_nat cpt) = Some cpt
    \<and> (\<exists>old. to_legacy cpt = Some old \<and> old < 2 ^ 8
        \<and> (if isEC t then deserialize_legacy_cpt (of_nat old) = None
           else deserialize_legacy_cpt (of_nat old) = Some old \<and> from_legacy old = cpt))"
proof -
  let ?cpt = "t * 64 + part"
  have p: "part < 64" using assms data_parts_bounds(4) [OF assms(1)] by simp
  have lt: "?cpt < 2 ^ 16" using p assms(1) by (simp add: type_valid_def type_consts)
  have c: "chunk_part_type t part = Some ?cpt" by (rule pack_bound [OF assms])
  have u: "unat (of_nat ?cpt :: 16 word) = ?cpt" by (rule unat_of_nat_small) (use lt in simp)
  have d: "deserialize_cpt (of_nat ?cpt) = Some ?cpt"
    unfolding deserialize_cpt_def u using p assms by (simp add: cpt_valid_def)
  show ?thesis using c lt p d legacy_conversion [OF assms] by (intro exI [of _ ?cpt]) simp
qed

theorem part_type_roundtrip_witness:
  "type_valid 15 \<and> expectedParts 15 = 8
    \<and> (\<exists>cpt. chunk_part_type 15 7 = Some cpt \<and> cpt < 2 ^ 16 \<and> getSliceType cpt = 15 \<and> getSlicePart cpt = 7
      \<and> deserialize_cpt (of_nat cpt) = Some cpt)"
  using part_type_roundtrip [of 15 7] by (auto simp: type_valid_def expectedParts_def type_consts)

text \<open>The numbers of data and parity parts determine the erasure code type and back.\<close>

lemma ec_type_roundtrip:
  assumes "2 \<le> k" "k \<le> 32" "1 \<le> m" "m \<le> 32"
  shows "isEC (nat (ec_getSliceType (int k) (int m)))"
    and "ec_getNumberOfDataParts (nat (ec_getSliceType (int k) (int m))) = k"
    and "ec_getNumberOfParityParts (nat (ec_getSliceType (int k) (int m))) = m"
proof -
  define d p where "d = k - 2" and "p = m - 1"
  have km: "k = d + 2" "m = p + 1" "d \<le> 30" "p \<le> 31" using assms by (simp_all add: d_def p_def)
  have e: "nat (ec_getSliceType (int k) (int m)) = 32 * d + p + kECFirst"
    unfolding km(1,2) ec_getSliceType_def kECFirst_def by (simp add: nat_add_distrib)
  show "isEC (nat (ec_getSliceType (int k) (int m)))"
    and "ec_getNumberOfDataParts (nat (ec_getSliceType (int k) (int m))) = k"
    and "ec_getNumberOfParityParts (nat (ec_getSliceType (int k) (int m))) = m"
    unfolding e using km by (simp_all add: isEC_def type_consts ec_getNumberOfDataParts_def ec_getNumberOfParityParts_def)
qed

end
