(* ===== verification/Auction.thy ===== *)
theory Auction
  imports Prelude "HOL-Library.Signed_Division"
begin

text \<open>
  The linear assignment optimizer of \<^verbatim>\<open>src/src/common/linear_assignment_optimizer.h\<close>: the
  auction algorithm with epsilon scaling that pairs the parts of two slices. Persons bid for objects
  until every object is taken. Arrays are lists, the entry \<open>-1\<close> of an assignment array is
  \<^const>\<open>None\<close>. A loop that does not end, a failing assertion and an access at index \<open>-1\<close> are
  the result \<^const>\<open>None\<close>; for value matrices in the range the callers use, none of these occurs, the
  integers stay in the range of \<^verbatim>\<open>int\<close> and the computed assignment is optimal.
\<close>

section \<open>The algorithm\<close>

definition int_lowest :: int where
  "int_lowest = - 2147483648"

record auction =
  assignment :: "nat option list"
  object_assignment :: "nat option list"
  prices :: "int list"
  unassigned_idx :: nat
  assigned_count :: nat

text \<open>The search for the next person without an object.\<close>

partial_function (option) next_unassigned :: "nat option list \<Rightarrow> nat \<Rightarrow> nat \<Rightarrow> nat option" where
  "next_unassigned asg n idx =
     (if asg ! idx \<noteq> None then next_unassigned asg n (if idx + 1 \<ge> n then 0 else idx + 1) else Some idx)"

text \<open>The scan for the highest and the second highest value, from object \<open>i\<close> on.\<close>

fun scan_bids :: "int list \<Rightarrow> int list \<Rightarrow> nat \<Rightarrow> nat \<Rightarrow> int \<Rightarrow> int \<Rightarrow> nat option \<Rightarrow> (int \<times> int \<times> nat option) option" where
  "scan_bids row ps i 0 v w v_idx = Some (v, w, v_idx)"
| "scan_bids row ps i (Suc k) v w v_idx =
     (let c = row ! i - ps ! i
      in if \<not> c > int_lowest then None
         else if c > v then scan_bids row ps (i + 1) k c v (Some i)
         else scan_bids row ps (i + 1) k v (max c w) v_idx)"

text \<open>One round of the outer loop.\<close>

definition give_object :: "nat \<Rightarrow> nat \<Rightarrow> int \<Rightarrow> auction \<Rightarrow> auction" where
  "give_object u j inc st =
     (let st = st\<lparr>prices := (prices st)[j := prices st ! j + inc], unassigned_idx := u\<rparr>;
          st = (case object_assignment st ! j of
                  None \<Rightarrow> st
                | Some idx \<Rightarrow> st\<lparr>assignment := (assignment st)[idx := None], assigned_count := assigned_count st - 1\<rparr>)
      in st\<lparr>object_assignment := (object_assignment st)[j := Some u],
            assignment := (assignment st)[u := Some j],
            assigned_count := assigned_count st + 1\<rparr>)"

definition auction_round :: "int list list \<Rightarrow> int \<Rightarrow> nat \<Rightarrow> auction \<Rightarrow> auction option" where
  "auction_round a eps n st =
     (case next_unassigned (assignment st) n (unassigned_idx st) of
        None \<Rightarrow> None
      | Some u \<Rightarrow>
          (case scan_bids (a ! u) (prices st) 0 n int_lowest int_lowest None of
             Some (v, w, Some j) \<Rightarrow> if v - w + eps > 0 then Some (give_object u j (v - w + eps) st) else None
           | _ \<Rightarrow> None))"

partial_function (option) auction_loop :: "int list list \<Rightarrow> int \<Rightarrow> nat \<Rightarrow> auction \<Rightarrow> auction option" where
  "auction_loop a eps n st =
     (if assigned_count st < n
      then (case auction_round a eps n st of None \<Rightarrow> None | Some st' \<Rightarrow> auction_loop a eps n st')
      else Some st)"

definition auction_start :: "nat \<Rightarrow> int list \<Rightarrow> auction" where
  "auction_start n ps = \<lparr>assignment = replicate n None, object_assignment = replicate n None, prices = ps,
     unassigned_idx = 0, assigned_count = 0\<rparr>"

definition auctionStep :: "int list list \<Rightarrow> int \<Rightarrow> nat \<Rightarrow> int list \<Rightarrow> auction option" where
  "auctionStep a eps n ps = (if n > 1 then auction_loop a eps n (auction_start n ps) else None)"

text \<open>The steps with decreasing epsilon; only the prices are carried from one step to the next.\<close>

function eps_loop :: "int list list \<Rightarrow> int \<Rightarrow> nat \<Rightarrow> int list \<Rightarrow> int list option" where
  "eps_loop a eps n ps =
     (if eps > 1
      then (case auctionStep a eps n ps of None \<Rightarrow> None | Some st \<Rightarrow> eps_loop a ((eps + 2) sdiv 5) n (prices st))
      else Some ps)"
  by pat_completeness auto
termination
  by (relation "measure (\<lambda>(a, eps, n, ps). nat eps)") (auto simp: signed_divide_int_def)

declare eps_loop.simps [simp del]
declare next_unassigned.simps [code] and auction_loop.simps [code]

definition scale_matrix :: "int list list \<Rightarrow> nat \<Rightarrow> int list list" where
  "scale_matrix a n = map (map (\<lambda>x. x * (int n + 1))) a"

definition max_entry :: "int list list \<Rightarrow> int" where
  "max_entry a = fold max (concat a) int_lowest"

text \<open>The arrays the caller passes are returned with their first entries set.\<close>

definition auctionOptimization ::
  "int list list \<Rightarrow> nat option list \<Rightarrow> nat option list \<Rightarrow> nat \<Rightarrow> (nat option list \<times> nat option list) option" where
  "auctionOptimization a asg oasg n =
     (if n = 0 then Some (asg, oasg)
      else if n = 1 then Some (asg[0 := Some 0], oasg[0 := Some 0])
      else
        let a' = scale_matrix a n
        in case eps_loop a' ((max_entry a' + 12) sdiv 25) n (replicate n 0) of
             None \<Rightarrow> None
           | Some ps \<Rightarrow>
               (case auctionStep a' 1 n ps of
                  None \<Rightarrow> None
                | Some st \<Rightarrow> Some (assignment st @ drop n asg, object_assignment st @ drop n oasg)))"

section \<open>One round\<close>

text \<open>The highest value and the best value of the other objects.\<close>

definition best_bid :: "(nat \<Rightarrow> int) \<Rightarrow> nat \<Rightarrow> int \<Rightarrow> int \<Rightarrow> nat \<Rightarrow> bool" where
  "best_bid c n v w j \<longleftrightarrow> j < n \<and> v = c j \<and> (\<forall>k<n. k \<noteq> j \<longrightarrow> c k \<le> w) \<and> w \<le> v \<and> (\<exists>k<n. k \<noteq> j \<and> w = c k)"

lemma scan_bids_step:
  assumes "\<forall>k<n. row ! k - ps ! k > int_lowest" "i + m = n" "2 \<le> i"
    "best_bid (\<lambda>k. row ! k - ps ! k) i v w j"
  shows "\<exists>v' w' j'. scan_bids row ps i m v w (Some j) = Some (v', w', Some j') \<and> best_bid (\<lambda>k. row ! k - ps ! k) n v' w' j'"
  using assms(2-)
proof (induction m arbitrary: i v w j)
  case 0
  then show ?case by simp
next
  case (Suc m)
  let ?c = "\<lambda>k. row ! k - ps ! k"
  have low: "?c i > int_lowest" using assms(1) Suc.prems(1) by simp
  show ?case
  proof (cases "?c i > v")
    case True
    have "best_bid ?c (Suc i) (?c i) v i"
      using Suc.prems(3) True unfolding best_bid_def by (auto simp: less_Suc_eq)
    then show ?thesis using Suc.IH [of "Suc i"] Suc.prems low True by simp
  next
    case False
    have "best_bid ?c (Suc i) v (max (?c i) w) j"
      using Suc.prems(3) False unfolding best_bid_def by (auto simp: less_Suc_eq max_def)
    then show ?thesis using Suc.IH [of "Suc i"] Suc.prems low False by simp
  qed
qed

lemma scan_bids_best:
  assumes "\<forall>k<n. row ! k - ps ! k > int_lowest" "2 \<le> n"
  shows "\<exists>v w j. scan_bids row ps 0 n int_lowest int_lowest None = Some (v, w, Some j)
    \<and> best_bid (\<lambda>k. row ! k - ps ! k) n v w j"
proof -
  let ?c = "\<lambda>k. row ! k - ps ! k"
  obtain m where n: "n = Suc (Suc m)" using assms(2) by (metis Suc_le_D numeral_2_eq_2 Suc_le_mono)
  have low: "?c 0 > int_lowest" "?c 1 > int_lowest" using assms n by auto
  show ?thesis
  proof (cases "?c 1 > ?c 0")
    case True
    then have "best_bid ?c 2 (?c 1) (?c 0) 1" by (auto simp: best_bid_def numeral_2_eq_2 less_Suc_eq)
    then show ?thesis using scan_bids_step [OF assms(1), of 2 m] low True n by (simp add: numeral_2_eq_2 Let_def)
  next
    case False
    then have "best_bid ?c 2 (?c 0) (?c 1) 0" by (auto simp: best_bid_def numeral_2_eq_2 less_Suc_eq)
    then show ?thesis using scan_bids_step [OF assms(1), of 2 m] low False n by (simp add: numeral_2_eq_2 Let_def max_def)
  qed
qed

lemma next_unassigned_at: "asg ! idx = None \<Longrightarrow> next_unassigned asg n idx = Some idx"
  by (simp add: next_unassigned.simps)

lemma next_unassigned_upto:
  "i < n \<Longrightarrow> idx \<le> i \<Longrightarrow> asg ! i = None \<Longrightarrow> \<exists>u<n. next_unassigned asg n idx = Some u \<and> asg ! u = None"
proof (induction "i - idx" arbitrary: idx)
  case 0
  then show ?case using next_unassigned_at by auto
next
  case (Suc d)
  then show ?case
    by (cases "asg ! idx = None") (auto simp: next_unassigned_at next_unassigned.simps [of asg n idx])
qed

text \<open>The search succeeds from every index as long as someone has no object.\<close>

lemma next_unassigned_found:
  assumes "idx < n" "i < n" "asg ! i = None"
  shows "\<exists>u<n. next_unassigned asg n idx = Some u \<and> asg ! u = None"
  using assms(1)
proof (induction "n - idx" arbitrary: idx)
  case 0
  then show ?case by simp
next
  case (Suc d)
  show ?case
  proof (cases "asg ! idx = None")
    case True
    then show ?thesis using Suc.prems by (auto simp: next_unassigned_at)
  next
    case False
    then have e: "next_unassigned asg n idx = next_unassigned asg n (if idx + 1 \<ge> n then 0 else idx + 1)"
      by (simp add: next_unassigned.simps [of asg n idx])
    then show ?thesis
      using next_unassigned_upto [of i n 0 asg] Suc.hyps assms by (cases "idx + 1 \<ge> n") auto
  qed
qed

section \<open>What a round keeps\<close>

definition assigned_persons :: "nat \<Rightarrow> auction \<Rightarrow> nat set" where
  "assigned_persons n st = {i. i < n \<and> assignment st ! i \<noteq> None}"

definition free_objects :: "nat \<Rightarrow> auction \<Rightarrow> nat set" where
  "free_objects n st = {j. j < n \<and> object_assignment st ! j = None}"

text \<open>The two assignment arrays are inverse to each other and the counter counts the assigned persons.\<close>

definition matching :: "nat \<Rightarrow> auction \<Rightarrow> bool" where
  "matching n st \<longleftrightarrow> length (assignment st) = n \<and> length (object_assignment st) = n \<and> length (prices st) = n
     \<and> unassigned_idx st < n
     \<and> (\<forall>i<n. \<forall>j. assignment st ! i = Some j \<longrightarrow> j < n \<and> object_assignment st ! j = Some i)
     \<and> (\<forall>j<n. \<forall>i. object_assignment st ! j = Some i \<longrightarrow> i < n \<and> assignment st ! i = Some j)
     \<and> assigned_count st = card (assigned_persons n st)"

text \<open>Everyone has an object that is best at the current prices up to epsilon.\<close>

definition nearly_best :: "int list list \<Rightarrow> nat \<Rightarrow> int \<Rightarrow> auction \<Rightarrow> bool" where
  "nearly_best a n eps st \<longleftrightarrow> (\<forall>i<n. \<forall>j. assignment st ! i = Some j \<longrightarrow>
     (\<forall>k<n. a ! i ! k - prices st ! k \<le> a ! i ! j - prices st ! j + eps))"

text \<open>A free object still has its first price. Prices rise to \<open>B\<close>; only the last free object can go
  beyond that.\<close>

definition prices_ok :: "int list \<Rightarrow> nat \<Rightarrow> int \<Rightarrow> int \<Rightarrow> auction \<Rightarrow> bool" where
  "prices_ok ps n B D st \<longleftrightarrow> (\<forall>j<n. ps ! j \<le> prices st ! j
     \<and> (object_assignment st ! j = None \<longrightarrow> prices st ! j = ps ! j)
     \<and> prices st ! j \<le> (if free_objects n st = {} then B + D else B))"

lemma matchingD:
  assumes "matching n st"
  shows "length (assignment st) = n" "length (object_assignment st) = n" "length (prices st) = n"
    "unassigned_idx st < n" "assigned_count st = card (assigned_persons n st)"
  using assms unfolding matching_def by blast+

lemma matching_object:
  assumes "matching n st" "i < n" "assignment st ! i = Some j"
  shows "j < n" "object_assignment st ! j = Some i"
  using assms unfolding matching_def by blast+

lemma matching_owner:
  assumes "matching n st" "j < n" "object_assignment st ! j = Some i"
  shows "i < n" "assignment st ! i = Some j"
  using assms unfolding matching_def by blast+

lemma card_free_objects:
  assumes "matching n st"
  shows "card (free_objects n st) = n - assigned_count st"
proof -
  let ?E = "{j. j < n \<and> object_assignment st ! j \<noteq> None}"
  have "bij_betw (\<lambda>i. the (assignment st ! i)) (assigned_persons n st) ?E"
  proof (rule bij_betw_byWitness [where f' = "\<lambda>j. the (object_assignment st ! j)"])
    show "\<forall>i\<in>assigned_persons n st. the (object_assignment st ! the (assignment st ! i)) = i"
      "(\<lambda>i. the (assignment st ! i)) ` assigned_persons n st \<subseteq> ?E"
      using matching_object [OF assms] unfolding assigned_persons_def by force+
    show "\<forall>j\<in>?E. the (assignment st ! the (object_assignment st ! j)) = j"
      "(\<lambda>j. the (object_assignment st ! j)) ` ?E \<subseteq> assigned_persons n st"
      using matching_owner [OF assms] unfolding assigned_persons_def by force+
  qed
  then have c: "card ?E = assigned_count st" using matchingD(5) [OF assms] bij_betw_same_card by fastforce
  have "free_objects n st = {..<n} - ?E" by (auto simp: free_objects_def)
  moreover have "card ({..<n} - ?E) = n - card ?E" by (subst card_Diff_subset) auto
  ultimately show ?thesis using c by simp
qed

lemma unassigned_person:
  assumes "matching n st" "assigned_count st < n"
  shows "\<exists>i<n. assignment st ! i = None"
proof (rule ccontr)
  assume "\<not> (\<exists>i<n. assignment st ! i = None)"
  then have "assigned_persons n st = {..<n}" by (auto simp: assigned_persons_def)
  then show False using matchingD(5) [OF assms(1)] assms(2) by simp
qed

lemma give_object_simps [simp]:
  "prices (give_object u j inc st) = (prices st)[j := prices st ! j + inc]"
  "unassigned_idx (give_object u j inc st) = u"
  "object_assignment (give_object u j inc st) = (object_assignment st)[j := Some u]"
  "assignment (give_object u j inc st) =
     (case object_assignment st ! j of None \<Rightarrow> assignment st | Some idx \<Rightarrow> (assignment st)[idx := None])[u := Some j]"
  "assigned_count (give_object u j inc st) =
     (case object_assignment st ! j of None \<Rightarrow> assigned_count st | Some idx \<Rightarrow> assigned_count st - 1) + 1"
  by (simp_all add: give_object_def Let_def split: option.splits)

text \<open>The new assignment, entry by entry.\<close>

lemma give_object_assignment:
  assumes "matching n st" "u < n" "assignment st ! u = None" "j < n" "i < n"
  shows "assignment (give_object u j inc st) ! i =
    (if i = u then Some j else if object_assignment st ! j = Some i then None else assignment st ! i)"
proof (cases "object_assignment st ! j")
  case None
  then show ?thesis using matchingD(1) [OF assms(1)] assms(2,5) by (simp add: nth_list_update)
next
  case (Some i')
  then show ?thesis using matchingD(1) [OF assms(1)] assms(2,5) matching_owner(1) [OF assms(1,4) Some]
    by (simp add: nth_list_update)
qed

lemma give_object_object:
  assumes "matching n st" "k < n"
  shows "object_assignment (give_object u j inc st) ! k = (if k = j then Some u else object_assignment st ! k)"
  using matchingD(2) [OF assms(1)] assms(2) by (simp add: nth_list_update)

lemma give_object_count:
  assumes m: "matching n st" and u: "u < n" "assignment st ! u = None" and j: "j < n"
  shows "assigned_count (give_object u j inc st) = card (assigned_persons n (give_object u j inc st))"
proof -
  have "assignment (give_object u j inc st) ! x \<noteq> None \<longleftrightarrow> x = u \<or> x \<in> assigned_persons n st \<and> object_assignment st ! j \<noteq> Some x"
    if "x < n" for x
    using that by (simp add: give_object_assignment [OF m u j] assigned_persons_def del: give_object_simps)
  then have p: "assigned_persons n (give_object u j inc st)
      = {x. x < n \<and> (x = u \<or> x \<in> assigned_persons n st \<and> object_assignment st ! j \<noteq> Some x)}"
    unfolding assigned_persons_def [of n "give_object u j inc st"] by blast
  have lt: "x \<in> assigned_persons n st \<Longrightarrow> x < n" for x by (simp add: assigned_persons_def)
  have f: "u \<notin> assigned_persons n st" "finite (assigned_persons n st)" using u by (simp_all add: assigned_persons_def)
  show ?thesis
  proof (cases "object_assignment st ! j")
    case None
    then have "assigned_persons n (give_object u j inc st) = insert u (assigned_persons n st)"
      using u(1) lt unfolding p by auto
    then show ?thesis using f None matchingD(5) [OF m] by simp
  next
    case (Some i)
    note o = matching_owner [OF m j Some]
    have i: "i \<in> assigned_persons n st" "i \<noteq> u" using o u by (auto simp: assigned_persons_def)
    have "assigned_persons n (give_object u j inc st) = insert u (assigned_persons n st - {i})"
      using u(1) Some lt unfolding p by auto
    moreover have "0 < card (assigned_persons n st)" using i f by (auto simp: card_gt_0_iff)
    ultimately show ?thesis using f i Some matchingD(5) [OF m] by simp
  qed
qed

lemma give_object_matching:
  assumes m: "matching n st" and u: "u < n" "assignment st ! u = None" and j: "j < n"
  shows "matching n (give_object u j inc st)"
proof -
  let ?st = "give_object u j inc st"
  note ea = give_object_assignment [OF m u j, where inc = inc] and eo = give_object_object [OF m, where j = j and inc = inc and u = u]
  have 1: "k < n \<and> object_assignment ?st ! k = Some i" if i: "i < n" and k: "assignment ?st ! i = Some k" for i k
  proof (cases "i = u")
    case True
    then show ?thesis using k ea [OF i] eo j by (simp del: give_object_simps)
  next
    case False
    then have "assignment st ! i = Some k" "object_assignment st ! j \<noteq> Some i"
      using k ea [OF i] by (auto simp del: give_object_simps split: if_splits)
    then show ?thesis using matching_object [OF m i] eo by (metis option.inject)
  qed
  have 2: "i < n \<and> assignment ?st ! i = Some k" if k: "k < n" and i: "object_assignment ?st ! k = Some i" for i k
  proof (cases "k = j")
    case True
    then show ?thesis using i ea u eo j by (simp del: give_object_simps)
  next
    case False
    then have o: "object_assignment st ! k = Some i" using i eo [OF k] by (simp del: give_object_simps)
    note w = matching_owner [OF m k o]
    have "object_assignment st ! j \<noteq> Some i" using matching_owner(2) [OF m j] w False by force
    then show ?thesis using w ea [OF w(1)] u by (auto simp del: give_object_simps)
  qed
  have len: "length (assignment ?st) = n" "length (object_assignment ?st) = n" "length (prices ?st) = n" "unassigned_idx ?st < n"
    using matchingD [OF m] u by (simp_all split: option.split)
  show ?thesis unfolding matching_def using 1 2 len give_object_count [OF m u j, of inc] by blast
qed

lemma give_object_nearly_best:
  assumes m: "matching n st" and u: "u < n" "assignment st ! u = None" and nb: "nearly_best a n eps st" and "0 < eps"
    and b: "best_bid (\<lambda>k. a ! u ! k - prices st ! k) n v w j"
  shows "nearly_best a n eps (give_object u j (v - w + eps) st)"
  unfolding nearly_best_def
proof (intro allI impI)
  fix i j' k
  assume i: "i < n" and j': "assignment (give_object u j (v - w + eps) st) ! i = Some j'" and k: "k < n"
  have j: "j < n" and vw: "w \<le> v" "v = a ! u ! j - prices st ! j" using b by (simp_all add: best_bid_def)
  have w: "\<And>k. k < n \<Longrightarrow> k \<noteq> j \<Longrightarrow> a ! u ! k - prices st ! k \<le> w" using b by (simp add: best_bid_def)
  note ea = give_object_assignment [OF m u j i, of "v - w + eps"]
  have pr: "\<And>k. k < n \<Longrightarrow> prices (give_object u j (v - w + eps) st) ! k = prices st ! k + (if k = j then v - w + eps else 0)"
    using matchingD(3) [OF m] by (simp add: nth_list_update)
  show "a ! i ! k - prices (give_object u j (v - w + eps) st) ! k
      \<le> a ! i ! j' - prices (give_object u j (v - w + eps) st) ! j' + eps"
  proof (cases "i = u")
    case True
    then have "j' = j" using j' ea by (simp del: give_object_simps)
    then show ?thesis using True w [OF k] vw pr [OF k] pr [OF j] \<open>0 < eps\<close>
      by (cases "k = j") (auto simp del: give_object_simps)
  next
    case False
    then have e: "assignment st ! i = Some j'" "object_assignment st ! j \<noteq> Some i"
      using j' ea by (auto simp del: give_object_simps split: if_splits)
    have o: "j' < n" "j' \<noteq> j" using matching_object [OF m i e(1)] e(2) by auto
    have "a ! i ! k - prices st ! k \<le> a ! i ! j' - prices st ! j' + eps"
      using nb i e(1) k unfolding nearly_best_def by blast
    then show ?thesis using o pr [OF k] pr [OF o(1)] vw(1) \<open>0 < eps\<close> by (simp del: give_object_simps split: if_splits)
  qed
qed

text \<open>The price after a bid is at most the price of any other object plus the spread of the values plus
  epsilon.\<close>

lemma bid_price_bound:
  assumes "best_bid (\<lambda>k. a ! u ! k - prices st ! k) n v w j" "m < n" "m \<noteq> j"
    "a ! u ! j - a ! u ! m \<le> R" "prices st ! m \<le> C"
  shows "prices st ! j + (v - w + eps) \<le> C + R + eps"
  using assms unfolding best_bid_def by force

lemma give_object_free:
  assumes "matching n st" "j < n"
  shows "free_objects n (give_object u j inc st) = free_objects n st - {j}"
  using give_object_object [OF assms(1), of _ u j inc] unfolding free_objects_def
  by (auto simp del: give_object_simps split: if_splits)

lemma give_object_prices_ok:
  assumes m: "matching n st" and ok: "prices_ok ps n (P + R + eps) (R + eps) st" and n: "2 \<le> n"
    and f: "free_objects n st \<noteq> {}"
    and R: "\<And>k. k < n \<Longrightarrow> a ! u ! j - a ! u ! k \<le> R" and P: "\<And>k. k < n \<Longrightarrow> ps ! k \<le> P" and "0 < eps" "0 \<le> R"
    and b: "best_bid (\<lambda>k. a ! u ! k - prices st ! k) n v w j"
  shows "prices_ok ps n (P + R + eps) (R + eps) (give_object u j (v - w + eps) st)"
  unfolding prices_ok_def
proof (intro allI impI)
  let ?st = "give_object u j (v - w + eps) st"
  fix k
  assume k: "k < n"
  have j: "j < n" and vw: "w \<le> v" using b by (simp_all add: best_bid_def)
  have pr: "prices ?st ! k = prices st ! k + (if k = j then v - w + eps else 0)"
    using matchingD(3) [OF m] k by (simp add: nth_list_update)
  have old: "ps ! k \<le> prices st ! k" "object_assignment st ! k = None \<longrightarrow> prices st ! k = ps ! k" "prices st ! k \<le> P + R + eps"
    if "k < n" for k using ok that f unfolding prices_ok_def by auto
  have free: "free_objects n ?st = free_objects n st - {j}" by (rule give_object_free [OF m j])
  have eo: "object_assignment ?st ! k = None \<longrightarrow> k \<noteq> j \<and> object_assignment st ! k = None"
    using give_object_object [OF m k, of u j "v - w + eps"] by (auto simp del: give_object_simps)
  have bound: "prices st ! j + (v - w + eps) \<le> (if free_objects n ?st = {} then P + R + eps + (R + eps) else P + R + eps)"
  proof (cases "free_objects n ?st = {}")
    case True
    obtain x where x: "x < n" "x \<noteq> j" using b unfolding best_bid_def by blast
    show ?thesis using bid_price_bound [OF b x R [OF x(1)] old(3) [OF x(1)]] True by simp
  next
    case False
    then obtain x where "x \<in> free_objects n st" "x \<noteq> j" using free by blast
    then have x: "x < n" "x \<noteq> j" "prices st ! x \<le> P" using old(2) P by (auto simp: free_objects_def)
    show ?thesis using bid_price_bound [OF b x(1,2) R [OF x(1)] x(3)] False by simp
  qed
  show "ps ! k \<le> prices ?st ! k \<and> (object_assignment ?st ! k = None \<longrightarrow> prices ?st ! k = ps ! k)
    \<and> prices ?st ! k \<le> (if free_objects n ?st = {} then P + R + eps + (R + eps) else P + R + eps)"
  proof (cases "k = j")
    case True
    then show ?thesis unfolding pr using old(1) [OF k] vw bound eo \<open>0 < eps\<close> by simp
  next
    case False
    then show ?thesis unfolding pr using old [OF k] eo \<open>0 < eps\<close> \<open>0 \<le> R\<close> by auto
  qed
qed

section \<open>A step ends with an assignment that is nearly optimal\<close>

definition auction_inv :: "int list list \<Rightarrow> int list \<Rightarrow> nat \<Rightarrow> int \<Rightarrow> int \<Rightarrow> int \<Rightarrow> auction \<Rightarrow> bool" where
  "auction_inv a ps n R P eps st \<longleftrightarrow>
     matching n st \<and> nearly_best a n eps st \<and> prices_ok ps n (P + R + eps) (R + eps) st"

text \<open>The values of a person differ by at most \<open>R\<close>, prices start below \<open>P\<close>, and no value comes near the
  smallest integer.\<close>

definition auction_input :: "int list list \<Rightarrow> int list \<Rightarrow> nat \<Rightarrow> int \<Rightarrow> int \<Rightarrow> int \<Rightarrow> bool" where
  "auction_input a ps n R P eps \<longleftrightarrow> 2 \<le> n \<and> 0 < eps \<and> 0 \<le> R \<and> length ps = n \<and> (\<forall>k<n. ps ! k \<le> P)
     \<and> (\<forall>i<n. \<forall>j<n. int_lowest < a ! i ! j - (P + R + eps) \<and> (\<forall>k<n. a ! i ! j - a ! i ! k \<le> R))"

definition auction_measure :: "nat \<Rightarrow> int \<Rightarrow> auction \<Rightarrow> nat" where
  "auction_measure n B st = card (free_objects n st) + (\<Sum>j<n. nat (B - prices st ! j))"

lemma give_object_measure:
  assumes m: "matching n st" and j: "j < n" and "0 < inc"
    and b: "free_objects n (give_object u j inc st) \<noteq> {} \<Longrightarrow> prices st ! j + inc \<le> B" and f: "free_objects n st \<noteq> {}"
  shows "auction_measure n B (give_object u j inc st) < auction_measure n B st"
proof -
  let ?st = "give_object u j inc st"
  have pr: "prices ?st ! k = prices st ! k + (if k = j then inc else 0)" if "k < n" for k
    using matchingD(3) [OF m] that by (simp add: nth_list_update)
  have free: "free_objects n ?st = free_objects n st - {j}" by (rule give_object_free [OF m j])
  have fin: "finite (free_objects n st)" by (simp add: free_objects_def)
  have le: "nat (B - prices ?st ! k) \<le> nat (B - prices st ! k)" if "k < n" for k
    using pr [OF that] \<open>0 < inc\<close> by (intro nat_mono) (simp del: give_object_simps)
  have sum: "(\<Sum>k<n. nat (B - prices ?st ! k)) \<le> (\<Sum>k<n. nat (B - prices st ! k))"
    using le by (intro sum_mono) simp
  show ?thesis
  proof (cases "j \<in> free_objects n st")
    case True
    then have "card (free_objects n ?st) < card (free_objects n st)" unfolding free using fin by (intro card_Diff1_less)
    then show ?thesis using sum by (simp add: auction_measure_def)
  next
    case False
    then have same: "free_objects n ?st = free_objects n st" unfolding free by simp
    then have "nat (B - prices ?st ! j) < nat (B - prices st ! j)"
      using b f pr [OF j] \<open>0 < inc\<close> by (simp del: give_object_simps)
    then have "(\<Sum>k<n. nat (B - prices ?st ! k)) < (\<Sum>k<n. nat (B - prices st ! k))"
      using j le by (intro sum_strict_mono_ex1) (auto simp del: give_object_simps)
    then show ?thesis unfolding auction_measure_def same by simp
  qed
qed

lemma auction_round_ok:
  assumes inv: "auction_inv a ps n R P eps st" and input: "auction_input a ps n R P eps" and c: "assigned_count st < n"
  shows "\<exists>st'. auction_round a eps n st = Some st' \<and> auction_inv a ps n R P eps st'
    \<and> auction_measure n (P + R + eps) st' < auction_measure n (P + R + eps) st"
proof -
  have m: "matching n st" and nb: "nearly_best a n eps st" and ok: "prices_ok ps n (P + R + eps) (R + eps) st"
    using inv by (simp_all add: auction_inv_def)
  have n: "2 \<le> n" "0 < eps" "0 \<le> R" using input by (simp_all add: auction_input_def)
  have f: "free_objects n st \<noteq> {}" using card_free_objects [OF m] c by auto
  obtain i where "i < n" "assignment st ! i = None" using unassigned_person [OF m c] by blast
  then obtain u where u: "u < n" "assignment st ! u = None" "next_unassigned (assignment st) n (unassigned_idx st) = Some u"
    using next_unassigned_found [OF matchingD(4) [OF m]] by blast
  have low: "\<forall>k<n. a ! u ! k - prices st ! k > int_lowest"
  proof (intro allI impI)
    fix k
    assume k: "k < n"
    have "prices st ! k \<le> P + R + eps" using ok k f unfolding prices_ok_def by auto
    moreover have "int_lowest < a ! u ! k - (P + R + eps)" using input u(1) k unfolding auction_input_def by blast
    ultimately show "a ! u ! k - prices st ! k > int_lowest" by linarith
  qed
  obtain v w j where s: "scan_bids (a ! u) (prices st) 0 n int_lowest int_lowest None = Some (v, w, Some j)"
    and b: "best_bid (\<lambda>k. a ! u ! k - prices st ! k) n v w j"
    using scan_bids_best [OF low n(1)] by blast
  have j: "j < n" and vw: "0 < v - w + eps" using b n(2) by (simp_all add: best_bid_def)
  have R: "a ! u ! j - a ! u ! k \<le> R" and P: "ps ! k \<le> P" if "k < n" for k
    using input u(1) j that unfolding auction_input_def by blast+
  let ?st = "give_object u j (v - w + eps) st"
  have ok': "prices_ok ps n (P + R + eps) (R + eps) ?st"
    by (rule give_object_prices_ok [OF m ok n(1) f R P n(2,3) b])
  have "prices ?st ! j = prices st ! j + (v - w + eps)" using matchingD(3) [OF m] j by simp
  moreover have "prices ?st ! j \<le> (if free_objects n ?st = {} then P + R + eps + (R + eps) else P + R + eps)"
    using ok' j unfolding prices_ok_def by blast
  ultimately have bound: "free_objects n ?st \<noteq> {} \<Longrightarrow> prices st ! j + (v - w + eps) \<le> P + R + eps"
    by (simp del: give_object_simps)
  have "auction_round a eps n st = Some ?st" using u(3) s vw by (simp add: auction_round_def)
  moreover have "auction_inv a ps n R P eps ?st"
    using give_object_matching [OF m u(1,2) j] give_object_nearly_best [OF m u(1,2) nb n(2) b] ok'
    by (simp add: auction_inv_def)
  moreover have "auction_measure n (P + R + eps) ?st < auction_measure n (P + R + eps) st"
    by (rule give_object_measure [OF m j vw bound f])
  ultimately show ?thesis by blast
qed

lemma auction_loop_ends:
  assumes "auction_inv a ps n R P eps st" "auction_input a ps n R P eps"
  shows "\<exists>st'. auction_loop a eps n st = Some st' \<and> auction_inv a ps n R P eps st' \<and> n \<le> assigned_count st'"
  using assms(1)
proof (induction "auction_measure n (P + R + eps) st" arbitrary: st rule: less_induct)
  case less
  show ?case
  proof (cases "assigned_count st < n")
    case True
    then obtain st' where st': "auction_round a eps n st = Some st'" "auction_inv a ps n R P eps st'"
      "auction_measure n (P + R + eps) st' < auction_measure n (P + R + eps) st"
      using auction_round_ok [OF less.prems assms(2)] by blast
    have "auction_loop a eps n st = auction_loop a eps n st'"
      using True st'(1) by (simp add: auction_loop.simps [of a eps n st])
    then show ?thesis using less.hyps [OF st'(3,2)] by simp
  next
    case False
    then show ?thesis using less.prems by (auto simp: auction_loop.simps [of a eps n st])
  qed
qed

lemma auction_start_inv:
  assumes "auction_input a ps n R P eps"
  shows "auction_inv a ps n R P eps (auction_start n ps)"
proof -
  have "0 \<in> free_objects n (auction_start n ps)"
    using assms by (simp add: free_objects_def auction_start_def auction_input_def)
  then show ?thesis using assms
    by (auto simp: auction_inv_def auction_start_def matching_def nearly_best_def prices_ok_def assigned_persons_def auction_input_def)
qed

lemma auctionStep_ends:
  assumes "auction_input a ps n R P eps"
  shows "\<exists>st. auctionStep a eps n ps = Some st \<and> auction_inv a ps n R P eps st \<and> n \<le> assigned_count st"
  using auction_loop_ends [OF auction_start_inv [OF assms] assms] assms by (auto simp: auctionStep_def auction_input_def)

text \<open>The persons' objects once everyone has one.\<close>

definition complete_assignment :: "nat \<Rightarrow> nat option list \<Rightarrow> bool" where
  "complete_assignment n asg \<longleftrightarrow> n \<le> length asg \<and> (\<forall>i<n. asg ! i \<noteq> None) \<and> bij_betw (\<lambda>i. the (asg ! i)) {..<n} {..<n}"

definition assignment_value :: "int list list \<Rightarrow> nat \<Rightarrow> (nat \<Rightarrow> nat) \<Rightarrow> int" where
  "assignment_value a n f = (\<Sum>i<n. a ! i ! f i)"

lemma all_assigned:
  assumes "matching n st" "n \<le> assigned_count st"
  shows "complete_assignment n (assignment st)"
proof -
  have "assigned_persons n st \<subseteq> {..<n}" by (auto simp: assigned_persons_def)
  moreover have "card {..<n} \<le> card (assigned_persons n st)" using assms(2) matchingD(5) [OF assms(1)] by simp
  ultimately have "assigned_persons n st = {..<n}" by (intro card_seteq) auto
  then have all: "\<forall>i<n. assignment st ! i \<noteq> None" by (auto simp: assigned_persons_def)
  let ?f = "\<lambda>i. the (assignment st ! i)"
  have o: "?f i < n" "object_assignment st ! ?f i = Some i" if "i < n" for i
    using matching_object [OF assms(1) that, of "?f i"] all that by auto
  have "inj_on ?f {..<n}" by (rule inj_on_inverseI [where g = "\<lambda>j. the (object_assignment st ! j)"]) (simp add: o)
  moreover have "?f ` {..<n} \<subseteq> {..<n}" using o(1) by auto
  ultimately have "bij_betw ?f {..<n} {..<n}" by (simp add: bij_betw_def endo_inj_surj)
  then show ?thesis using all matchingD(1) [OF assms(1)] by (simp add: complete_assignment_def)
qed

lemma nearly_best_value:
  assumes "nearly_best a n eps st" "complete_assignment n (assignment st)" "bij_betw f {..<n} {..<n}"
  shows "assignment_value a n f \<le> assignment_value a n (\<lambda>i. the (assignment st ! i)) + int n * eps"
proof -
  let ?g = "\<lambda>i. the (assignment st ! i)"
  let ?p = "\<lambda>j. prices st ! j"
  have g: "bij_betw ?g {..<n} {..<n}" "\<And>i. i < n \<Longrightarrow> assignment st ! i = Some (?g i)"
    using assms(2) by (auto simp: complete_assignment_def)
  have "(\<Sum>i<n. a ! i ! f i - ?p (f i)) \<le> (\<Sum>i<n. a ! i ! ?g i - ?p (?g i) + eps)"
  proof (rule sum_mono)
    fix i
    assume "i \<in> {..<n}"
    moreover from this have "f i < n" using bij_betwE [OF assms(3)] by blast
    ultimately show "a ! i ! f i - ?p (f i) \<le> a ! i ! ?g i - ?p (?g i) + eps"
      using assms(1) g(2) unfolding nearly_best_def by blast
  qed
  moreover have "(\<Sum>i<n. ?p (f i)) = (\<Sum>i<n. ?p i)" "(\<Sum>i<n. ?p (?g i)) = (\<Sum>i<n. ?p i)"
    using sum.reindex_bij_betw [OF assms(3)] sum.reindex_bij_betw [OF g(1)] by blast+
  ultimately show ?thesis by (simp add: assignment_value_def sum.distrib sum_subtractf)
qed

section \<open>The optimizer finds an optimal assignment\<close>

lemma step_prices:
  assumes "auction_inv a ps n R P eps st"  "n \<le> assigned_count st" "j < n"
  shows "prices st ! j \<le> P + 2 * (R + eps)"
proof -
  have m: "matching n st" using assms(1) by (simp add: auction_inv_def)
  have "card (free_objects n st) = 0" using card_free_objects [OF m] assms(2) by simp
  moreover have "finite (free_objects n st)" by (simp add: free_objects_def)
  ultimately have "free_objects n st = {}" by simp
  then show ?thesis using assms(1,3) unfolding auction_inv_def prices_ok_def by force
qed

text \<open>Epsilon shrinks to a fifth, so that the number of steps is logarithmic.\<close>

definition eps_steps :: "nat \<Rightarrow> int \<Rightarrow> bool" where
  "eps_steps k eps \<longleftrightarrow> (case k of 0 \<Rightarrow> eps \<le> 1 | Suc k' \<Rightarrow> eps \<le> 2 * 5 ^ k')"

definition value_spread :: "int list list \<Rightarrow> nat \<Rightarrow> int \<Rightarrow> bool" where
  "value_spread a n R \<longleftrightarrow> (\<forall>i<n. \<forall>j<n. 0 \<le> a ! i ! j \<and> (\<forall>k<n. a ! i ! j - a ! i ! k \<le> R))"

lemma next_eps:
  assumes "1 < eps"
  shows "(eps + 2) sdiv 5 = (eps + 2) div (5 :: int)" "(eps + 2) div 5 < eps"
  using assms by (auto simp: signed_divide_int_def)

lemma eps_steps_next:
  assumes "eps_steps (Suc k) eps" "1 < eps"
  shows "eps_steps k ((eps + 2) div 5)"
proof (cases k)
  case 0
  then have "eps = 2" using assms by (simp add: eps_steps_def)
  then show ?thesis using 0 by (simp add: eps_steps_def)
next
  case (Suc k')
  then have "eps \<le> 5 * (2 * 5 ^ k')" using assms by (simp add: eps_steps_def)
  then have "(eps + 2) div 5 \<le> 2 * 5 ^ k'" by linarith
  then show ?thesis using Suc by (simp add: eps_steps_def)
qed

lemma eps_loop_ends:
  assumes "eps_steps k eps" "eps \<le> E" "0 < E" "0 \<le> R" "2 \<le> n" "value_spread a n R" "length ps = n" "\<forall>j<n. ps ! j \<le> P"
    "int_lowest < - (P + int k * (2 * (R + E)))"
  shows "\<exists>ps'. eps_loop a eps n ps = Some ps' \<and> length ps' = n \<and> (\<forall>j<n. ps' ! j \<le> P + int k * (2 * (R + E)))"
  using assms
proof (induction k arbitrary: eps ps P)
  case 0
  then show ?case by (auto simp: eps_loop.simps eps_steps_def)
next
  case (Suc k)
  show ?case
  proof (cases "1 < eps")
    case False
    have "0 \<le> int (Suc k) * (2 * (R + E))" using Suc.prems by simp
    then have "\<forall>j<n. ps ! j \<le> P + int (Suc k) * (2 * (R + E))" using Suc.prems(8) by (meson add_increasing2)
    then show ?thesis using False Suc.prems(7) by (simp add: eps_loop.simps)
  next
    case True
    define X where "X = int k * (2 * (R + E))"
    have kE: "0 \<le> X" using Suc.prems by (simp add: X_def)
    have e: "P + int (Suc k) * (2 * (R + E)) = P + 2 * (R + E) + X" by (simp add: X_def algebra_simps)
    have low: "int_lowest < a ! i ! j - (P + R + eps)" if "i < n" "j < n" for i j
    proof -
      have "0 \<le> a ! i ! j" using Suc.prems(6) that by (simp add: value_spread_def)
      moreover have "P + R + eps \<le> P + 2 * (R + E) + X" using Suc.prems(2,3,4) kE by simp
      moreover have "int_lowest < - (P + 2 * (R + E) + X)" using Suc.prems(9) unfolding e .
      ultimately show ?thesis by simp
    qed
    then have input: "auction_input a ps n R P eps"
      using Suc.prems True by (simp add: auction_input_def value_spread_def)
    then obtain st where st: "auctionStep a eps n ps = Some st" "auction_inv a ps n R P eps st" "n \<le> assigned_count st"
      using auctionStep_ends by blast
    have len: "length (prices st) = n" using st(2) matchingD(3) by (simp add: auction_inv_def)
    have pr: "\<forall>j<n. prices st ! j \<le> P + 2 * (R + E)"
      using step_prices [OF st(2,3)] Suc.prems(2) by fastforce
    have "(eps + 2) div 5 \<le> E" using next_eps(2) [OF True] Suc.prems(2) by linarith
    from Suc.IH [OF eps_steps_next [OF Suc.prems(1) True] this Suc.prems(3-6) len pr] Suc.prems(9) [unfolded e X_def]
    show ?thesis using True st(1) unfolding e X_def by (simp add: eps_loop.simps [of a eps] next_eps(1) [OF True])
  qed
qed

lemma fold_max_le: "(\<forall>x\<in>set xs. x \<le> b) \<Longrightarrow> m \<le> b \<Longrightarrow> fold max xs m \<le> (b :: int)"
  by (induction xs arbitrary: m) auto

lemma sdiv_le: "x \<le> 25 * c + 24 \<Longrightarrow> 0 \<le> c \<Longrightarrow> x sdiv 25 \<le> (c :: int)"
  by (auto simp: signed_divide_int_def sgn_if)

text \<open>The optimizer is given a square matrix whose scaled values stay below 110 million and differ, for
  one person, by at most 40 million.\<close>

definition optimizer_input :: "int list list \<Rightarrow> nat \<Rightarrow> bool" where
  "optimizer_input a n \<longleftrightarrow> length a = n \<and> (\<forall>row\<in>set a. length row = n \<and>
     (\<forall>x\<in>set row. 0 \<le> x \<and> x * (int n + 1) \<le> 110000000 \<and> (\<forall>y\<in>set row. (x - y) * (int n + 1) \<le> 40000000)))"

lemma scale_nth: "length a = n \<Longrightarrow> length (a ! i) = n \<Longrightarrow> i < n \<Longrightarrow> j < n \<Longrightarrow> scale_matrix a n ! i ! j = a ! i ! j * (int n + 1)"
  by (simp add: scale_matrix_def)

lemma optimizer_spread:
  assumes "optimizer_input a n"
  shows "value_spread (scale_matrix a n) n 40000000"
  unfolding value_spread_def
proof (intro allI impI conjI)
  fix i j k
  assume ijk: "i < n" "j < n" "k < n"
  then have row: "a ! i \<in> set a" "length (a ! i) = n" using assms by (auto simp: optimizer_input_def)
  then have "(a ! i ! j - a ! i ! k) * (int n + 1) \<le> 40000000"
    using assms ijk unfolding optimizer_input_def by (metis nth_mem)
  then show "scale_matrix a n ! i ! j - scale_matrix a n ! i ! k \<le> 40000000"
    using ijk row(2) assms by (simp add: scale_nth optimizer_input_def left_diff_distrib)
next
  fix i j
  assume ij: "i < n" "j < n"
  then have row: "a ! i \<in> set a" "length (a ! i) = n" using assms by (auto simp: optimizer_input_def)
  then have "0 \<le> a ! i ! j" using assms ij unfolding optimizer_input_def by (metis nth_mem)
  then show "0 \<le> scale_matrix a n ! i ! j" using ij row(2) assms by (simp add: scale_nth optimizer_input_def)
qed

lemma optimizer_max:
  assumes "optimizer_input a n"
  shows "max_entry (scale_matrix a n) \<le> 110000000"
  unfolding max_entry_def scale_matrix_def
  by (rule fold_max_le) (use assms in \<open>auto simp: optimizer_input_def int_lowest_def\<close>)

text \<open>An assignment of every person to an object of their own that no other assignment beats.\<close>

definition optimal_assignment :: "int list list \<Rightarrow> nat \<Rightarrow> nat option list \<Rightarrow> bool" where
  "optimal_assignment a n asg \<longleftrightarrow> complete_assignment n asg
     \<and> (\<forall>f. bij_betw f {..<n} {..<n} \<longrightarrow> assignment_value a n f \<le> assignment_value a n (\<lambda>i. the (asg ! i)))"

lemma assignment_value_scale:
  assumes "optimizer_input a n" "bij_betw f {..<n} {..<n}"
  shows "assignment_value (scale_matrix a n) n f = assignment_value a n f * (int n + 1)"
proof -
  have "scale_matrix a n ! i ! f i = a ! i ! f i * (int n + 1)" if "i < n" for i
    using assms that bij_betwE [OF assms(2)] by (intro scale_nth) (auto simp: optimizer_input_def)
  then show ?thesis by (simp add: assignment_value_def sum_distrib_right)
qed

lemma scaled_optimal:
  fixes x y :: int
  assumes "x * (int n + 1) \<le> y * (int n + 1) + int n"
  shows "x \<le> y"
proof (rule ccontr)
  assume "\<not> x \<le> y"
  then have "(y + 1) * (int n + 1) \<le> x * (int n + 1)" by (intro mult_right_mono) auto
  then show False using assms by (simp add: algebra_simps)
qed

text \<open>The last step of the optimizer, after the steps with larger epsilons.\<close>

lemma optimizer_last_step:
  assumes "optimizer_input a n" "2 \<le> n"
  shows "\<exists>ps st. eps_loop (scale_matrix a n) ((max_entry (scale_matrix a n) + 12) sdiv 25) n (replicate n 0) = Some ps
    \<and> auctionStep (scale_matrix a n) 1 n ps = Some st \<and> matching n st \<and> n \<le> assigned_count st
    \<and> nearly_best (scale_matrix a n) n 1 st"
proof -
  let ?a = "scale_matrix a n" and ?eps = "(max_entry (scale_matrix a n) + 12) sdiv 25"
  have "max_entry ?a + 12 \<le> 25 * 4400000 + 24" using optimizer_max [OF assms(1)] by simp
  then have eps: "?eps \<le> 4400000" by (rule sdiv_le) simp
  then have steps: "eps_steps 11 ?eps" by (simp add: eps_steps_def numeral_eq_Suc)
  have sp: "value_spread ?a n 40000000" by (rule optimizer_spread [OF assms(1)])
  have low: "int_lowest < - (0 + int 11 * (2 * (40000000 + 4400000)))" by (simp add: int_lowest_def)
  have r0: "\<forall>j<n. replicate n 0 ! j \<le> (0 :: int)" by simp
  obtain ps where ps: "eps_loop ?a ?eps n (replicate n 0) = Some ps" "length ps = n" "\<forall>j<n. ps ! j \<le> 976800000"
    using eps_loop_ends [OF steps eps _ _ assms(2) sp _ r0 low] by auto
  have "auction_input ?a ps n 40000000 976800000 1"
    using assms(2) sp ps(2,3) by (auto simp: auction_input_def value_spread_def int_lowest_def intro: add_pos_nonneg)
  from auctionStep_ends [OF this] show ?thesis using ps(1) by (auto simp: auction_inv_def)
qed

lemma single_assignment:
  assumes "1 \<le> length asg"
  shows "optimal_assignment a 1 (asg[0 := Some 0])"
proof -
  have one: "{..<Suc 0} = {0 :: nat}" by auto
  have nth: "asg[0 := Some 0] ! 0 = Some 0" using assms by (cases asg) simp_all
  have "bij_betw (\<lambda>i. the (asg[0 := Some 0] ! i)) {0} {0}" unfolding bij_betw_def by (simp add: nth)
  moreover have "f 0 = 0" if "bij_betw f {0 :: nat} {0 :: nat}" for f using bij_betwE [OF that] by simp
  ultimately show ?thesis
    using assms by (simp add: optimal_assignment_def complete_assignment_def assignment_value_def one nth)
qed

lemma optimizer_correct:
  assumes "optimizer_input a n" "1 \<le> n" "n \<le> length asg" "n \<le> length oasg"
  shows "\<exists>asg' oasg'. auctionOptimization a asg oasg n = Some (asg', oasg')
    \<and> length asg' = length asg \<and> optimal_assignment a n asg' \<and> (\<forall>i<n. oasg' ! the (asg' ! i) = Some i)"
proof (cases "n = 1")
  case True
  then have "optimal_assignment a n (asg[0 := Some 0])" using single_assignment [of asg a] assms(3) by simp
  then show ?thesis using True assms(3,4) by (cases asg; cases oasg) (simp_all add: auctionOptimization_def)
next
  case False
  then have n: "2 \<le> n" using assms(2) by simp
  obtain ps st where st: "eps_loop (scale_matrix a n) ((max_entry (scale_matrix a n) + 12) sdiv 25) n (replicate n 0) = Some ps"
    "auctionStep (scale_matrix a n) 1 n ps = Some st" "matching n st" "n \<le> assigned_count st" "nearly_best (scale_matrix a n) n 1 st"
    using optimizer_last_step [OF assms(1) n] by blast
  let ?asg = "assignment st @ drop n asg" and ?oasg = "object_assignment st @ drop n oasg"
  have c: "complete_assignment n (assignment st)" by (rule all_assigned [OF st(3,4)])
  have len: "length (assignment st) = n" "length (object_assignment st) = n" using matchingD [OF st(3)] by simp_all
  have nth: "?asg ! i = assignment st ! i" "i < n \<Longrightarrow> ?oasg ! i = object_assignment st ! i" if "i < n" for i
    using that len by (simp_all add: nth_append)
  have "bij_betw (\<lambda>i. the (?asg ! i)) {..<n} {..<n} \<longleftrightarrow> bij_betw (\<lambda>i. the (assignment st ! i)) {..<n} {..<n}"
    by (rule bij_betw_cong) (simp add: nth)
  then have c': "complete_assignment n ?asg" using c len nth(1) by (simp add: complete_assignment_def)
  have "assignment_value a n f \<le> assignment_value a n (\<lambda>i. the (?asg ! i))" if f: "bij_betw f {..<n} {..<n}" for f
  proof -
    have g: "bij_betw (\<lambda>i. the (assignment st ! i)) {..<n} {..<n}" using c by (simp add: complete_assignment_def)
    have "assignment_value a n f * (int n + 1) \<le> assignment_value a n (\<lambda>i. the (assignment st ! i)) * (int n + 1) + int n"
      using nearly_best_value [OF st(5) c f] by (simp add: assignment_value_scale [OF assms(1)] f g)
    then have "assignment_value a n f \<le> assignment_value a n (\<lambda>i. the (assignment st ! i))" by (rule scaled_optimal)
    then show ?thesis using nth(1) by (simp add: assignment_value_def)
  qed
  then have "optimal_assignment a n ?asg" using c' by (simp add: optimal_assignment_def)
  moreover have "?oasg ! the (?asg ! i) = Some i" if i: "i < n" for i
  proof -
    obtain j where j: "assignment st ! i = Some j" using c i by (auto simp: complete_assignment_def)
    show ?thesis using matching_object [OF st(3) i j] j i len by (simp add: nth_append)
  qed
  moreover have "auctionOptimization a asg oasg n = Some (?asg, ?oasg)"
    using n st(1,2) by (simp add: auctionOptimization_def Let_def)
  ultimately show ?thesis using len assms(3) by simp
qed

section \<open>The contract of the optimizer\<close>

text \<open>Callers rely on this: for admissible values the optimizer returns an optimal assignment. They turn
  costs into values by subtracting them from a constant, and so get the least total cost.\<close>

locale assignment_solver =
  fixes solve :: "int list list \<Rightarrow> nat \<Rightarrow> nat option list option"
    and admissible :: "int list list \<Rightarrow> nat \<Rightarrow> bool"
  assumes solves: "admissible a n \<Longrightarrow> 1 \<le> n \<Longrightarrow> n \<le> 64 \<Longrightarrow> \<exists>asg. solve a n = Some asg \<and> optimal_assignment a n asg"
begin

lemma least_cost:
  assumes "admissible a n" "1 \<le> n" "n \<le> 64" and cost: "\<And>i j. i < n \<Longrightarrow> j < n \<Longrightarrow> a ! i ! j = K - c i j"
  shows "\<exists>asg. solve a n = Some asg \<and> bij_betw (\<lambda>i. the (asg ! i)) {..<n} {..<n}
    \<and> (\<forall>g. bij_betw g {..<n} {..<n} \<longrightarrow> (\<Sum>i<n. c i (the (asg ! i))) \<le> (\<Sum>i<n. c i (g i)))"
proof -
  obtain asg where asg: "solve a n = Some asg" and opt: "optimal_assignment a n asg" using solves [OF assms(1-3)] by blast
  have f: "bij_betw (\<lambda>i. the (asg ! i)) {..<n} {..<n}" using opt by (simp add: optimal_assignment_def complete_assignment_def)
  have v: "assignment_value a n h = int n * K - (\<Sum>i<n. c i (h i))" if h: "bij_betw h {..<n} {..<n}" for h
  proof -
    have "assignment_value a n h = (\<Sum>i<n. K - c i (h i))"
      unfolding assignment_value_def using bij_betwE [OF h] by (intro sum.cong) (auto simp: cost)
    then show ?thesis by (simp add: sum_subtractf)
  qed
  have "(\<Sum>i<n. c i (the (asg ! i))) \<le> (\<Sum>i<n. c i (g i))" if g: "bij_betw g {..<n} {..<n}" for g
    using opt g v [OF f] v [OF g] by (auto simp: optimal_assignment_def)
  then show ?thesis using asg f by blast
qed

end

text \<open>The arrays of the callers have room for 64 parts.\<close>

definition solve_assignment :: "nat option \<Rightarrow> int list list \<Rightarrow> nat \<Rightarrow> nat option list option" where
  "solve_assignment x a n = map_option fst (auctionOptimization a (replicate 64 x) (replicate 64 None) n)"

interpretation auctioneer: assignment_solver "solve_assignment x" optimizer_input for x
proof
  fix a n
  assume "optimizer_input a n" "1 \<le> n" "n \<le> 64"
  then show "\<exists>asg. solve_assignment x a n = Some asg \<and> optimal_assignment a n asg"
    using optimizer_correct [of a n "replicate 64 x" "replicate 64 None"] by (auto simp: solve_assignment_def)
qed

section \<open>Properties\<close>

text \<open>
  C9: The linear assignment optimizer always returns: for a square matrix of values in the documented
  range (non-negative and well below the largest integer: at most 110 million after scaling, and
  differing by at most 40 million within a row) every loop ends and no assertion fails. The
  returned arrays pair persons and objects one to one and are inverse to each other, and no other
  pairing has a larger total value.
\<close>

theorem auction_optimal:
  assumes "optimizer_input a n" "1 \<le> n" "n \<le> length asg" "n \<le> length oasg"
  shows "\<exists>asg' oasg'. auctionOptimization a asg oasg n = Some (asg', oasg')
    \<and> (\<forall>i<n. asg' ! i \<noteq> None \<and> oasg' ! the (asg' ! i) = Some i)
    \<and> bij_betw (\<lambda>i. the (asg' ! i)) {..<n} {..<n}
    \<and> (\<forall>f. bij_betw f {..<n} {..<n} \<longrightarrow> (\<Sum>i<n. a ! i ! f i) \<le> (\<Sum>i<n. a ! i ! the (asg' ! i)))"
  using optimizer_correct [OF assms] by (auto simp: optimal_assignment_def complete_assignment_def assignment_value_def)

theorem auction_optimal_witness:
  defines "a \<equiv> [[7, 9, 1], [8, 9, 2], [5, 8, 4]] :: int list list"
  shows "optimizer_input a 3
    \<and> auctionOptimization a [None, None, None] [None, None, None] 3 = Some ([Some 1, Some 0, Some 2], [Some 1, Some 0, Some 2])
    \<and> (\<exists>asg' oasg'. auctionOptimization a [None, None, None] [None, None, None] 3 = Some (asg', oasg')
      \<and> bij_betw (\<lambda>i. the (asg' ! i)) {..<3} {..<3})"
proof -
  have i: "optimizer_input a 3" by (simp add: a_def optimizer_input_def)
  moreover have "auctionOptimization a [None, None, None] [None, None, None] 3
      = Some ([Some 1, Some 0, Some 2], [Some 1, Some 0, Some 2])"
    unfolding a_def by code_simp
  ultimately show ?thesis using auction_optimal [OF i, of "[None, None, None]" "[None, None, None]"] by auto
qed

end
