(* ===== verification/Goals.thy ===== *)
theory Goals
  imports SliceTypes Auction
begin

text \<open>
  Goals of \<^verbatim>\<open>src/src/common/goal.h\<close> and \<^verbatim>\<open>src/src/common/goal.cc\<close>: which copies of which parts
  of a chunk are kept on servers with which labels. A flat map from labels to numbers of copies is an
  association list sorted by label; the wildcard label is the largest. The flat storage of a slice,
  one array with the entries of all parts and one with the sizes of the parts, is the list of its
  parts; the array of entries is their concatenation. Copies are 16-bit numbers, sums are \<^verbatim>\<open>int\<close>.
\<close>

section \<open>Labels\<close>

type_synonym labels = "(nat \<times> nat) list"

definition kWildcard :: nat where
  "kWildcard = 65535"

definition kMaxExpectedCopies :: nat where
  "kMaxExpectedCopies = 128"

fun countLabels :: "labels \<Rightarrow> nat" where
  "countLabels [] = 0"
| "countLabels ((l, c) # ls) = c + countLabels ls"

text \<open>The operations of flat maps: finding, setting and erasing the value of a key.\<close>

fun lab_find :: "(nat \<times> 'v) list \<Rightarrow> nat \<Rightarrow> 'v option" where
  "lab_find [] l = None"
| "lab_find ((k, c) # ls) l = (if k = l then Some c else lab_find ls l)"

fun lab_set :: "nat \<Rightarrow> 'v \<Rightarrow> (nat \<times> 'v) list \<Rightarrow> (nat \<times> 'v) list" where
  "lab_set l c [] = [(l, c)]"
| "lab_set l c ((k, d) # ls) = (if l < k then (l, c) # (k, d) # ls else if l = k then (l, c) # ls else (k, d) # lab_set l c ls)"

fun lab_erase :: "nat \<Rightarrow> (nat \<times> 'v) list \<Rightarrow> (nat \<times> 'v) list" where
  "lab_erase l [] = []"
| "lab_erase l ((k, d) # ls) = (if l = k then ls else (k, d) # lab_erase l ls)"

text \<open>The result and the three sums of \<^verbatim>\<open>makeLabelsUnion\<close>; an insertion with the end as hint appends.\<close>

record union_state =
  result :: labels
  first_sum :: nat
  second_sum :: nat
  merged_sum :: nat

definition take_first :: "nat \<times> nat \<Rightarrow> union_state \<Rightarrow> union_state" where
  "take_first e u = u\<lparr>result := result u @ [e], first_sum := first_sum u + snd e, merged_sum := merged_sum u + snd e\<rparr>"

definition take_second :: "nat \<times> nat \<Rightarrow> union_state \<Rightarrow> union_state" where
  "take_second e u = u\<lparr>result := result u @ [e], merged_sum := merged_sum u + snd e, second_sum := second_sum u + snd e\<rparr>"

definition take_both :: "nat \<Rightarrow> nat \<Rightarrow> nat \<Rightarrow> union_state \<Rightarrow> union_state" where
  "take_both l c d u = u\<lparr>result := result u @ [(l, max c d)], first_sum := first_sum u + c, second_sum := second_sum u + d,
     merged_sum := merged_sum u + max c d\<rparr>"

fun union_loop :: "labels \<Rightarrow> labels \<Rightarrow> union_state \<Rightarrow> labels \<times> union_state" where
  "union_loop [] second u = (second, u)"
| "union_loop ((l, c) # first) [] u =
     (if l = kWildcard then ([], u\<lparr>first_sum := first_sum u + c\<rparr>) else union_loop first [] (take_first (l, c) u))"
| "union_loop ((l, c) # first) ((k, d) # second) u =
     (if l = kWildcard then ((k, d) # second, u\<lparr>first_sum := first_sum u + c\<rparr>)
      else if k < l then union_loop ((l, c) # first) second (take_second (k, d) u)
      else if l < k then union_loop first ((k, d) # second) (take_first (l, c) u)
      else union_loop first second (take_both l c d u))"

fun union_rest :: "labels \<Rightarrow> union_state \<Rightarrow> union_state" where
  "union_rest [] u = u"
| "union_rest ((k, d) # second) u =
     union_rest second (if k \<noteq> kWildcard then take_second (k, d) u else u\<lparr>second_sum := second_sum u + d\<rparr>)"

definition makeLabelsUnion :: "labels \<Rightarrow> labels \<Rightarrow> labels" where
  "makeLabelsUnion first second =
     (let (second', u) = union_loop first second \<lparr>result = [], first_sum = 0, second_sum = 0, merged_sum = 0\<rparr>;
          u = union_rest second' u;
          wildcards = int (max (first_sum u) (second_sum u)) - int (merged_sum u)
      in if wildcards > 0 then lab_set kWildcard (nat wildcards) (result u) else result u)"

fun labelsDistance :: "labels \<Rightarrow> labels \<Rightarrow> int" where
  "labelsDistance [] second = int (countLabels second)"
| "labelsDistance ((l, c) # first) [] = int c + labelsDistance first []"
| "labelsDistance ((l, c) # first) ((k, d) # second) =
     (if k < l then int d + labelsDistance ((l, c) # first) second
      else if l < k then int c + labelsDistance first ((k, d) # second)
      else \<bar>int c - int d\<bar> + labelsDistance first second)"

section \<open>Slices\<close>

record slice =
  slice_type :: nat
  parts :: "labels list"

definition new_slice :: "nat \<Rightarrow> slice" where
  "new_slice t = \<lparr>slice_type = t, parts = replicate (expectedParts t) []\<rparr>"

definition slice_size :: "slice \<Rightarrow> nat" where
  "slice_size s = expectedParts (slice_type s)"

definition slice_copies :: "slice \<Rightarrow> nat" where
  "slice_copies s = countLabels (concat (parts s))"

definition slice_valid :: "slice \<Rightarrow> bool" where
  "slice_valid s \<longleftrightarrow> type_valid (slice_type s)
     \<and> list_all (\<lambda>e. snd e > 0) (concat (parts s)) \<and> list_all (\<lambda>p. length p > 0) (parts s)"

text \<open>Equality of slices compares the type and the array of entries.\<close>

definition slice_eq :: "slice \<Rightarrow> slice \<Rightarrow> bool" where
  "slice_eq s t \<longleftrightarrow> slice_type s = slice_type t \<and> concat (parts s) = concat (parts t)"

definition merge_cost :: "slice \<Rightarrow> slice \<Rightarrow> int list list" where
  "merge_cost s other =
     map (\<lambda>p. map (\<lambda>q. 10 * int kMaxExpectedCopies - labelsDistance p (makeLabelsUnion p q)) (parts other)) (parts s)"

definition slice_mergeIn :: "slice \<Rightarrow> slice \<Rightarrow> slice option" where
  "slice_mergeIn s other =
     (if slice_type s = slice_type other \<and> slice_size s = slice_size other
      then case solve_assignment (Some 0) (merge_cost s other) (slice_size s) of
             None \<Rightarrow> None
           | Some asg \<Rightarrow>
               Some (s\<lparr>parts := map (\<lambda>i. makeLabelsUnion (parts s ! i) (parts other ! the (asg ! i))) [0..<length (parts s)]\<rparr>)
      else None)"

section \<open>Goals\<close>

record goal =
  goal_name :: string
  goal_slices :: "slice list"

fun find_slice :: "slice list \<Rightarrow> nat \<Rightarrow> slice option" where
  "find_slice [] t = None"
| "find_slice (s # ss) t = (if slice_type s = t then Some s else find_slice ss t)"

fun put_slice :: "slice \<Rightarrow> slice list \<Rightarrow> slice list" where
  "put_slice s [] = [s]"
| "put_slice s (r # rs) =
     (if slice_type s < slice_type r then s # r # rs
      else if slice_type s = slice_type r then s # rs else r # put_slice s rs)"

definition setSlice :: "slice \<Rightarrow> goal \<Rightarrow> goal" where
  "setSlice s g = g\<lparr>goal_slices := put_slice s (goal_slices g)\<rparr>"

fun merge_slices :: "slice list \<Rightarrow> slice list \<Rightarrow> slice list option" where
  "merge_slices ss [] = Some ss"
| "merge_slices ss (s # others) =
     (if \<not> slice_valid s then None
      else case find_slice ss (slice_type s) of
             None \<Rightarrow> merge_slices (put_slice s ss) others
           | Some cur \<Rightarrow>
               (case slice_mergeIn cur s of
                  None \<Rightarrow> None
                | Some cur' \<Rightarrow> merge_slices (put_slice cur' ss) others))"

definition goal_mergeIn :: "goal \<Rightarrow> goal \<Rightarrow> goal option" where
  "goal_mergeIn g other = map_option (\<lambda>ss. g\<lparr>goal_slices := ss\<rparr>) (merge_slices (goal_slices g) (goal_slices other))"

definition getExpectedCopies :: "goal \<Rightarrow> nat" where
  "getExpectedCopies g = sum_list (map slice_copies (goal_slices g))"

definition goal_isXor :: "goal \<Rightarrow> bool" where
  "goal_isXor g \<longleftrightarrow> list_ex (\<lambda>s. slice_type s \<ge> kXor2 \<and> slice_type s \<le> kXor9) (goal_slices g)"

definition goal_eq :: "goal \<Rightarrow> goal \<Rightarrow> bool" where
  "goal_eq g h \<longleftrightarrow> goal_name g = goal_name h \<and> list_all2 slice_eq (goal_slices g) (goal_slices h)"

section \<open>Laws of labels\<close>

text \<open>Sorted association lists as maps, the number of copies asked for on a label, and when copies on
  servers meet what is asked for: a wildcard copy may be on any server.\<close>

definition labels_ok :: "labels \<Rightarrow> bool" where
  "labels_ok ls \<longleftrightarrow> sorted_wrt (<) (map fst ls) \<and> list_all (\<lambda>e. fst e \<le> kWildcard) ls"

definition copies :: "labels \<Rightarrow> nat \<Rightarrow> nat" where
  "copies ls l = (case lab_find ls l of None \<Rightarrow> 0 | Some c \<Rightarrow> c)"

definition meets :: "labels \<Rightarrow> labels \<Rightarrow> bool" where
  "meets have_labels want \<longleftrightarrow> (\<forall>l<kWildcard. copies want l \<le> copies have_labels l)
     \<and> countLabels want \<le> countLabels have_labels"

lemma labels_ok_Cons [simp]:
  "labels_ok ((l, c) # ls) \<longleftrightarrow> l \<le> kWildcard \<and> (\<forall>k\<in>fst ` set ls. l < k) \<and> labels_ok ls"
  by (auto simp: labels_ok_def)

lemma labels_ok_Nil [simp]: "labels_ok []"
  by (simp add: labels_ok_def)

lemma copies_Nil [simp]: "copies [] l = 0"
  by (simp add: copies_def)

lemma copies_Cons [simp]: "copies ((k, c) # ls) l = (if k = l then c else copies ls l)"
  by (simp add: copies_def)

lemma copies_notin: "l \<notin> fst ` set ls \<Longrightarrow> copies ls l = 0"
  by (induction ls) auto

lemma countLabels_sum:
  "labels_ok ls \<Longrightarrow> countLabels ls = (\<Sum>l\<le>kWildcard. copies ls l)"
proof (induction ls)
  case Nil
  then show ?case by simp
next
  case (Cons e ls)
  obtain l c where e: "e = (l, c)" by (cases e)
  have "l \<notin> fst ` set ls" using Cons.prems e by auto
  then have "copies (e # ls) k = copies ls k + (if k = l then c else 0)" for k by (auto simp: e copies_notin)
  then show ?case using Cons e by (simp add: sum.distrib)
qed

lemma countLabels_append [simp]: "countLabels (xs @ ys) = countLabels xs + countLabels ys"
  by (induction xs rule: countLabels.induct) auto

lemma labels_ok_append:
  "labels_ok (xs @ ys) \<longleftrightarrow> labels_ok xs \<and> labels_ok ys \<and> (\<forall>k\<in>fst ` set xs. \<forall>l\<in>fst ` set ys. k < l)"
  by (auto simp: labels_ok_def sorted_wrt_append)

lemma set_lab_set: "fst ` set (lab_set l c ls) = insert l (fst ` set ls)"
  by (induction l c ls rule: lab_set.induct) auto

lemma labels_ok_lab_set: "labels_ok ls \<Longrightarrow> l \<le> kWildcard \<Longrightarrow> labels_ok (lab_set l c ls)"
proof (induction l c ls rule: lab_set.induct)
  case (2 l c k d ls)
  then show ?case by (auto simp: set_lab_set simp del: fst_conv) fastforce+
qed simp

lemma copies_lab_set: "labels_ok ls \<Longrightarrow> copies (lab_set l c ls) k = (if k = l then c else copies ls k)"
  by (induction l c ls rule: lab_set.induct) auto

lemma copies_append:
  "\<forall>k\<in>fst ` set xs. k \<notin> fst ` set ys \<Longrightarrow> copies (xs @ ys) l = copies xs l + copies ys l"
  by (induction xs) (auto simp: copies_notin)

text \<open>The result without wildcards as a merge of two sorted lists.\<close>

fun lab_merge :: "labels \<Rightarrow> labels \<Rightarrow> labels" where
  "lab_merge [] second = filter (\<lambda>e. fst e \<noteq> kWildcard) second"
| "lab_merge ((l, c) # first) [] = (if l = kWildcard then [] else (l, c) # lab_merge first [])"
| "lab_merge ((l, c) # first) ((k, d) # second) =
     (if l = kWildcard then filter (\<lambda>e. fst e \<noteq> kWildcard) ((k, d) # second)
      else if k < l then (k, d) # lab_merge ((l, c) # first) second
      else if l < k then (l, c) # lab_merge first ((k, d) # second)
      else (l, max c d) # lab_merge first second)"

lemma union_rest_eq:
  "union_rest second u = u\<lparr>result := result u @ filter (\<lambda>e. fst e \<noteq> kWildcard) second,
     second_sum := second_sum u + countLabels second,
     merged_sum := merged_sum u + countLabels (filter (\<lambda>e. fst e \<noteq> kWildcard) second)\<rparr>"
  by (induction second u rule: union_rest.induct) (simp_all add: take_second_def)

lemma wildcard_last: "labels_ok ((kWildcard, c) # ls) \<Longrightarrow> ls = []"
  by (cases ls) auto

lemma union_loop_eq:
  assumes "labels_ok first"
  shows "(case union_loop first second u of (second', u') \<Rightarrow> union_rest second' u') =
    u\<lparr>result := result u @ lab_merge first second, first_sum := first_sum u + countLabels first,
      second_sum := second_sum u + countLabels second, merged_sum := merged_sum u + countLabels (lab_merge first second)\<rparr>"
  using assms
proof (induction first second u rule: union_loop.induct)
  case (1 second u)
  then show ?case by (simp add: union_rest_eq)
next
  case (2 l c first u)
  then show ?case using wildcard_last [of c first]
    by (cases "l = kWildcard") (simp_all add: take_first_def del: labels_ok_Cons, simp_all)
next
  case (3 l c first k d second u)
  show ?case
  proof (cases "l = kWildcard")
    case True
    then have "first = []" using "3.prems" wildcard_last by blast
    then show ?thesis using True by (simp add: union_rest_eq)
  next
    case False
    then show ?thesis using 3 by (auto simp: take_first_def take_second_def take_both_def)
  qed
qed

lemma keys_lab_merge:
  "x \<in> fst ` set (lab_merge first second) \<Longrightarrow> x \<in> fst ` set first \<or> x \<in> fst ` set second"
proof (induction first second rule: lab_merge.induct)
  case (1 second)
  then show ?case by auto
next
  case (2 l c first)
  then show ?case by (auto split: if_splits simp del: image_iff)
next
  case (3 l c first k d second)
  consider "l = kWildcard" | "l \<noteq> kWildcard" "k < l" | "l \<noteq> kWildcard" "l < k" | "l \<noteq> kWildcard" "l = k" by linarith
  then show ?case
  proof cases
    case 1
    then show ?thesis using "3.prems" by (auto split: if_splits)
  next
    case 2
    then have "x = k \<or> x \<in> fst ` set (lab_merge ((l, c) # first) second)" using "3.prems" by auto
    then show ?thesis using "3.IH"(1) [OF 2] by (metis insert_iff list.simps(15) image_insert fst_conv)
  next
    case 3
    then have "x = l \<or> x \<in> fst ` set (lab_merge first ((k, d) # second))" using "3.prems" by auto
    then show ?thesis using "3.IH"(2) [OF 3(1) _ 3(2)] 3 by (metis insert_iff list.simps(15) image_insert fst_conv less_asym)
  next
    case 4
    then have "x = l \<or> x \<in> fst ` set (lab_merge first second)" using "3.prems" by auto
    then show ?thesis using "3.IH"(3) [OF 4(1)] 4 by (metis insert_iff list.simps(15) image_insert fst_conv less_irrefl)
  qed
qed

lemma wildcard_not_merged:
  "labels_ok first \<Longrightarrow> labels_ok second \<Longrightarrow> kWildcard \<notin> fst ` set (lab_merge first second)"
proof (induction first second rule: lab_merge.induct)
  case (2 l c first)
  then show ?case by (auto simp del: image_iff)
next
  case (3 l c first k d second)
  consider "l = kWildcard" | "l \<noteq> kWildcard" "k < l" | "l \<noteq> kWildcard" "l < k" | "l \<noteq> kWildcard" "l = k" by linarith
  then show ?case
  proof cases
    case 1
    then show ?thesis by auto
  next
    case 2
    then have "k \<noteq> kWildcard" using "3.prems"(1) by auto
    then show ?thesis using "3.IH"(1) [OF 2] "3.prems" 2 by (simp add: image_iff)
  next
    case 3
    then show ?thesis using "3.IH"(2) [OF 3(1) _ 3(2)] "3.prems" by (simp add: image_iff)
  next
    case 4
    then show ?thesis using "3.IH"(3) [OF 4(1)] "3.prems" by (simp add: image_iff)
  qed
qed auto

lemma labels_ok_filter: "labels_ok ls \<Longrightarrow> labels_ok (filter P ls)"
  by (auto simp: labels_ok_def list_all_iff sorted_wrt_map sorted_wrt_filter)

lemma labels_ok_merge:
  "labels_ok first \<Longrightarrow> labels_ok second \<Longrightarrow> labels_ok (lab_merge first second)"
proof (induction first second rule: lab_merge.induct)
  case (1 second)
  then show ?case by (simp add: labels_ok_filter)
next
  case (2 l c first)
  have "l < x" if "x \<in> fst ` set (lab_merge first [])" for x using keys_lab_merge [OF that] 2 by fastforce
  then show ?case using 2 by simp
next
  case (3 l c first k d second)
  note s = keys_lab_merge
  show ?case
  proof (cases "l = kWildcard")
    case True
    then show ?thesis using 3 by (simp add: labels_ok_filter)
  next
    case False
    consider "k < l" | "l < k" | "l = k" by linarith
    then show ?thesis
    proof cases
      case 1
      have "k < x" if "x \<in> fst ` set (lab_merge ((l, c) # first) second)" for x
        using s [OF that] 1 "3.prems" by fastforce
      then show ?thesis using False 1 3 by simp
    next
      case 2
      have "l < x" if "x \<in> fst ` set (lab_merge first ((k, d) # second))" for x
        using s [OF that] 2 "3.prems" by fastforce
      then show ?thesis using False 2 3 by simp
    next
      case 3
      have "l < x" if "x \<in> fst ` set (lab_merge first second)" for x
        using s [OF that] 3 "3.prems" by fastforce
      then show ?thesis using False 3 "3.IH" "3.prems" by simp
    qed
  qed
qed

lemma copies_filter: "l < kWildcard \<Longrightarrow> copies (filter (\<lambda>e. fst e \<noteq> kWildcard) ls) l = copies ls l"
  by (induction ls) auto

lemma copies_below: "labels_ok ((k, d) # ls) \<Longrightarrow> l < k \<Longrightarrow> copies ls l = 0"
  by (rule copies_notin) auto

lemma copies_merge:
  assumes "labels_ok first" "labels_ok second" "x < kWildcard"
  shows "copies (lab_merge first second) x = max (copies first x) (copies second x)"
  using assms
proof (induction first second rule: lab_merge.induct)
  case (1 second)
  then show ?case by (simp add: copies_filter)
next
  case (2 l c first)
  then show ?case using wildcard_last [of c first] by (cases "l = kWildcard") auto
next
  case (3 l c first k d second)
  show ?case
  proof (cases "l = kWildcard")
    case True
    then have "first = []" using "3.prems"(1) wildcard_last by blast
    then show ?thesis using True "3.prems" by (simp add: copies_filter)
  next
    case False
    have n: "x \<le> l \<Longrightarrow> copies first x = 0" "x \<le> k \<Longrightarrow> copies second x = 0"
      using "3.prems" by (auto intro!: copies_notin)
    show ?thesis using False 3 n by auto
  qed
qed

lemma countLabels_lab_set: "l \<notin> fst ` set ls \<Longrightarrow> countLabels (lab_set l c ls) = c + countLabels ls"
  by (induction l c ls rule: lab_set.induct) auto

lemma countLabels_merge_le: "countLabels (lab_merge first second) \<le> countLabels first + countLabels second"
proof -
  have f: "countLabels (filter P ls) \<le> countLabels ls" for P ls by (induction ls rule: countLabels.induct) auto
  show ?thesis
  proof (induction first second rule: lab_merge.induct)
    case (3 l c first k d second)
    then show ?case using f [of _ second] by (auto simp: max_def intro: le_SucI trans_le_add2)
  qed (auto simp: f)
qed

text \<open>The union of two sets of labels: the larger of the two numbers for every label, and wildcards up to
  the larger of the two totals.\<close>

lemma makeLabelsUnion_eq:
  assumes "labels_ok first"
  shows "makeLabelsUnion first second =
    (let m = lab_merge first second; w = int (max (countLabels first) (countLabels second)) - int (countLabels m)
     in if w > 0 then lab_set kWildcard (nat w) m else m)"
proof -
  let ?u = "\<lparr>result = [], first_sum = 0, second_sum = 0, merged_sum = 0\<rparr>"
  obtain r u where u: "union_loop first second ?u = (r, u)" by fastforce
  have "union_rest r u = \<lparr>result = lab_merge first second, first_sum = countLabels first,
      second_sum = countLabels second, merged_sum = countLabels (lab_merge first second)\<rparr>"
    using union_loop_eq [OF assms, of second ?u] u by simp
  then show ?thesis by (simp add: makeLabelsUnion_def u Let_def)
qed

lemma union_spec:
  assumes "labels_ok first" "labels_ok second"
  shows "labels_ok (makeLabelsUnion first second)"
    and "l < kWildcard \<Longrightarrow> copies (makeLabelsUnion first second) l = max (copies first l) (copies second l)"
    and "countLabels (makeLabelsUnion first second) =
      max (max (countLabels first) (countLabels second)) (countLabels (lab_merge first second))"
  using labels_ok_merge [OF assms] copies_merge [OF assms] wildcard_not_merged [OF assms]
  by (auto simp: makeLabelsUnion_eq [OF assms(1)] Let_def labels_ok_lab_set copies_lab_set countLabels_lab_set)

lemma countLabels_union_le:
  assumes "labels_ok first" "labels_ok second"
  shows "countLabels (makeLabelsUnion first second) \<le> countLabels first + countLabels second"
  using countLabels_merge_le [of first second] by (simp add: union_spec [OF assms])

lemma countLabels_below:
  assumes "labels_ok ls"
  shows "countLabels ls = (\<Sum>l<kWildcard. copies ls l) + copies ls kWildcard"
  using countLabels_sum [OF assms] by (simp add: lessThan_Suc_atMost [symmetric])

text \<open>Copies meet the union exactly when they meet both.\<close>

lemma meets_union:
  assumes "labels_ok first" "labels_ok second" "labels_ok D"
  shows "meets D (makeLabelsUnion first second) \<longleftrightarrow> meets D first \<and> meets D second"
proof
  assume "meets D (makeLabelsUnion first second)"
  then show "meets D first \<and> meets D second" using assms by (auto simp: meets_def union_spec)
next
  assume m: "meets D first \<and> meets D second"
  have "countLabels (lab_merge first second) = (\<Sum>l<kWildcard. copies (lab_merge first second) l)"
    using countLabels_below [OF labels_ok_merge [OF assms(1,2)]] wildcard_not_merged [OF assms(1,2)] by (simp add: copies_notin)
  also have "\<dots> \<le> (\<Sum>l<kWildcard. copies D l)"
    using m by (intro sum_mono) (auto simp: copies_merge [OF assms(1,2)] meets_def)
  also have "\<dots> \<le> countLabels D" using countLabels_below [OF assms(3)] by simp
  finally show "meets D (makeLabelsUnion first second)" using m by (auto simp: meets_def union_spec [OF assms(1,2)])
qed

lemma labelsDistance_bound: "labelsDistance a b \<le> int (countLabels a) + int (countLabels b)" "0 \<le> labelsDistance a b"
  by (induction a b rule: labelsDistance.induct) auto

text \<open>The distance is the sum of the absolute differences.\<close>

lemma labelsDistance_sum:
  assumes "labels_ok a" "labels_ok b"
  shows "labelsDistance a b = (\<Sum>l\<le>kWildcard. \<bar>int (copies a l) - int (copies b l)\<bar>)"
  using assms
proof (induction a b rule: labelsDistance.induct)
  case (1 b)
  then show ?case using countLabels_sum [of b] by simp
next
  case (2 l c a)
  have "\<bar>int (copies ((l, c) # a) k) - int (copies [] k)\<bar> = \<bar>int (copies a k) - int (copies [] k)\<bar> + (if k = l then int c else 0)" for k
    using "2.prems"(1) copies_notin [of l a] by auto
  then show ?case using 2 by (simp add: sum.distrib)
next
  case (3 l c a k d b)
  consider "k < l" | "l < k" | "l = k" by linarith
  then show ?case
  proof cases
    case 1
    then have z: "copies ((l, c) # a) k = 0" "copies b k = 0" using "3.prems" by (auto intro!: copies_notin)
    have "\<bar>int (copies ((l, c) # a) x) - int (copies ((k, d) # b) x)\<bar>
        = \<bar>int (copies ((l, c) # a) x) - int (copies b x)\<bar> + (if x = k then int d else 0)" for x
      using z by auto
    then show ?thesis using 1 3 by (simp add: sum.distrib del: copies_Cons)
  next
    case 2
    then have z: "copies ((k, d) # b) l = 0" "copies a l = 0" using "3.prems" by (auto intro!: copies_notin)
    have "\<bar>int (copies ((l, c) # a) x) - int (copies ((k, d) # b) x)\<bar>
        = \<bar>int (copies a x) - int (copies ((k, d) # b) x)\<bar> + (if x = l then int c else 0)" for x
      using z by auto
    then show ?thesis using 2 3 by (simp add: sum.distrib del: copies_Cons)
  next
    case 3
    then have z: "copies a l = 0" "copies b l = 0" using "3.prems" by (auto intro!: copies_notin)
    have "\<bar>int (copies ((l, c) # a) x) - int (copies ((k, d) # b) x)\<bar>
        = \<bar>int (copies a x) - int (copies b x)\<bar> + (if x = l then \<bar>int c - int d\<bar> else 0)" for x
      using z 3 by auto
    then show ?thesis using 3 "3.IH" "3.prems" by (simp add: sum.distrib del: copies_Cons)
  qed
qed

section \<open>Merging slices\<close>

definition slice_ok :: "slice \<Rightarrow> bool" where
  "slice_ok s \<longleftrightarrow> type_valid (slice_type s) \<and> length (parts s) = slice_size s \<and> list_all labels_ok (parts s)"

text \<open>The goals in use ask for at most \<^const>\<open>kMaxExpectedCopies\<close> copies; the optimizer is correct for
  parts with up to 400.\<close>

definition slice_small :: "slice \<Rightarrow> bool" where
  "slice_small s \<longleftrightarrow> list_all (\<lambda>p. countLabels p \<le> 400) (parts s)"

lemma slice_okD:
  assumes "slice_ok s"
  shows "1 \<le> slice_size s" "slice_size s \<le> 64" "length (parts s) = slice_size s"
    "i < slice_size s \<Longrightarrow> labels_ok (parts s ! i)"
  using assms data_parts_bounds [of "slice_type s"] expectedParts_split [of "slice_type s"]
  by (auto simp: slice_ok_def slice_size_def list_all_length)

lemma merge_cost_input:
  assumes "slice_ok s" "slice_ok other" "slice_type s = slice_type other" "slice_small s" "slice_small other"
  shows "optimizer_input (merge_cost s other) (slice_size s)"
proof -
  have n: "length (parts s) = slice_size s" "length (parts other) = slice_size s" "slice_size s \<le> 64"
    using slice_okD [OF assms(1)] slice_okD [OF assms(2)] assms(3) by (simp_all add: slice_size_def)
  have b: "0 \<le> x \<and> x \<le> 1280" if x: "row \<in> set (merge_cost s other)" "x \<in> set row" for row x
  proof -
    obtain p q where pq: "p \<in> set (parts s)" "q \<in> set (parts other)" "x = 1280 - labelsDistance p (makeLabelsUnion p q)"
      using x unfolding merge_cost_def kMaxExpectedCopies_def by force
    have ok: "labels_ok p" "labels_ok q" "countLabels p \<le> 400" "countLabels q \<le> 400"
      using assms pq by (auto simp: slice_ok_def slice_small_def list_all_iff)
    show ?thesis
      using labelsDistance_bound [of p "makeLabelsUnion p q"] countLabels_union_le [OF ok(1,2)] ok(3,4) pq(3) by linarith
  qed
  have m: "x * (int (slice_size s) + 1) \<le> 1280 * 65" if "x \<le> 1280" for x
    using that n(3) by (intro mult_mono) auto
  have "0 \<le> x \<and> x * (int (slice_size s) + 1) \<le> 110000000 \<and> (\<forall>y\<in>set row. (x - y) * (int (slice_size s) + 1) \<le> 40000000)"
    if "row \<in> set (merge_cost s other)" "x \<in> set row" for row x
  proof (intro conjI ballI)
    show "0 \<le> x" using b [OF that] by simp
    show "x * (int (slice_size s) + 1) \<le> 110000000" using b [OF that] m [of x] by simp
    show "(x - y) * (int (slice_size s) + 1) \<le> 40000000" if "y \<in> set row" for y
      using b [OF \<open>row \<in> _\<close> \<open>x \<in> _\<close>] b [OF \<open>row \<in> _\<close> that] m [of "x - y"] by simp
  qed
  moreover have "length (merge_cost s other) = slice_size s" "\<forall>row\<in>set (merge_cost s other). length row = slice_size s"
    using n by (auto simp: merge_cost_def)
  ultimately show ?thesis by (simp add: optimizer_input_def)
qed

text \<open>
  C12: Merging a slice into another of the same type returns, if no part asks for more than 400 copies
  (goals are limited to 128). The parts of the result are unions of the
  parts of one slice with the parts of the other, paired one to one: copies on servers meet a part
  of the result exactly when they meet both parts it comes from. Of all pairings, the one chosen
  has the least total distance between the parts of the slice and their unions.
\<close>

theorem merge_meets_both:
  assumes "slice_ok s" "slice_ok other" "slice_type s = slice_type other" "slice_small s" "slice_small other"
  shows "\<exists>res f. slice_mergeIn s other = Some res \<and> slice_type res = slice_type s \<and> slice_ok res
    \<and> bij_betw f {..< slice_size s} {..< slice_size s}
    \<and> (\<forall>i< slice_size s. \<forall>D. labels_ok D \<longrightarrow>
        (meets D (parts res ! i) \<longleftrightarrow> meets D (parts s ! i) \<and> meets D (parts other ! f i)))
    \<and> (\<forall>g. bij_betw g {..< slice_size s} {..< slice_size s} \<longrightarrow>
        (\<Sum>i< slice_size s. labelsDistance (parts s ! i) (parts res ! i))
          \<le> (\<Sum>i< slice_size s. labelsDistance (parts s ! i) (makeLabelsUnion (parts s ! i) (parts other ! g i))))"
proof -
  let ?n = "slice_size s"
  note s = slice_okD [OF assms(1)] and o = slice_okD [OF assms(2)]
  have size: "slice_size other = ?n" using assms(3) by (simp add: slice_size_def)
  have cost: "merge_cost s other ! i ! j = 1280 - labelsDistance (parts s ! i) (makeLabelsUnion (parts s ! i) (parts other ! j))"
    if "i < ?n" "j < ?n" for i j
    using that s(3) o(3) size by (simp add: merge_cost_def kMaxExpectedCopies_def)
  obtain asg where asg: "solve_assignment (Some 0) (merge_cost s other) ?n = Some asg"
    and f: "bij_betw (\<lambda>i. the (asg ! i)) {..<?n} {..<?n}"
    and least: "\<And>g. bij_betw g {..<?n} {..<?n} \<Longrightarrow>
      (\<Sum>i<?n. labelsDistance (parts s ! i) (makeLabelsUnion (parts s ! i) (parts other ! the (asg ! i))))
        \<le> (\<Sum>i<?n. labelsDistance (parts s ! i) (makeLabelsUnion (parts s ! i) (parts other ! g i)))"
    using auctioneer.least_cost [OF merge_cost_input [OF assms] s(1,2) cost] by blast
  define f where "f = (\<lambda>i. the (asg ! i))"
  have f: "bij_betw f {..<?n} {..<?n}" using f by (simp add: f_def)
  then have fi: "i < ?n \<Longrightarrow> f i < ?n" for i using bij_betwE by blast
  define res where "res = s\<lparr>parts := map (\<lambda>i. makeLabelsUnion (parts s ! i) (parts other ! f i)) [0..<length (parts s)]\<rparr>"
  have r: "parts res ! i = makeLabelsUnion (parts s ! i) (parts other ! f i)" if "i < ?n" for i
    using that s(3) by (simp add: res_def)
  have ok: "labels_ok (parts s ! i)" "labels_ok (parts other ! f i)" if "i < ?n" for i
    using that s(4) o(4) fi size by auto
  have "slice_mergeIn s other = Some res" using asg assms(3) size by (simp add: slice_mergeIn_def res_def f_def)
  moreover have "slice_ok res"
    using assms(1) s(3) r ok union_spec(1) by (auto simp: slice_ok_def list_all_length res_def slice_size_def)
  moreover have "(\<Sum>i<?n. labelsDistance (parts s ! i) (parts res ! i))
      \<le> (\<Sum>i<?n. labelsDistance (parts s ! i) (makeLabelsUnion (parts s ! i) (parts other ! g i)))"
    if "bij_betw g {..<?n} {..<?n}" for g
    using least [OF that] r by (simp add: f_def)
  ultimately show ?thesis
    using f r meets_union ok by (intro exI [of _ res] exI [of _ f]) (auto simp: res_def)
qed

text \<open>Two slices of type \<^verbatim>\<open>xor2\<close>: the first asks for parts on any server, on label 1 and on label 2, the
  second for parts on label 3, on any server and on label 2.\<close>

definition xor2_first :: slice where
  "xor2_first = \<lparr>slice_type = 2, parts = [[(kWildcard, 1)], [(1, 1)], [(2, 1)]]\<rparr>"

definition xor2_second :: slice where
  "xor2_second = \<lparr>slice_type = 2, parts = [[(3, 1)], [(kWildcard, 1)], [(2, 1)]]\<rparr>"

lemma xor2_ok:
  "slice_ok xor2_first" "slice_ok xor2_second" "slice_small xor2_first" "slice_small xor2_second" "slice_size xor2_first = 3"
  by (simp_all add: xor2_first_def xor2_second_def slice_ok_def slice_small_def slice_size_def type_valid_def type_consts
      expectedParts_def kTypeParts_def kWildcard_def)

lemma xor2_cost: "merge_cost xor2_first xor2_second = [[1278, 1280, 1278], [1279, 1280, 1279], [1279, 1280, 1280]]"
  by (simp add: merge_cost_def xor2_first_def xor2_second_def kMaxExpectedCopies_def makeLabelsUnion_def kWildcard_def
      take_first_def take_second_def take_both_def)

lemma xor2_assignment:
  "solve_assignment (Some 0) [[1278, 1280, 1278], [1279, 1280, 1279], [1279, 1280, 1280]] 3
   = Some ([Some 1, Some 0, Some 2] @ replicate 61 (Some 0))"
  by code_simp

lemma xor2_merge:
  "slice_mergeIn xor2_first xor2_second =
     Some \<lparr>slice_type = 2, parts = [[(kWildcard, 1)], [(1, 1), (3, 1)], [(2, 1)]]\<rparr>"
proof -
  have t: "slice_type xor2_first = slice_type xor2_second" by (simp add: xor2_first_def xor2_second_def)
  then have "slice_size xor2_second = 3" using xor2_ok(5) by (simp add: slice_size_def)
  then show ?thesis
    by (simp add: slice_mergeIn_def xor2_cost xor2_assignment xor2_ok(5) t)
      (simp add: xor2_first_def xor2_second_def makeLabelsUnion_def kWildcard_def take_first_def take_second_def take_both_def)
qed

theorem merge_meets_both_witness:
  "slice_ok xor2_first \<and> slice_ok xor2_second \<and> slice_small xor2_first \<and> slice_small xor2_second
    \<and> (\<exists>res f. slice_mergeIn xor2_first xor2_second = Some res \<and> slice_ok res
      \<and> bij_betw f {..< slice_size xor2_first} {..< slice_size xor2_first})"
proof -
  have "slice_type xor2_first = slice_type xor2_second" by (simp add: xor2_first_def xor2_second_def)
  then show ?thesis using merge_meets_both [OF xor2_ok(1,2) _ xor2_ok(3,4)] xor2_ok by blast
qed

text \<open>The pairing has the least distance, but not the fewest copies: the merged slice asks for four copies
  although three would do, because replacing a wildcard by a label counts as two changes.\<close>

lemma merge_not_minimal:
  "map_option slice_copies (slice_mergeIn xor2_first xor2_second) = Some 4"
  "sum_list (map2 (\<lambda>p q. countLabels (makeLabelsUnion p q)) (parts xor2_first)
     [parts xor2_second ! 0, parts xor2_second ! 1, parts xor2_second ! 2]) = 3"
  by (simp add: xor2_merge slice_copies_def)
    (simp add: xor2_first_def xor2_second_def makeLabelsUnion_def kWildcard_def take_first_def take_second_def take_both_def)

text \<open>Slices whose labels are divided differently between the parts are equal for the comparison operator.\<close>

lemma slice_eq_ignores_parts:
  defines "s \<equiv> \<lparr>slice_type = 2, parts = [[(1, 1), (2, 1)], [(3, 1)], [(4, 1)]]\<rparr>"
    and "t \<equiv> \<lparr>slice_type = 2, parts = [[(1, 1)], [(2, 1), (3, 1)], [(4, 1)]]\<rparr>"
  shows "slice_valid s \<and> slice_valid t \<and> slice_eq s t \<and> parts s \<noteq> parts t"
  by (simp add: s_def t_def slice_valid_def slice_eq_def type_valid_def type_consts)

end
