(* ===== verification/CopiesCalculator.thy ===== *)
theory CopiesCalculator
  imports Goals
begin

text \<open>
  The chunk copies calculator of \<^verbatim>\<open>src/src/common/chunk_copies_calculator.cc\<close>: how many copies of which parts
  of a chunk have to be made or deleted to reach its goal, how many parts can be lost, and which
  parts may be deleted. A failing assertion is the result \<^const>\<open>None\<close>. The copies of a part are 16-bit
  numbers in the tables and \<^verbatim>\<open>int\<close> in the computations.
\<close>

section \<open>The state\<close>

datatype availability_state = kSafe | kEndangered | kLost

record calculator =
  available :: "slice list"
  target :: "slice list"
  target_redundancy_level :: int
  redundancy_level :: int
  slice_redundancy_level :: "(nat \<times> int) list"
  slice_operation_count :: "(nat \<times> (nat \<times> nat) list) list"
  operation_count :: "nat \<times> nat"

definition new_calculator :: "slice list \<Rightarrow> calculator" where
  "new_calculator t = \<lparr>available = [], target = t, target_redundancy_level = int_lowest, redundancy_level = int_lowest,
     slice_redundancy_level = [], slice_operation_count = [], operation_count = (0, 0)\<rparr>"

definition setTarget :: "slice list \<Rightarrow> calculator \<Rightarrow> calculator" where
  "setTarget t c = c\<lparr>target := t, target_redundancy_level := int_lowest\<rparr>"

text \<open>Access to a slice creates it if it is missing.\<close>

definition slice_at :: "slice list \<Rightarrow> nat \<Rightarrow> slice" where
  "slice_at ss t = (case find_slice ss t of None \<Rightarrow> new_slice t | Some s \<Rightarrow> s)"

definition addPart :: "nat \<Rightarrow> nat \<Rightarrow> nat \<Rightarrow> calculator \<Rightarrow> calculator option" where
  "addPart t part label c =
     (let s = slice_at (available c) t
      in if part < slice_size s
         then Some (c\<lparr>available := put_slice (s\<lparr>parts := (parts s)[part :=
                lab_set label ((copies (parts s ! part) label + 1) mod 2 ^ 16) (parts s ! part)]\<rparr>) (available c)\<rparr>)
         else None)"

text \<open>One copy less of a label; the last one is erased.\<close>

definition drop_label :: "nat \<Rightarrow> labels \<Rightarrow> labels" where
  "drop_label label ls =
     (case lab_find ls label of
        None \<Rightarrow> ls
      | Some n \<Rightarrow> (let n' = (n + 65535) mod 2 ^ 16 in if n' \<le> 0 then lab_erase label ls else lab_set label n' ls))"

definition removePart :: "nat \<Rightarrow> nat \<Rightarrow> nat \<Rightarrow> calculator \<Rightarrow> calculator option" where
  "removePart t part label c =
     (case find_slice (available c) t of
        None \<Rightarrow> Some c
      | Some s \<Rightarrow>
          if part < slice_size s
          then Some (c\<lparr>available := put_slice (s\<lparr>parts := (parts s)[part := drop_label label (parts s ! part)]\<rparr>) (available c)\<rparr>)
          else None)"

section \<open>Operations to reach the target\<close>

text \<open>The rest of the available copies goes to wildcards, and what remains is removed.\<close>

fun op_rest :: "labels \<Rightarrow> nat \<Rightarrow> nat \<times> nat \<Rightarrow> nat \<times> nat" where
  "op_rest [] wcount (recover, remove) = (recover + wcount, remove)"
| "op_rest ((k, n) # src) wcount (recover, remove) =
     op_rest src (wcount - min wcount n) (recover, remove + (n - min wcount n))"

fun op_loop :: "labels \<Rightarrow> labels \<Rightarrow> nat \<Rightarrow> nat \<times> nat \<Rightarrow> nat \<times> nat" where
  "op_loop src [] wcount r = op_rest src wcount r"
| "op_loop [] ((l, d) # dst) wcount (recover, remove) =
     (if l = kWildcard then op_rest [] wcount (recover, remove) else op_loop [] dst wcount (recover + d, remove))"
| "op_loop ((k, n) # src) ((l, d) # dst) wcount (recover, remove) =
     (if l = kWildcard then op_rest ((k, n) # src) wcount (recover, remove)
      else if k < l then op_loop src ((l, d) # dst) (wcount - min wcount n) (recover, remove + (n - min wcount n))
      else if k = l then
        (if d < n then op_loop src dst (wcount - min wcount (n - d)) (recover, remove + (n - d - min wcount (n - d)))
         else op_loop src dst wcount (recover + (d - n), remove))
      else op_loop ((k, n) # src) dst wcount (recover + d, remove))"

definition operationCount :: "labels \<Rightarrow> labels \<Rightarrow> nat \<times> nat" where
  "operationCount src dst = op_loop src dst (case lab_find dst kWildcard of None \<Rightarrow> 0 | Some w \<Rightarrow> w) (0, 0)"

definition target_counts :: "slice list \<Rightarrow> slice \<Rightarrow> (nat \<times> nat) list" where
  "target_counts avail s =
     (case find_slice avail (slice_type s) of
        None \<Rightarrow> map (\<lambda>p. (countLabels p, 0)) (parts s)
      | Some src \<Rightarrow> map2 operationCount (parts src) (parts s))"

definition add_counts :: "nat \<times> nat \<Rightarrow> (nat \<times> nat) list \<Rightarrow> nat \<times> nat" where
  "add_counts = foldl (\<lambda>(a, b) (x, y). (a + x, b + y))"

fun count_targets :: "slice list \<Rightarrow> slice list \<Rightarrow> calculator \<Rightarrow> calculator" where
  "count_targets avail [] c = c"
| "count_targets avail (s # ss) c =
     (let ops = target_counts avail s
      in count_targets avail ss (c\<lparr>slice_operation_count := lab_set (slice_type s) ops (slice_operation_count c),
           operation_count := add_counts (operation_count c) ops\<rparr>))"

fun count_surplus :: "slice list \<Rightarrow> slice list \<Rightarrow> calculator \<Rightarrow> calculator" where
  "count_surplus tgt [] c = c"
| "count_surplus tgt (s # ss) c =
     (if find_slice tgt (slice_type s) = None
      then let ops = map (\<lambda>p. (0, countLabels p)) (parts s)
           in count_surplus tgt ss (c\<lparr>slice_operation_count := lab_set (slice_type s) ops (slice_operation_count c),
                operation_count := add_counts (operation_count c) ops\<rparr>)
      else count_surplus tgt ss c)"

definition evalOperationCount :: "calculator \<Rightarrow> calculator" where
  "evalOperationCount c =
     count_surplus (target c) (available c)
       (count_targets (available c) (target c) (c\<lparr>operation_count := (0, 0), slice_operation_count := []\<rparr>))"

definition countPartsToMove :: "nat \<Rightarrow> nat \<Rightarrow> calculator \<Rightarrow> (nat \<times> nat) option" where
  "countPartsToMove t part c =
     (if part < expectedParts t
      then case lab_find (slice_operation_count c) t of None \<Rightarrow> Some (0, 0) | Some ops \<Rightarrow> Some (ops ! part)
      else None)"

text \<open>The labels to recover: the same walk, which collects the labels that miss copies.\<close>

fun recover_rest :: "labels \<Rightarrow> nat \<Rightarrow> labels \<Rightarrow> labels" where
  "recover_rest [] wcount res = (if wcount > 0 then lab_set kWildcard wcount res else res)"
| "recover_rest ((k, n) # avail) wcount res = recover_rest avail (wcount - min wcount n) res"

fun recover_loop :: "labels \<Rightarrow> labels \<Rightarrow> nat \<Rightarrow> labels \<Rightarrow> labels option" where
  "recover_loop avail [] wcount res = Some (recover_rest avail wcount res)"
| "recover_loop [] ((l, d) # tgt) wcount res =
     (if l = kWildcard then Some (recover_rest [] wcount res)
      else if d > 0 then recover_loop [] tgt wcount (lab_set l d res) else None)"
| "recover_loop ((k, n) # avail) ((l, d) # tgt) wcount res =
     (if l = kWildcard then Some (recover_rest ((k, n) # avail) wcount res)
      else if k < l then recover_loop avail ((l, d) # tgt) (wcount - min wcount n) res
      else if k = l then
        recover_loop avail tgt (if d < n then wcount - min wcount (n - d) else wcount)
          (if d > n then lab_set l (d - n) res else res)
      else if d > 0 then recover_loop ((k, n) # avail) tgt wcount (lab_set l d res) else None)"

definition getLabelsToRecover :: "nat \<Rightarrow> nat \<Rightarrow> calculator \<Rightarrow> labels option" where
  "getLabelsToRecover t part c =
     (if part < expectedParts t
      then case find_slice (target c) t of
             None \<Rightarrow> Some []
           | Some tgt \<Rightarrow>
               (case find_slice (available c) t of
                  None \<Rightarrow> Some (parts tgt ! part)
                | Some avail \<Rightarrow>
                    recover_loop (parts avail ! part) (parts tgt ! part)
                      (case lab_find (parts tgt ! part) kWildcard of None \<Rightarrow> 0 | Some w \<Rightarrow> w) [])
      else None)"

text \<open>The labels from which one copy may be removed.\<close>

fun pool_rest :: "labels \<Rightarrow> nat \<Rightarrow> nat \<Rightarrow> labels \<Rightarrow> labels option" where
  "pool_rest [] wcount wtarget res = Some (if wcount \<le> wtarget then [] else res)"
| "pool_rest ((k, n) # avail) wcount wtarget res =
     (if n > 0 then pool_rest avail (wcount + n) wtarget (lab_set k 1 res) else None)"

fun pool_loop :: "labels \<Rightarrow> labels \<Rightarrow> nat \<Rightarrow> labels \<Rightarrow> labels option" where
  "pool_loop avail [] wcount res = pool_rest avail wcount 0 res"
| "pool_loop [] ((l, d) # tgt) wcount res =
     (if l = kWildcard then pool_rest [] wcount d res else pool_loop [] tgt wcount res)"
| "pool_loop ((k, n) # avail) ((l, d) # tgt) wcount res =
     (if l = kWildcard then pool_rest ((k, n) # avail) wcount d res
      else if k < l then (if n > 0 then pool_loop avail ((l, d) # tgt) (wcount + n) (lab_set k 1 res) else None)
      else if k = l then
        (if d < n then pool_loop avail tgt (wcount + (n - d)) (lab_set l 1 res) else pool_loop avail tgt wcount res)
      else pool_loop ((k, n) # avail) tgt wcount res)"

definition getRemovePool :: "nat \<Rightarrow> nat \<Rightarrow> calculator \<Rightarrow> labels option" where
  "getRemovePool t part c =
     (if part < expectedParts t
      then case find_slice (available c) t of
             None \<Rightarrow> Some []
           | Some avail \<Rightarrow>
               (case find_slice (target c) t of
                  None \<Rightarrow> Some (parts avail ! part)
                | Some tgt \<Rightarrow> pool_loop (parts avail ! part) (parts tgt ! part) 0 [])
      else None)"

section \<open>Redundancy\<close>

definition evalSliceRedundancyLevel :: "slice \<Rightarrow> int" where
  "evalSliceRedundancyLevel s =
     (let counts = map countLabels (parts s);
          type_count = length (filter (\<lambda>n. n > 0) counts)
      in if isStandard (slice_type s) then int (sum_list counts) - 1
         else if isXor (slice_type s) \<or> isEC (slice_type s) then int type_count - int (getNumberOfDataParts (slice_type s))
         else - 1)"

definition goal_redundancy :: "slice list \<Rightarrow> int" where
  "goal_redundancy ss = foldl (\<lambda>n s. n + max (evalSliceRedundancyLevel s + 1) 0) 0 ss - 1"

definition evalRedundancyLevel :: "calculator \<Rightarrow> calculator" where
  "evalRedundancyLevel c =
     c\<lparr>redundancy_level := goal_redundancy (available c),
       slice_redundancy_level := foldl (\<lambda>tab s. lab_set (slice_type s) (evalSliceRedundancyLevel s) tab)
         (slice_redundancy_level c) (available c)\<rparr>"

definition isSafeEnoughToWrite :: "int \<Rightarrow> calculator \<Rightarrow> bool \<times> calculator" where
  "isSafeEnoughToWrite min_redundant c =
     (let c = (if target_redundancy_level c = int_lowest then c\<lparr>target_redundancy_level := goal_redundancy (target c)\<rparr> else c);
          c = (if redundancy_level c = int_lowest then evalRedundancyLevel c else c)
      in (redundancy_level c \<ge> min (target_redundancy_level c) min_redundant, c))"

definition updateRedundancyLevel :: "nat \<Rightarrow> calculator \<Rightarrow> calculator" where
  "updateRedundancyLevel t c =
     (case find_slice (available c) t of
        None \<Rightarrow> c
      | Some s \<Rightarrow>
          let old = (case lab_find (slice_redundancy_level c) t of None \<Rightarrow> 0 | Some r \<Rightarrow> r);
              new = evalSliceRedundancyLevel s
          in c\<lparr>slice_redundancy_level := lab_set t new (slice_redundancy_level c),
               redundancy_level := redundancy_level c + (max new (- 1) - max old (- 1))\<rparr>)"

definition getState :: "calculator \<Rightarrow> availability_state" where
  "getState c =
     (if target c = [] \<or> redundancy_level c > 0 then kSafe
      else if redundancy_level c = 0 then kEndangered else kLost)"

definition isRecoveryPossible :: "calculator \<Rightarrow> bool" where
  "isRecoveryPossible c \<longleftrightarrow> getState c \<noteq> kLost"

section \<open>Removing and moving parts\<close>

definition slice_state :: "int \<Rightarrow> availability_state" where
  "slice_state n = (if n > 0 then kSafe else if n = 0 then kEndangered else kLost)"

text \<open>The basic test decides, or leaves the decision to further tests.\<close>

definition state_count :: "availability_state \<Rightarrow> calculator \<Rightarrow> nat" where
  "state_count st c = length (filter (\<lambda>e. slice_state (snd e) = st) (slice_redundancy_level c))"

definition removePartBasicTest :: "nat \<Rightarrow> calculator \<Rightarrow> bool option option" where
  "removePartBasicTest t c =
     (if target c = [] then Some (Some True)
      else if redundancy_level c < 1 \<or> find_slice (available c) t = None then Some (Some False)
      else if 2 * state_count kSafe c + state_count kEndangered c > 2 then Some (Some True)
      else case lab_find (slice_redundancy_level c) t of
             None \<Rightarrow> None
           | Some n \<Rightarrow>
               if n < 0 then Some (Some True)
               else if state_count kSafe c \<noteq> 1 then Some (Some False)
               else Some None)"

text \<open>The copy of a slice with one copy less; an entry that reaches zero stays in the map.\<close>

definition without_copy :: "nat \<Rightarrow> nat \<Rightarrow> slice \<Rightarrow> slice" where
  "without_copy part label s =
     s\<lparr>parts := (parts s)[part :=
        (case lab_find (parts s ! part) label of
           None \<Rightarrow> parts s ! part
         | Some n \<Rightarrow> lab_set label ((n + 65535) mod 2 ^ 16) (parts s ! part))]\<rparr>"

definition canRemovePart :: "nat \<Rightarrow> nat \<Rightarrow> nat \<Rightarrow> calculator \<Rightarrow> bool option" where
  "canRemovePart t part label c =
     (case removePartBasicTest t c of
        None \<Rightarrow> None
      | Some (Some b) \<Rightarrow> Some b
      | Some None \<Rightarrow>
          if part < expectedParts t
          then let s = without_copy part label (slice_at (available c) t)
               in if (case find_slice (target c) t of None \<Rightarrow> False | Some tgt \<Rightarrow> slice_copies tgt = 1 \<and> slice_copies s \<ge> 1)
                  then Some True
                  else Some (evalSliceRedundancyLevel s > 0)
          else None)"

definition canMovePartToDifferentLabel :: "nat \<Rightarrow> nat \<Rightarrow> nat \<Rightarrow> calculator \<Rightarrow> bool option" where
  "canMovePartToDifferentLabel t part label c =
     (case (find_slice (available c) t, find_slice (target c) t) of
        (Some avail, Some tgt) \<Rightarrow>
          if part < expectedParts t
          then Some (case lab_find (parts tgt ! part) label of
                       None \<Rightarrow> True
                     | Some d \<Rightarrow> (case lab_find (parts avail ! part) label of None \<Rightarrow> False | Some n \<Rightarrow> int n - int d > 0))
          else None
      | _ \<Rightarrow> Some False)"

text \<open>The lowest and the second lowest number of copies.\<close>

fun lowest_two :: "nat list \<Rightarrow> int \<Rightarrow> int \<Rightarrow> int \<times> int" where
  "lowest_two [] l1 l2 = (l1, l2)"
| "lowest_two (n # ns) l1 l2 = (if int n < l1 then lowest_two ns (int n) l1 else lowest_two ns l1 (min l2 (int n)))"

definition slice_full_copies :: "slice \<Rightarrow> int" where
  "slice_full_copies s =
     (let counts = map countLabels (parts s)
      in if isStandard (slice_type s) then int (slice_copies s)
         else if isXor (slice_type s) then snd (lowest_two counts 2147483647 2147483647)
         else if isEC (slice_type s) then int (rev (sort counts) ! (getNumberOfDataParts (slice_type s) - 1))
         else 0)"

definition getFullCopiesCount :: "slice list \<Rightarrow> int" where
  "getFullCopiesCount ss = foldl (\<lambda>n s. n + slice_full_copies s) 0 ss"

section \<open>The number of operations\<close>

text \<open>Copies that are missing for a label of the target, and copies that no label of the target asks for.\<close>

definition lab_need :: "labels \<Rightarrow> labels \<Rightarrow> nat" where
  "lab_need src dst = (\<Sum>l<kWildcard. copies dst l - copies src l)"

definition lab_extra :: "labels \<Rightarrow> labels \<Rightarrow> nat" where
  "lab_extra src dst = (\<Sum>l<kWildcard. copies src l - copies dst l) + copies src kWildcard"

lemma op_rest_eq: "op_rest src w (a, b) = (a + (w - countLabels src), b + (countLabels src - w))"
  by (induction src w "(a, b)" arbitrary: b rule: op_rest.induct) (auto simp: min_def)

lemma need_extra_Nil:
  "labels_ok src \<Longrightarrow> lab_need src [] = 0" "labels_ok src \<Longrightarrow> lab_extra src [] = countLabels src"
  by (simp_all add: lab_need_def lab_extra_def countLabels_below)

lemma need_extra_wildcard:
  assumes "labels_ok src" "l = kWildcard"
  shows "lab_need src [(l, d)] = 0" "lab_extra src [(l, d)] = countLabels src"
  using assms by (auto simp: lab_need_def lab_extra_def countLabels_below)

text \<open>Sums that differ in one summand.\<close>

lemma sum_change_one:
  fixes f g :: "nat \<Rightarrow> nat"
  assumes "k < n" "\<And>x. x \<noteq> k \<Longrightarrow> f x = g x" "f k = g k + c"
  shows "(\<Sum>x<n. f x) = (\<Sum>x<n. g x) + c"
proof -
  have "f x = g x + (if x = k then c else 0)" for x using assms by (cases "x = k") auto
  then show ?thesis using assms(1) by (simp add: sum.distrib)
qed

lemma drop_src:
  assumes "labels_ok ((k, n) # src)" "labels_ok dst" "k < kWildcard" "\<forall>x\<in>fst ` set dst. k < x"
  shows "lab_need ((k, n) # src) dst = lab_need src dst" "lab_extra ((k, n) # src) dst = lab_extra src dst + n"
proof -
  have z: "copies src k = 0" "copies dst k = 0" using assms by (auto intro!: copies_notin)
  show "lab_need ((k, n) # src) dst = lab_need src dst"
    unfolding lab_need_def using z by (intro sum.cong) auto
  have "(\<Sum>l<kWildcard. copies ((k, n) # src) l - copies dst l) = (\<Sum>l<kWildcard. copies src l - copies dst l) + n"
    by (rule sum_change_one [OF assms(3)]) (use z in auto)
  then show "lab_extra ((k, n) # src) dst = lab_extra src dst + n" using assms(3) by (simp add: lab_extra_def)
qed

lemma drop_dst:
  assumes "labels_ok ((l, d) # dst)" "labels_ok src" "l < kWildcard" "\<forall>x\<in>fst ` set src. l < x"
  shows "lab_need src ((l, d) # dst) = lab_need src dst + d" "lab_extra src ((l, d) # dst) = lab_extra src dst"
proof -
  have z: "copies src l = 0" "copies dst l = 0" using assms by (auto intro!: copies_notin)
  show "lab_need src ((l, d) # dst) = lab_need src dst + d"
    unfolding lab_need_def by (rule sum_change_one [OF assms(3)]) (use z in auto)
  show "lab_extra src ((l, d) # dst) = lab_extra src dst"
    unfolding lab_extra_def using z by (intro arg_cong2 [where f = "(+)"] sum.cong) auto
qed

lemma drop_both:
  assumes "labels_ok ((l, n) # src)" "labels_ok ((l, d) # dst)" "l < kWildcard"
  shows "lab_need ((l, n) # src) ((l, d) # dst) = lab_need src dst + (d - n)"
    "lab_extra ((l, n) # src) ((l, d) # dst) = lab_extra src dst + (n - d)"
proof -
  have z: "copies src l = 0" "copies dst l = 0" using assms by (auto intro!: copies_notin)
  show "lab_need ((l, n) # src) ((l, d) # dst) = lab_need src dst + (d - n)"
    unfolding lab_need_def by (rule sum_change_one [OF assms(3)]) (use z in auto)
  have "(\<Sum>x<kWildcard. copies ((l, n) # src) x - copies ((l, d) # dst) x) = (\<Sum>x<kWildcard. copies src x - copies dst x) + (n - d)"
    by (rule sum_change_one [OF assms(3)]) (use z in auto)
  then show "lab_extra ((l, n) # src) ((l, d) # dst) = lab_extra src dst + (n - d)" using assms(3) by (simp add: lab_extra_def)
qed

lemmas drop_labels = drop_src drop_dst drop_both

lemma op_loop_eq:
  assumes "labels_ok src" "labels_ok dst"
  shows "op_loop src dst w (a, b) = (a + lab_need src dst + (w - lab_extra src dst), b + (lab_extra src dst - w))"
  using assms
proof (induction src dst w "(a, b)" arbitrary: a b rule: op_loop.induct)
  case (1 src w)
  then show ?case by (simp add: op_rest_eq need_extra_Nil)
next
  case (2 l d dst w)
  show ?case
  proof (cases "l = kWildcard")
    case True
    then have "dst = []" using "2.prems"(2) wildcard_last by blast
    then show ?thesis using True by (simp add: op_rest_eq need_extra_wildcard)
  next
    case False
    then have "l < kWildcard" using "2.prems" by simp
    then show ?thesis using False 2 drop_dst [of l d dst "[]"] by simp
  qed
next
  case (3 k n src l d dst w)
  show ?case
  proof (cases "l = kWildcard")
    case True
    then have "dst = []" using "3.prems"(2) wildcard_last by blast
    then show ?thesis using True "3.prems" by (simp add: op_rest_eq need_extra_wildcard)
  next
    case False
    then have l: "l < kWildcard" using "3.prems" by simp
    consider "k < l" | "k = l" | "l < k" by linarith
    then show ?thesis
    proof cases
      case 1
      then have "\<forall>x\<in>fst ` set ((l, d) # dst). k < x" using "3.prems" by fastforce
      note e = drop_src [OF "3.prems"(1,2) less_trans [OF 1 l] this]
      show ?thesis using 1 False "3.hyps"(1) [OF False 1] "3.prems" unfolding e by (auto simp: min_def add_ac)
    next
      case 2
      have p: "labels_ok ((l, n) # src)" "labels_ok src" "labels_ok dst" using "3.prems" 2 by simp_all
      note e = drop_both [OF p(1) "3.prems"(2) l]
      show ?thesis
      proof (cases "d < n")
        case True
        then show ?thesis using 2 False "3.hyps"(2) p unfolding 2 e by (auto simp: min_def add_ac)
      next
        case nd: False
        then show ?thesis using 2 False "3.hyps"(3) p unfolding 2 e by (simp add: add_ac)
      qed
    next
      case 3
      then have "\<forall>x\<in>fst ` set ((k, n) # src). l < x" using "3.prems" by fastforce
      note e = drop_dst [OF "3.prems"(2,1) l this]
      show ?thesis using 3 False "3.hyps"(4) "3.prems" unfolding e by (simp add: add_ac)
    qed
  qed
qed

lemma operationCount_eq:
  assumes "labels_ok src" "labels_ok dst"
  shows "operationCount src dst = (lab_need src dst + (copies dst kWildcard - lab_extra src dst), lab_extra src dst - copies dst kWildcard)"
  unfolding operationCount_def copies_def [symmetric] by (simp add: op_loop_eq [OF assms])

text \<open>Copies made and removed balance, and no fewer copies can be made to meet the target.\<close>

lemma need_extra_balance:
  assumes "labels_ok src" "labels_ok dst"
  shows "countLabels src + lab_need src dst + copies dst kWildcard = countLabels dst + lab_extra src dst"
proof -
  have "(\<Sum>l<kWildcard. copies src l) + lab_need src dst = (\<Sum>l<kWildcard. copies dst l) + (\<Sum>l<kWildcard. copies src l - copies dst l)"
    unfolding lab_need_def sum.distrib [symmetric] by (rule sum.cong) auto
  then show ?thesis using countLabels_below [OF assms(1)] countLabels_below [OF assms(2)] by (simp add: lab_extra_def)
qed

definition added_copies :: "labels \<Rightarrow> labels \<Rightarrow> nat" where
  "added_copies src D = (\<Sum>l\<le>kWildcard. copies D l - copies src l)"

lemma recover_minimal:
  assumes "labels_ok src" "labels_ok dst" "labels_ok D" "meets D dst"
  shows "fst (operationCount src dst) \<le> added_copies src D"
proof -
  have split: "added_copies src D = (\<Sum>l<kWildcard. copies D l - copies src l) + (copies D kWildcard - copies src kWildcard)"
    unfolding added_copies_def lessThan_Suc_atMost [symmetric] by simp
  have "lab_need src dst \<le> (\<Sum>l<kWildcard. copies D l - copies src l)"
    unfolding lab_need_def using assms(4) by (intro sum_mono) (auto simp: meets_def intro: diff_le_mono)
  then have n: "lab_need src dst \<le> added_copies src D" using split by simp
  have "(\<Sum>l\<le>kWildcard. copies D l) \<le> (\<Sum>l\<le>kWildcard. copies src l + (copies D l - copies src l))"
    by (rule sum_mono) simp
  then have "countLabels D \<le> countLabels src + added_copies src D"
    using countLabels_sum [OF assms(1)] countLabels_sum [OF assms(3)] by (simp add: added_copies_def sum.distrib)
  moreover have "countLabels dst \<le> countLabels D" using assms(4) by (simp add: meets_def)
  ultimately show ?thesis
    using n need_extra_balance [OF assms(1,2)] by (simp add: operationCount_eq [OF assms(1,2)])
qed

section \<open>The labels to recover and the pool of labels to remove\<close>

lemma recover_rest_eq:
  "recover_rest avail w res = (if w - countLabels avail > 0 then lab_set kWildcard (w - countLabels avail) res else res)"
  by (induction avail w res rule: recover_rest.induct) (auto simp: min_def)

definition positive :: "labels \<Rightarrow> bool" where
  "positive ls \<longleftrightarrow> list_all (\<lambda>e. snd e > 0) ls"

text \<open>What the walk collects is sorted and below the labels still to come.\<close>

definition collects :: "labels \<Rightarrow> labels \<Rightarrow> bool" where
  "collects res dst \<longleftrightarrow> labels_ok res \<and> (\<forall>k\<in>fst ` set res. k < kWildcard \<and> (\<forall>x\<in>fst ` set dst. k < x))"

lemma collects_add:
  assumes "collects res ((l, d) # dst)" "labels_ok ((l, d) # dst)" "l < kWildcard"
  shows "collects (lab_set l c res) dst" "\<And>x. copies (lab_set l c res) x = copies res x + (if x = l then c else 0)"
proof -
  have k: "labels_ok res" "\<forall>k\<in>fst ` set res. k < kWildcard \<and> k < l \<and> (\<forall>x\<in>fst ` set dst. k < x)"
    using assms(1) by (auto simp: collects_def)
  have n: "l \<notin> fst ` set res" using k(2) by auto
  show "collects (lab_set l c res) dst"
    using k assms(2,3) by (auto simp: collects_def set_lab_set labels_ok_lab_set)
  show "copies (lab_set l c res) x = copies res x + (if x = l then c else 0)" for x
    using copies_lab_set [OF k(1)] copies_notin [OF n] by auto
qed

lemma collects_skip: "collects res ((l, d) # dst) \<Longrightarrow> collects res dst"
  by (auto simp: collects_def)

text \<open>The result of the walk: what is missing for each label, and the wildcards that nothing covers.\<close>

definition recovers :: "labels \<Rightarrow> labels \<Rightarrow> nat \<Rightarrow> labels \<Rightarrow> labels \<Rightarrow> bool" where
  "recovers src dst w res r \<longleftrightarrow> labels_ok r
     \<and> (\<forall>x<kWildcard. copies r x = copies res x + (copies dst x - copies src x)) \<and> copies r kWildcard = w - lab_extra src dst"

lemma recovers_rest:
  assumes "collects res dst" "labels_ok src" "lab_extra src dst = countLabels src" "\<forall>x<kWildcard. copies dst x = 0"
  shows "recovers src dst w res (recover_rest src w res)"
proof -
  have "labels_ok res" "copies res kWildcard = 0" using assms(1) by (auto simp: collects_def intro!: copies_notin)
  then show ?thesis using assms by (auto simp: recovers_def recover_rest_eq labels_ok_lab_set copies_lab_set)
qed

lemma recovers_step:
  assumes "recovers src' dst' w' res' r" "\<And>x. x < kWildcard \<Longrightarrow>
      copies res' x + (copies dst' x - copies src' x) = copies res x + (copies dst x - copies src x)"
    "w' - lab_extra src' dst' = w - lab_extra src dst"
  shows "recovers src dst w res r"
  using assms by (simp add: recovers_def)

lemma recover_loop_ok:
  assumes "labels_ok src" "labels_ok dst" "positive dst" "collects res dst"
  shows "\<exists>r. recover_loop src dst w res = Some r \<and> recovers src dst w res r"
  using assms
proof (induction src dst w res rule: recover_loop.induct)
  case (1 src w res)
  then show ?case using recovers_rest [of res "[]" src] by (simp add: need_extra_Nil)
next
  case (2 l d dst w res)
  show ?case
  proof (cases "l = kWildcard")
    case True
    then have "dst = []" using "2.prems"(2) wildcard_last by blast
    then show ?thesis using True "2.prems" recovers_rest [OF "2.prems"(4), of "[]"] by (simp add: need_extra_wildcard)
  next
    case False
    then have l: "l < kWildcard" and d: "d > 0" using "2.prems" by (simp_all add: positive_def)
    note c = collects_add [OF "2.prems"(4,2) l, of d]
    obtain r where r: "recover_loop [] dst w (lab_set l d res) = Some r" "recovers [] dst w (lab_set l d res) r"
      using "2.IH" [OF False d] "2.prems" c(1) by (auto simp: positive_def)
    have "copies dst l = 0" using "2.prems"(2) by (auto intro!: copies_notin)
    then have "recovers [] ((l, d) # dst) w res r"
      by (intro recovers_step [OF r(2)]) (auto simp: c(2) drop_dst [OF "2.prems"(2,1) l])
    then show ?thesis using r(1) False d by simp
  qed
next
  case (3 k n src l d dst w res)
  show ?case
  proof (cases "l = kWildcard")
    case True
    then have "dst = []" using "3.prems"(2) wildcard_last by blast
    then show ?thesis using True "3.prems" recovers_rest [OF "3.prems"(4,1)]
      by (auto simp: need_extra_wildcard)
  next
    case False
    then have l: "l < kWildcard" and d: "d > 0" using "3.prems" by (simp_all add: positive_def)
    note c = collects_add [OF "3.prems"(4,2) l]
    have zs: "copies src k = 0" and zd: "copies dst l = 0" using "3.prems" by (auto intro!: copies_notin)
    consider "k < l" | "k = l" | "l < k" by linarith
    then show ?thesis
    proof cases
      case 1
      then have b: "\<forall>x\<in>fst ` set ((l, d) # dst). k < x" using "3.prems" by fastforce
      obtain r where r: "recover_loop src ((l, d) # dst) (w - min w n) res = Some r" "recovers src ((l, d) # dst) (w - min w n) res r"
        using "3.IH"(1) [OF False 1] "3.prems" by auto
      have "copies ((l, d) # dst) k = 0" using b by (intro copies_notin) blast
      then have "recovers ((k, n) # src) ((l, d) # dst) w res r"
        by (intro recovers_step [OF r(2)]) (auto simp: zs drop_src [OF "3.prems"(1,2) less_trans [OF 1 l] b] simp del: copies_Cons(1), auto)
      then show ?thesis using r(1) False 1 by simp
    next
      case 2
      have p: "labels_ok ((l, n) # src)" using "3.prems" 2 by simp
      let ?w = "if d < n then w - min w (n - d) else w" and ?res = "if d > n then lab_set l (d - n) res else res"
      have "collects ?res dst" using c(1) collects_skip [OF "3.prems"(4)] by simp
      then obtain r where r: "recover_loop src dst ?w ?res = Some r" "recovers src dst ?w ?res r"
        using "3.IH"(2) [OF False _ 2] "3.prems" 2 by (auto simp: positive_def)
      have "recovers ((l, n) # src) ((l, d) # dst) w res r"
        by (rule recovers_step [OF r(2)]) (use zs zd 2 in \<open>auto simp: c(2) drop_both [OF p "3.prems"(2) l] min_def\<close>)
      then show ?thesis using r(1) False 2 by simp
    next
      case 3
      then have b: "\<forall>x\<in>fst ` set ((k, n) # src). l < x" using "3.prems" by fastforce
      obtain r where r: "recover_loop ((k, n) # src) dst w (lab_set l d res) = Some r" "recovers ((k, n) # src) dst w (lab_set l d res) r"
        using "3.IH"(3) [OF False _ _ d] 3 "3.prems" c(1) by (auto simp: positive_def)
      have "copies ((k, n) # src) l = 0" using b by (intro copies_notin) blast
      then have "recovers ((k, n) # src) ((l, d) # dst) w res r"
        by (intro recovers_step [OF r(2)]) (auto simp: zd c(2) drop_dst [OF "3.prems"(2,1) l b])
      then show ?thesis using r(1) False 3 d by simp
    qed
  qed
qed

text \<open>Labels with more copies than the target asks for.\<close>

definition surplus :: "labels \<Rightarrow> labels \<Rightarrow> nat set" where
  "surplus src dst = {x. copies src x > (if x = kWildcard then 0 else copies dst x)}"

definition pool_result :: "labels \<Rightarrow> labels \<Rightarrow> nat \<Rightarrow> labels \<Rightarrow> labels option \<Rightarrow> bool" where
  "pool_result src dst w res r \<longleftrightarrow> (\<exists>p. r = Some (if w + lab_extra src dst \<le> copies dst kWildcard then [] else p)
     \<and> fst ` set p = fst ` set res \<union> surplus src dst)"

lemma positive_Cons [simp]: "positive ((l, c) # ls) \<longleftrightarrow> c > 0 \<and> positive ls"
  by (simp add: positive_def)

lemma copies_positive: "positive ls \<Longrightarrow> labels_ok ls \<Longrightarrow> copies ls x > 0 \<longleftrightarrow> x \<in> fst ` set ls"
proof (induction ls)
  case (Cons e ls)
  obtain a b where e: "e = (a, b)" by (cases e)
  have "copies ls x > 0 \<longleftrightarrow> x \<in> fst ` set ls" using Cons e by simp
  then show ?case using Cons.prems e by (cases "a = x") simp_all
qed simp

lemma pool_rest_eq:
  "positive avail \<Longrightarrow> \<exists>p. pool_rest avail w t res = Some (if w + countLabels avail \<le> t then [] else p)
     \<and> fst ` set p = fst ` set res \<union> fst ` set avail"
proof (induction avail w t res rule: pool_rest.induct)
  case (2 k n avail w t res)
  then show ?case by (auto simp: set_lab_set add.assoc)
qed auto

lemma pool_rest_result:
  assumes "positive src" "labels_ok src" "lab_extra src dst = countLabels src" "\<forall>x<kWildcard. copies dst x = 0" "t = copies dst kWildcard"
  shows "pool_result src dst w res (pool_rest src w t res)"
proof -
  have le: "x \<in> fst ` set src \<Longrightarrow> x \<le> kWildcard" for x using assms(2) by (auto simp: labels_ok_def list_all_iff)
  have "x \<in> surplus src dst \<longleftrightarrow> x \<in> fst ` set src" for x
  proof (cases "x \<le> kWildcard")
    case True
    then have "x \<in> surplus src dst \<longleftrightarrow> copies src x > 0" using assms(4) by (auto simp: surplus_def)
    then show ?thesis using copies_positive [OF assms(1,2)] by simp
  next
    case False
    then have "x \<notin> fst ` set src" using le by blast
    then show ?thesis by (simp add: surplus_def copies_notin del: image_iff)
  qed
  then have "surplus src dst = fst ` set src" by blast
  then show ?thesis using pool_rest_eq [OF assms(1), of w t res] assms(3,5) by (simp add: pool_result_def)
qed

lemma pool_step:
  assumes "pool_result src' dst' w' res' r" "w' + lab_extra src' dst' = w + lab_extra src dst"
    "copies dst' kWildcard = copies dst kWildcard"
    "fst ` set res' \<union> surplus src' dst' = fst ` set res \<union> surplus src dst"
  shows "pool_result src dst w res r"
  using assms by (simp add: pool_result_def)

lemma surplus_drop_src:
  assumes "copies src k = 0" "copies dst k = 0" "0 < n"
  shows "surplus ((k, n) # src) dst = insert k (surplus src dst)"
  using assms by (auto simp: surplus_def)

lemma surplus_drop_dst:
  assumes "copies src l = 0" "l < kWildcard"
  shows "surplus src ((l, d) # dst) = surplus src dst"
  using assms by (auto simp: surplus_def)

lemma surplus_drop_both:
  assumes "copies src l = 0" "copies dst l = 0" "l < kWildcard"
  shows "surplus ((l, n) # src) ((l, d) # dst) = (if d < n then insert l (surplus src dst) else surplus src dst)"
  using assms by (auto simp: surplus_def)

lemma pool_loop_ok:
  assumes "labels_ok src" "labels_ok dst" "positive src"
  shows "pool_result src dst w res (pool_loop src dst w res)"
  using assms
proof (induction src dst w res rule: pool_loop.induct)
  case (1 src w res)
  then show ?case using pool_rest_result [of src "[]" 0] by (simp add: need_extra_Nil)
next
  case (2 l d dst w res)
  show ?case
  proof (cases "l = kWildcard")
    case True
    then have "dst = []" using "2.prems"(2) wildcard_last by blast
    then show ?thesis using True pool_rest_result [of "[]" "[(l, d)]" d] "2.prems" by (simp add: need_extra_wildcard)
  next
    case False
    then have l: "l < kWildcard" using "2.prems" by simp
    have "pool_result [] ((l, d) # dst) w res (pool_loop [] dst w res)"
      by (rule pool_step [OF "2.IH" [OF False]]) (use "2.prems" l in \<open>simp_all add: drop_dst surplus_drop_dst\<close>)
    then show ?thesis using False by simp
  qed
next
  case (3 k n src l d dst w res)
  have n: "n > 0" using "3.prems" by simp
  show ?case
  proof (cases "l = kWildcard")
    case True
    then have "dst = []" using "3.prems"(2) wildcard_last by blast
    then show ?thesis using True pool_rest_result [OF "3.prems"(3,1), of "[(l, d)]" d] "3.prems" by (simp add: need_extra_wildcard)
  next
    case False
    then have l: "l < kWildcard" using "3.prems" by simp
    have zs: "copies src k = 0" and zd: "copies dst l = 0" using "3.prems" by (auto intro!: copies_notin)
    have p: "labels_ok src" "labels_ok dst" "positive src" using "3.prems" by simp_all
    consider "k < l" | "k = l" | "l < k" by linarith
    then show ?thesis
    proof cases
      case 1
      then have b: "\<forall>x\<in>fst ` set ((l, d) # dst). k < x" using "3.prems" by fastforce
      then have "copies ((l, d) # dst) k = 0" by (intro copies_notin) blast
      then have "pool_result ((k, n) # src) ((l, d) # dst) w res (pool_loop src ((l, d) # dst) (w + n) (lab_set k 1 res))"
        by (intro pool_step [OF "3.IH"(1) [OF False 1 n p(1) "3.prems"(2) p(3)]])
          (simp_all add: drop_src [OF "3.prems"(1,2) less_trans [OF 1 l] b] surplus_drop_src zs n set_lab_set del: copies_Cons)
      then show ?thesis using False 1 n by simp
    next
      case 2
      have q: "labels_ok ((l, n) # src)" using "3.prems" 2 by simp
      have zs': "copies src l = 0" using zs 2 by simp
      show ?thesis
      proof (cases "d < n")
        case True
        have "pool_result ((l, n) # src) ((l, d) # dst) w res (pool_loop src dst (w + (n - d)) (lab_set l 1 res))"
          by (rule pool_step [OF "3.IH"(2) [OF False _ 2 True p]])
            (use True 2 l in \<open>simp_all add: drop_both [OF q "3.prems"(2) l] surplus_drop_both zs' zd set_lab_set\<close>)
        then show ?thesis using False 2 True by simp
      next
        case nd: False
        have "pool_result ((l, n) # src) ((l, d) # dst) w res (pool_loop src dst w res)"
          by (rule pool_step [OF "3.IH"(3) [OF False _ 2 nd p]])
            (use nd 2 l in \<open>simp_all add: drop_both [OF q "3.prems"(2) l] surplus_drop_both zs' zd\<close>)
        then show ?thesis using False 2 nd by simp
      qed
    next
      case 3
      then have b: "\<forall>x\<in>fst ` set ((k, n) # src). l < x" using "3.prems" by fastforce
      then have z: "copies ((k, n) # src) l = 0" by (intro copies_notin) blast
      have "pool_result ((k, n) # src) ((l, d) # dst) w res (pool_loop ((k, n) # src) dst w res)"
        by (rule pool_step [OF "3.IH"(4) [OF False _ _ "3.prems"(1) p(2) "3.prems"(3)]])
          (use 3 l in \<open>simp_all add: drop_dst [OF "3.prems"(2,1) l b] surplus_drop_dst [OF z l] del: copies_Cons(1)\<close>, simp_all)
      then show ?thesis using False 3 by simp
    qed
  qed
qed

lemma copies_le_count: "copies ls x \<le> countLabels ls"
  by (induction ls rule: countLabels.induct) auto

lemma lab_find_copies: "lab_find ls x = Some n \<Longrightarrow> copies ls x = n"
  by (simp add: copies_def)

lemma lab_find_key: "lab_find ls l = Some n \<Longrightarrow> l \<in> fst ` set ls"
  by (induction ls l rule: lab_find.induct) (auto split: if_splits)

lemma lab_find_None: "lab_find ls x = None \<Longrightarrow> copies ls x = 0"
  by (simp add: copies_def)

lemma keys_lab_erase: "fst ` set (lab_erase l ls) \<subseteq> fst ` set ls"
  by (induction l ls rule: lab_erase.induct) auto

lemma lab_erase_ok: "labels_ok ls \<Longrightarrow> labels_ok (lab_erase l ls)"
proof (induction l ls rule: lab_erase.induct)
  case (2 l k d ls)
  have "k < x" if "x \<in> fst ` set (lab_erase l ls)" for x using that keys_lab_erase [of l ls] "2.prems" by fastforce
  then show ?case using 2 by auto
qed simp

lemma copies_lab_erase: "labels_ok ls \<Longrightarrow> copies (lab_erase l ls) x = (if x = l then 0 else copies ls x)"
proof (induction l ls rule: lab_erase.induct)
  case (2 l k d ls)
  have "copies ls k = 0" using "2.prems" by (auto intro!: copies_notin)
  then show ?case using 2 by auto
qed simp

lemma drop_label_ok:
  assumes "labels_ok ls" "positive ls" "countLabels ls < 2 ^ 16"
  shows "labels_ok (drop_label l ls)" "copies (drop_label l ls) x = copies ls x - (if x = l then 1 else 0)"
proof -
  have "labels_ok (drop_label l ls) \<and> copies (drop_label l ls) x = copies ls x - (if x = l then 1 else 0)"
  proof (cases "lab_find ls l")
    case None
    then show ?thesis using assms(1) by (simp add: drop_label_def lab_find_None)
  next
    case (Some n)
    then have n: "copies ls l = n" "n < 2 ^ 16" using lab_find_copies [OF Some] copies_le_count [of ls l] assms(3) by auto
    have "l \<in> fst ` set ls" by (rule lab_find_key [OF Some])
    then have pos: "0 < n" "l \<le> kWildcard"
      using copies_positive [OF assms(2,1), of l] n(1) assms(1) by (auto simp: labels_ok_def list_all_iff)
    then have "(n + 65535) mod 2 ^ 16 = n - 1" using n(2) by (simp add: mod_if)
    then show ?thesis using Some n(1) pos assms(1)
      by (auto simp: drop_label_def Let_def labels_ok_lab_set copies_lab_set lab_erase_ok copies_lab_erase)
  qed
  then show "labels_ok (drop_label l ls)" "copies (drop_label l ls) x = copies ls x - (if x = l then 1 else 0)" by simp_all
qed

lemma surplus_empty:
  assumes "labels_ok src" "surplus src dst = {}"
  shows "lab_extra src dst = 0"
proof -
  have "copies src x \<le> (if x = kWildcard then 0 else copies dst x)" for x
    using assms(2) by (auto simp: surplus_def not_less)
  then have "copies src kWildcard = 0" "\<And>x. x < kWildcard \<Longrightarrow> copies src x - copies dst x = 0"
    by (metis le_zero_eq, metis diff_is_0_eq less_irrefl)
  then show ?thesis by (simp add: lab_extra_def)
qed

text \<open>Removing a copy of a label in surplus only lowers the number of copies to remove.\<close>

lemma drop_surplus:
  assumes "labels_ok src" "positive src" "countLabels src < 2 ^ 16" "labels_ok dst" "l \<in> surplus src dst" "l \<le> kWildcard"
  shows "lab_need (drop_label l src) dst = lab_need src dst" "lab_extra src dst = lab_extra (drop_label l src) dst + 1"
proof -
  note c = drop_label_ok(2) [OF assms(1-3), of l]
  have l: "copies src l > (if l = kWildcard then 0 else copies dst l)" using assms(5) by (simp add: surplus_def)
  show "lab_need (drop_label l src) dst = lab_need src dst"
    unfolding lab_need_def using l by (intro sum.cong) (auto simp: c)
  show "lab_extra src dst = lab_extra (drop_label l src) dst + 1"
  proof (cases "l = kWildcard")
    case True
    have "(\<Sum>x<kWildcard. copies src x - copies dst x) = (\<Sum>x<kWildcard. copies (drop_label l src) x - copies dst x)"
      by (intro sum.cong refl) (unfold c, use True in simp)
    moreover have "copies src kWildcard = copies (drop_label l src) kWildcard + 1" unfolding c using True l by simp
    ultimately show ?thesis by (simp add: lab_extra_def)
  next
    case False
    then have "l < kWildcard" using assms(6) by simp
    then have "(\<Sum>x<kWildcard. copies src x - copies dst x) = (\<Sum>x<kWildcard. copies (drop_label l src) x - copies dst x) + 1"
      by (rule sum_change_one) (use l False in \<open>auto simp: c\<close>)
    then show ?thesis using False by (simp add: lab_extra_def c)
  qed
qed

text \<open>
  C11: For a part that is both available and in the target: the labels to recover can be computed and
  number as many as the operation count says. With these copies added the target is met, and no
  placement that meets the target adds fewer copies. The pool of labels to remove from is empty
  exactly when no copy has to be removed, and removing one copy of any label of the pool lowers the
  number of copies to remove by one and leaves the number of copies to make as it is.
\<close>

theorem recovery_plan:
  assumes "find_slice (available c) t = Some a" "find_slice (target c) t = Some g" "part < expectedParts t"
    and "src = parts a ! part" "dst = parts g ! part"
    and "labels_ok src" "labels_ok dst" "positive src" "positive dst" "countLabels src < 2 ^ 16"
  shows "\<exists>R P. getLabelsToRecover t part c = Some R \<and> getRemovePool t part c = Some P
    \<and> countLabels R = fst (operationCount src dst)
    \<and> (\<forall>l<kWildcard. copies dst l \<le> copies src l + copies R l) \<and> countLabels dst \<le> countLabels src + countLabels R
    \<and> (\<forall>D. labels_ok D \<and> meets D dst \<longrightarrow> countLabels R \<le> (\<Sum>l\<le>kWildcard. copies D l - copies src l))
    \<and> (P = [] \<longleftrightarrow> snd (operationCount src dst) = 0)
    \<and> (\<forall>l\<in>fst ` set P. operationCount (drop_label l src) dst
          = (fst (operationCount src dst), snd (operationCount src dst) - 1))"
proof -
  have ok: "labels_ok src" "labels_ok dst" by fact+
  note op = operationCount_eq [OF ok]
  have "collects [] dst" by (simp add: collects_def)
  then obtain R where R: "recover_loop src dst (copies dst kWildcard) [] = Some R" "recovers src dst (copies dst kWildcard) [] R"
    using recover_loop_ok [OF ok assms(9)] by blast
  have get: "getLabelsToRecover t part c = Some R"
    using assms(1-5) R(1) by (simp add: getLabelsToRecover_def copies_def)
  have cR: "countLabels R = fst (operationCount src dst)"
    using R(2) countLabels_below [of R] by (simp add: recovers_def op lab_need_def)
  have le: "\<forall>l<kWildcard. copies dst l \<le> copies src l + copies R l" using R(2) by (auto simp: recovers_def)
  have total: "countLabels dst \<le> countLabels src + countLabels R" using need_extra_balance [OF ok] by (simp add: cR op)
  obtain p where p: "pool_loop src dst 0 [] = Some (if lab_extra src dst \<le> copies dst kWildcard then [] else p)"
    "fst ` set p = surplus src dst"
    using pool_loop_ok [OF ok assms(8), of 0 "[]"] by (auto simp: pool_result_def)
  define P where "P = (if lab_extra src dst \<le> copies dst kWildcard then [] else p)"
  have pool: "getRemovePool t part c = Some P" using assms(1-5) p(1) by (simp add: getRemovePool_def P_def)
  have "p = [] \<Longrightarrow> lab_extra src dst = 0" using surplus_empty [OF ok(1), of dst] p(2) by auto
  then have emp: "P = [] \<longleftrightarrow> snd (operationCount src dst) = 0" by (auto simp: P_def op)
  have "operationCount (drop_label l src) dst = (fst (operationCount src dst), snd (operationCount src dst) - 1)"
    if "l \<in> fst ` set P" for l
  proof -
    have l: "l \<in> surplus src dst" "lab_extra src dst > copies dst kWildcard"
      using that p(2) by (auto simp: P_def simp del: image_iff split: if_splits)
    then have "l \<in> fst ` set src" using copies_positive [OF assms(8,6), of l] by (auto simp: surplus_def)
    then have "l \<le> kWildcard" using ok(1) by (auto simp: labels_ok_def list_all_iff)
    then show ?thesis
      using drop_surplus [OF ok(1) assms(8,10) ok(2) l(1)] drop_label_ok(1) [OF ok(1) assms(8,10), of l] l(2)
      by (simp add: op operationCount_eq ok(2))
  qed
  then show ?thesis
    using get pool cR le total emp recover_minimal [OF ok] by (auto simp: added_copies_def simp del: image_iff)
qed

text \<open>A chunk with one copy on label 1 and two on label 2, whose goal is two copies on label 1 and one anywhere.\<close>

definition two_labels :: calculator where
  "two_labels = (new_calculator [\<lparr>slice_type = 0, parts = [[(1, 2), (kWildcard, 1)]]\<rparr>])
     \<lparr>available := [\<lparr>slice_type = 0, parts = [[(1, 1), (2, 2)]]\<rparr>]\<rparr>"

theorem recovery_plan_witness:
  "expectedParts 0 = 1 \<and> operationCount [(1, 1), (2, 2)] [(1, 2), (kWildcard, 1)] = (1, 1)
    \<and> (\<exists>R P. getLabelsToRecover 0 0 two_labels = Some R \<and> getRemovePool 0 0 two_labels = Some P
      \<and> countLabels R = 1 \<and> P \<noteq> [])"
proof -
  have e: "expectedParts 0 = 1" by (simp add: expectedParts_def kTypeParts_def kECFirst_def)
  have op: "operationCount [(1, 1), (2, 2)] [(1, 2), (kWildcard, 1)] = (1, 1)"
    by (simp add: operationCount_def kWildcard_def)
  have ok: "labels_ok [(1, 1), (2, 2)]" "labels_ok [(1, 2), (kWildcard, 1)]" by (simp_all add: kWildcard_def)
  have f: "find_slice (available two_labels) 0 = Some \<lparr>slice_type = 0, parts = [[(1, 1), (2, 2)]]\<rparr>"
    "find_slice (target two_labels) 0 = Some \<lparr>slice_type = 0, parts = [[(1, 2), (kWildcard, 1)]]\<rparr>"
    by (simp_all add: two_labels_def new_calculator_def)
  show ?thesis
    using recovery_plan [OF f, of 0 "[(1, 1), (2, 2)]" "[(1, 2), (kWildcard, 1)]"] e op ok by (auto simp: positive_def)
qed

section \<open>Redundancy after the removal of a part\<close>

definition slices_ok :: "slice list \<Rightarrow> bool" where
  "slices_ok ss \<longleftrightarrow> sorted_wrt (<) (map slice_type ss)
     \<and> list_all (\<lambda>s. slice_ok s \<and> list_all (\<lambda>p. positive p \<and> countLabels p < 2 ^ 16) (parts s)) ss"

text \<open>What a slice adds to the redundancy of a chunk.\<close>

definition slice_share :: "slice \<Rightarrow> int" where
  "slice_share s = max (evalSliceRedundancyLevel s + 1) 0"

text \<open>The state after \<^verbatim>\<open>evalRedundancyLevel\<close>.\<close>

definition evaluated :: "calculator \<Rightarrow> bool" where
  "evaluated c \<longleftrightarrow> redundancy_level c = goal_redundancy (available c)
     \<and> slice_redundancy_level c = map (\<lambda>s. (slice_type s, evalSliceRedundancyLevel s)) (available c)"

lemma goal_redundancy_sum: "goal_redundancy ss = sum_list (map slice_share ss) - 1"
proof -
  have "foldl (\<lambda>n s. n + max (evalSliceRedundancyLevel s + 1) 0) x ss = x + sum_list (map slice_share ss)" for x
    by (induction ss arbitrary: x) (simp_all add: slice_share_def)
  then show ?thesis by (simp add: goal_redundancy_def)
qed

lemma slice_share_nonneg: "0 \<le> slice_share s"
  by (simp add: slice_share_def)

lemma sum_shares_nonneg: "0 \<le> sum_list (map slice_share ss)"
  by (rule sum_list_nonneg) (auto simp: slice_share_nonneg)

lemma lab_set_append: "\<forall>k\<in>fst ` set tab. k < t \<Longrightarrow> lab_set t x tab = tab @ [(t, x)]"
  by (induction tab) auto

lemma eval_evaluated:
  assumes "slices_ok (available c)" "slice_redundancy_level c = []"
  shows "evaluated (evalRedundancyLevel c)"
proof -
  have "foldl (\<lambda>tab s. lab_set (slice_type s) (evalSliceRedundancyLevel s) tab) tab ss
      = tab @ map (\<lambda>s. (slice_type s, evalSliceRedundancyLevel s)) ss"
    if "sorted_wrt (<) (map slice_type ss)" "\<forall>k\<in>fst ` set tab. \<forall>s\<in>set ss. k < slice_type s" for tab ss
    using that
  proof (induction ss arbitrary: tab)
    case (Cons s ss)
    have "lab_set (slice_type s) (evalSliceRedundancyLevel s) tab = tab @ [(slice_type s, evalSliceRedundancyLevel s)]"
      using Cons.prems(2) by (intro lab_set_append) simp
    then show ?case using Cons by auto
  qed simp
  then show ?thesis using assms by (simp add: evaluated_def evalRedundancyLevel_def slices_ok_def)
qed

lemma find_slice_type: "find_slice ss t = Some s \<Longrightarrow> slice_type s = t \<and> s \<in> set ss"
  by (induction ss t rule: find_slice.induct) (auto split: if_splits)

lemma put_found:
  assumes "sorted_wrt (<) (map slice_type ss)" "find_slice ss t = Some s" "slice_type s' = t"
  shows "sum_list (map f (put_slice s' ss)) = sum_list (map f ss) - f s + (f s' :: int)"
    "find_slice (put_slice s' ss) t = Some s'"
    "map (\<lambda>s. (slice_type s, g s)) (put_slice s' ss) = lab_set t (g s') (map (\<lambda>s. (slice_type s, g s)) ss)"
  using assms by (induction ss t rule: find_slice.induct) (auto split: if_splits, fastforce dest: find_slice_type)

lemma lab_find_map:
  "find_slice ss t = Some s \<Longrightarrow> lab_find (map (\<lambda>s. (slice_type s, g s)) ss) t = Some (g s)"
  by (induction ss t rule: find_slice.induct) (auto split: if_splits)

text \<open>Re-evaluating one slice gives the same as evaluating all of them.\<close>

lemma update_evaluated:
  assumes "evaluated c" "sorted_wrt (<) (map slice_type (available c))" "find_slice (available c) t = Some s" "slice_type s' = t"
  shows "evaluated (updateRedundancyLevel t (c\<lparr>available := put_slice s' (available c)\<rparr>))"
proof -
  note f = put_found [OF assms(2-4)]
  have "max x (- 1) - max y (- 1) = max (x + 1) 0 - max (y + 1) 0" for x y :: int by auto
  then have "max (evalSliceRedundancyLevel s') (- 1) - max (evalSliceRedundancyLevel s) (- 1) = slice_share s' - slice_share s"
    by (simp add: slice_share_def)
  then show ?thesis
    using assms(1) lab_find_map [OF assms(3), of evalSliceRedundancyLevel]
    by (simp add: updateRedundancyLevel_def f(2) evaluated_def goal_redundancy_sum f(1) f(3) Let_def)
qed

text \<open>A slice that was not there at the last evaluation is counted one short.\<close>

lemma update_new_slice_one_short:
  defines "c \<equiv> evalRedundancyLevel (new_calculator [])"
  shows "\<exists>c'. addPart 0 0 1 c = Some c' \<and> redundancy_level (updateRedundancyLevel 0 c') = - 1 \<and> goal_redundancy (available c') = 0"
  by (simp add: c_def new_calculator_def evalRedundancyLevel_def goal_redundancy_def addPart_def slice_at_def Let_def new_slice_def
      slice_size_def expectedParts_def kTypeParts_def type_consts updateRedundancyLevel_def evalSliceRedundancyLevel_def isStandard_def)

section \<open>The removal of a part\<close>

lemma count_drop_label:
  assumes "labels_ok ls" "positive ls" "countLabels ls < 2 ^ 16"
  shows "countLabels ls \<le> countLabels (drop_label l ls) + 1" "countLabels (drop_label l ls) \<le> countLabels ls"
proof -
  note d = drop_label_ok [OF assms, of l]
  have "countLabels ls = (\<Sum>x\<le>kWildcard. copies ls x)" "countLabels (drop_label l ls) = (\<Sum>x\<le>kWildcard. copies (drop_label l ls) x)"
    using countLabels_sum [OF assms(1)] countLabels_sum [OF d(1)] by simp_all
  moreover have "(\<Sum>x\<le>kWildcard. copies ls x) \<le> (\<Sum>x\<le>kWildcard. copies (drop_label l ls) x + (if x = l then 1 else 0))"
    by (rule sum_mono) (simp add: d(2))
  moreover have "(\<Sum>x\<le>kWildcard. copies (drop_label l ls) x) \<le> (\<Sum>x\<le>kWildcard. copies ls x)"
    by (rule sum_mono) (simp add: d(2))
  moreover have "(\<Sum>x\<le>kWildcard. if x = l then 1 else 0 :: nat) \<le> 1" by simp
  ultimately show "countLabels ls \<le> countLabels (drop_label l ls) + 1" "countLabels (drop_label l ls) \<le> countLabels ls"
    by (simp_all add: sum.distrib)
qed

lemma length_filter_update:
  "k < length xs \<Longrightarrow> length (filter P (xs[k := v])) + (if P (xs ! k) then 1 else 0) = length (filter P xs) + (if P v then 1 else 0)"
proof (induction xs arbitrary: k)
  case (Cons x xs)
  show ?case
  proof (cases k)
    case (Suc j)
    then show ?thesis using Cons.IH [of j] Cons.prems by (cases "P x"; cases "P v"; cases "P (xs ! j)") simp_all
  qed auto
qed simp

lemma sum_list_change:
  "k < length xs \<Longrightarrow> sum_list (xs[k := v]) + xs ! k = sum_list xs + (v :: nat)"
  by (induction xs arbitrary: k) (auto split: nat.split)

text \<open>One copy less of one part lowers the level of a slice by at most one.\<close>

lemma level_update:
  assumes "part < length (parts s)" "countLabels (parts s ! part) \<le> countLabels q + 1"
  shows "evalSliceRedundancyLevel s \<le> evalSliceRedundancyLevel (s\<lparr>parts := (parts s)[part := q]\<rparr>) + 1"
proof -
  let ?ns = "map countLabels (parts s)"
  have "int (sum_list ?ns) \<le> int (sum_list (?ns[part := countLabels q])) + 1"
    using sum_list_change [of part ?ns "countLabels q"] assms by simp
  moreover have "length (filter (\<lambda>n. n > 0) ?ns) \<le> length (filter (\<lambda>n. n > 0) (?ns[part := countLabels q])) + 1"
    using length_filter_update [of part ?ns "\<lambda>n. n > 0" "countLabels q"] assms(1) by (simp split: if_splits)
  ultimately show ?thesis by (simp add: evalSliceRedundancyLevel_def Let_def map_update)
qed

lemma level_cong:
  "map countLabels (parts s) = map countLabels (parts s') \<Longrightarrow> slice_type s = slice_type s' \<Longrightarrow>
     evalSliceRedundancyLevel s = evalSliceRedundancyLevel s'"
  unfolding evalSliceRedundancyLevel_def by (simp only:)

definition slice_drop :: "nat \<Rightarrow> nat \<Rightarrow> slice \<Rightarrow> slice" where
  "slice_drop part label s = s\<lparr>parts := (parts s)[part := drop_label label (parts s ! part)]\<rparr>"

text \<open>The copy that is tested has the counts of the slice after the removal.\<close>

lemma without_copy_level:
  assumes "labels_ok (parts s ! part)" "positive (parts s ! part)" "countLabels (parts s ! part) < 2 ^ 16"
  shows "evalSliceRedundancyLevel (without_copy part label s) = evalSliceRedundancyLevel (slice_drop part label s)"
proof -
  let ?ls = "parts s ! part"
  let ?w = "case lab_find ?ls label of None \<Rightarrow> ?ls | Some n \<Rightarrow> lab_set label ((n + 65535) mod 2 ^ 16) ?ls"
  have "labels_ok ?w \<and> copies ?w x = copies (drop_label label ?ls) x" for x
  proof (cases "lab_find ?ls label")
    case None
    then show ?thesis using assms(1) by (simp add: drop_label_def)
  next
    case (Some n)
    have "label \<in> fst ` set ?ls" by (rule lab_find_key [OF Some])
    then have "label \<le> kWildcard" using assms(1) by (auto simp: labels_ok_def list_all_iff)
    then show ?thesis using Some assms(1)
      by (auto simp: drop_label_def Let_def labels_ok_lab_set copies_lab_set copies_lab_erase)
  qed
  then have "countLabels ?w = countLabels (drop_label label ?ls)"
    using countLabels_sum [of ?w] countLabels_sum [OF drop_label_ok(1) [OF assms]] by simp
  then show ?thesis by (intro level_cong) (simp_all add: without_copy_def slice_drop_def map_update)
qed

lemma state_count_shares:
  assumes "evaluated c"
  shows "2 * int (state_count kSafe c) + int (state_count kEndangered c) \<le> sum_list (map slice_share (available c))"
proof -
  have "2 * int (length (filter (\<lambda>e. slice_state (snd e) = kSafe) (map (\<lambda>s. (slice_type s, evalSliceRedundancyLevel s)) ss)))
      + int (length (filter (\<lambda>e. slice_state (snd e) = kEndangered) (map (\<lambda>s. (slice_type s, evalSliceRedundancyLevel s)) ss)))
      \<le> sum_list (map slice_share ss)" for ss
    by (induction ss) (auto simp: slice_state_def slice_share_def)
  then show ?thesis using assms by (simp add: state_count_def evaluated_def)
qed

text \<open>When the removal is allowed: the chunk stays safe, or the goal asks for a single copy.\<close>

lemma can_remove_cases:
  assumes ev: "evaluated c" and "target c \<noteq> []" and can: "canRemovePart t part label c = Some True"
  shows "\<exists>s. find_slice (available c) t = Some s \<and> 1 \<le> goal_redundancy (available c)
    \<and> (2 \<le> goal_redundancy (available c) \<or> evalSliceRedundancyLevel s < 0
      \<or> evalSliceRedundancyLevel (without_copy part label s) > 0
      \<or> (\<exists>tgt. find_slice (target c) t = Some tgt \<and> slice_copies tgt = 1))"
proof -
  have rl: "redundancy_level c = goal_redundancy (available c)"
    and tab: "slice_redundancy_level c = map (\<lambda>s. (slice_type s, evalSliceRedundancyLevel s)) (available c)"
    using ev by (simp_all add: evaluated_def)
  obtain s where s: "find_slice (available c) t = Some s" and one: "1 \<le> goal_redundancy (available c)"
    using can assms(2) rl by (cases "find_slice (available c) t") (auto simp: canRemovePart_def removePartBasicTest_def split: if_splits)
  have lev: "lab_find (slice_redundancy_level c) t = Some (evalSliceRedundancyLevel s)" unfolding tab by (rule lab_find_map [OF s])
  have "2 * state_count kSafe c + state_count kEndangered c > 2 \<Longrightarrow> 2 \<le> goal_redundancy (available c)"
    using state_count_shares [OF ev] by (simp add: goal_redundancy_sum)
  then show ?thesis
    using can assms(2) s one rl lev
    by (auto simp: canRemovePart_def removePartBasicTest_def slice_at_def Let_def split: if_splits option.splits)
qed

text \<open>
  C5: When the calculator allows the removal of a part of a chunk with a goal, the removal leaves the
  chunk safe: at least one more part can be lost. The exception is a goal that asks for a single
  copy of the slice, where the removal still leaves the data complete. After the removal, updating
  the redundancy level of the one slice gives the level that evaluating all slices gives.
\<close>

theorem can_remove_keeps_safe:
  assumes "evaluated c" "slices_ok (available c)" "target c \<noteq> []" "part < expectedParts t"
    and can: "canRemovePart t part label c = Some True"
  shows "\<exists>c'. removePart t part label c = Some c'
    \<and> redundancy_level (updateRedundancyLevel t c') = goal_redundancy (available c')
    \<and> goal_redundancy (available c') \<ge>
        (if \<exists>tgt. find_slice (target c) t = Some tgt \<and> slice_copies tgt = 1 then 0 else 1)"
proof -
  obtain s where s: "find_slice (available c) t = Some s" and one: "1 \<le> goal_redundancy (available c)"
    and cases: "2 \<le> goal_redundancy (available c) \<or> evalSliceRedundancyLevel s < 0
      \<or> evalSliceRedundancyLevel (without_copy part label s) > 0
      \<or> (\<exists>tgt. find_slice (target c) t = Some tgt \<and> slice_copies tgt = 1)"
    using can_remove_cases [OF assms(1,3) can] by blast
  have sorted: "sorted_wrt (<) (map slice_type (available c))" using assms(2) by (simp add: slices_ok_def)
  have ts: "slice_type s = t" "s \<in> set (available c)" using find_slice_type [OF s] by auto
  then have so: "slice_ok s" "\<forall>p\<in>set (parts s). positive p \<and> countLabels p < 2 ^ 16"
    using assms(2) by (auto simp: slices_ok_def list_all_iff)
  have len: "part < length (parts s)" "slice_size s = expectedParts t"
    using slice_okD(3) [OF so(1)] assms(4) ts(1) by (simp_all add: slice_size_def)
  have p: "labels_ok (parts s ! part)" "positive (parts s ! part)" "countLabels (parts s ! part) < 2 ^ 16"
    using slice_okD(4) [OF so(1), of part] so(2) len assms(4) by (simp_all add: nth_mem)
  let ?s = "slice_drop part label s"
  let ?c = "c\<lparr>available := put_slice ?s (available c)\<rparr>"
  have st: "slice_type ?s = t" using ts(1) by (simp add: slice_drop_def)
  have rem: "removePart t part label c = Some ?c" using s len(2) assms(4) by (simp add: removePart_def slice_drop_def)
  have "evaluated (updateRedundancyLevel t ?c)" by (rule update_evaluated [OF assms(1) sorted s st])
  then have upd: "redundancy_level (updateRedundancyLevel t ?c) = goal_redundancy (available ?c)"
    by (simp add: evaluated_def updateRedundancyLevel_def Let_def split: option.splits)
  have lev: "evalSliceRedundancyLevel s \<le> evalSliceRedundancyLevel ?s + 1"
    unfolding slice_drop_def by (rule level_update [OF len(1)]) (rule count_drop_label(1) [OF p])
  have sum: "goal_redundancy (available ?c) = goal_redundancy (available c) - slice_share s + slice_share ?s"
    using put_found(1) [OF sorted s st, of slice_share] by (simp add: goal_redundancy_sum)
  have d: "slice_share s \<le> slice_share ?s + 1" using lev by (simp add: slice_share_def)
  have single: "slice_share s \<le> sum_list (map slice_share (available c))"
    using ts(2) slice_share_nonneg by (intro member_le_sum_list) auto
  have "1 \<le> goal_redundancy (available ?c)" if ns: "\<not> (\<exists>tgt. find_slice (target c) t = Some tgt \<and> slice_copies tgt = 1)"
  proof -
    consider "2 \<le> goal_redundancy (available c)" | "evalSliceRedundancyLevel s < 0" | "evalSliceRedundancyLevel ?s > 0"
      using cases ns without_copy_level [OF p, of label] by metis
    then show ?thesis
    proof cases
      case 1 then show ?thesis using sum d by simp
    next
      case 2
      then have "slice_share s = 0" by (simp add: slice_share_def)
      then show ?thesis using sum one slice_share_nonneg [of ?s] by simp
    next
      case 3
      then have "2 \<le> slice_share ?s" by (simp add: slice_share_def)
      then show ?thesis using sum single by (simp add: goal_redundancy_sum)
    qed
  qed
  moreover have "0 \<le> goal_redundancy (available ?c)" using sum d one by simp
  ultimately show ?thesis using rem upd by auto
qed

text \<open>Three copies of a chunk with a goal of two copies.\<close>

definition three_copies :: calculator where
  "three_copies = evalRedundancyLevel ((new_calculator [\<lparr>slice_type = 0, parts = [[(kWildcard, 2)]]\<rparr>])
     \<lparr>available := [\<lparr>slice_type = 0, parts = [[(1, 2), (2, 1)]]\<rparr>]\<rparr>)"

theorem can_remove_keeps_safe_witness:
  "canRemovePart 0 0 2 three_copies = Some True
    \<and> (\<exists>c'. removePart 0 0 2 three_copies = Some c' \<and> goal_redundancy (available c') \<ge> 1)"
proof -
  have e: "expectedParts 0 = 1" by (simp add: expectedParts_def kTypeParts_def kECFirst_def)
  have ok: "slices_ok [\<lparr>slice_type = 0, parts = [[(1, 2), (2, 1)]]\<rparr>]"
    by (simp add: slices_ok_def slice_ok_def type_valid_def type_consts slice_size_def e positive_def kWildcard_def)
  then have ev: "evaluated three_copies"
    unfolding three_copies_def by (intro eval_evaluated) (simp_all add: new_calculator_def)
  have a: "available three_copies = [\<lparr>slice_type = 0, parts = [[(1, 2), (2, 1)]]\<rparr>]"
    and t: "target three_copies = [\<lparr>slice_type = 0, parts = [[(kWildcard, 2)]]\<rparr>]"
    by (simp_all add: three_copies_def evalRedundancyLevel_def new_calculator_def)
  have can: "canRemovePart 0 0 2 three_copies = Some True"
    by (simp add: canRemovePart_def removePartBasicTest_def three_copies_def evalRedundancyLevel_def new_calculator_def
        goal_redundancy_def evalSliceRedundancyLevel_def isStandard_def type_consts state_count_def slice_state_def
        slice_at_def without_copy_def e slice_copies_def Let_def)
  have r: "\<exists>c'. removePart 0 0 2 three_copies = Some c'
      \<and> redundancy_level (updateRedundancyLevel 0 c') = goal_redundancy (available c')
      \<and> goal_redundancy (available c') \<ge> (if \<exists>tgt. find_slice (target three_copies) 0 = Some tgt \<and> slice_copies tgt = 1 then 0 else 1)"
    by (rule can_remove_keeps_safe [OF ev ok [folded a] _ _ can]) (simp_all add: t e)
  have n: "\<not> (\<exists>tgt. find_slice (target three_copies) 0 = Some tgt \<and> slice_copies tgt = 1)"
    by (simp add: t slice_copies_def)
  show ?thesis using can r unfolding if_not_P [OF n] by blast
qed

text \<open>With a goal of one copy the removal of one of two copies is allowed, although it leaves the chunk
  endangered.\<close>

lemma single_copy_goal_endangered:
  defines "c \<equiv> evalRedundancyLevel ((new_calculator [\<lparr>slice_type = 0, parts = [[(kWildcard, 1)]]\<rparr>])
     \<lparr>available := [\<lparr>slice_type = 0, parts = [[(1, 1), (2, 1)]]\<rparr>]\<rparr>)"
  shows "canRemovePart 0 0 2 c = Some True \<and> (\<exists>c'. removePart 0 0 2 c = Some c' \<and> getState (updateRedundancyLevel 0 c') = kEndangered)"
proof -
  have e: "expectedParts 0 = 1" by (simp add: expectedParts_def kTypeParts_def kECFirst_def)
  show ?thesis
    by (simp add: c_def canRemovePart_def removePartBasicTest_def evalRedundancyLevel_def new_calculator_def
        goal_redundancy_def evalSliceRedundancyLevel_def isStandard_def type_consts state_count_def slice_state_def
        slice_at_def without_copy_def e slice_copies_def Let_def removePart_def slice_size_def drop_label_def
        updateRedundancyLevel_def getState_def)
qed

end
