(* ===== verification/TargetPlan.thy ===== *)
theory TargetPlan
  imports CopiesCalculator "HOL-Library.AList"
begin

text \<open>
  How the copies calculator arranges the parts of a target so that few operations are needed
  (\<^verbatim>\<open>ChunkCopiesCalculator::optimize\<close>), with the cache of optimizer results in
  \<^verbatim>\<open>src/src/common/linear_assignment_cache.h\<close>. The hash table of the cache is an association list.
  The entries of an assignment array beyond the number of parts, which the code leaves as they were,
  are \<^const>\<open>None\<close>.
\<close>

section \<open>The cache of optimizer results\<close>

record cache_entry =
  entry_target :: slice
  entry_source :: slice
  entry_assignment :: "nat option list"

type_synonym assignment_cache = "(int \<times> cache_entry) list"

definition new_entry :: cache_entry where
  "new_entry = \<lparr>entry_target = new_slice 1, entry_source = new_slice 1, entry_assignment = []\<rparr>"

definition hashPart :: "labels \<Rightarrow> int" where
  "hashPart p = foldl (\<lambda>hash (l, n). (hash * 50000017 + (int l * int kMaxExpectedCopies + int n) mod 50000017) mod 100000007) 1 p"

definition hashSlice :: "int \<Rightarrow> slice \<Rightarrow> int" where
  "hashSlice starting s = foldl (\<lambda>hash p. (hash * 500000009 + hashPart p) mod 1000000007) starting (parts s)"

definition hashSlicePair :: "slice \<Rightarrow> slice \<Rightarrow> int" where
  "hashSlicePair tgt src = hashSlice (hashSlice 1 tgt) src"

definition partsMatch :: "labels \<Rightarrow> labels \<Rightarrow> bool" where
  "partsMatch p q \<longleftrightarrow> length p = length q \<and> list_all2 (=) p q"

definition entry_match :: "slice \<Rightarrow> slice \<Rightarrow> cache_entry \<Rightarrow> nat option list option" where
  "entry_match tgt src e =
     (if slice_type tgt \<noteq> slice_type (entry_target e) \<or> slice_type src \<noteq> slice_type (entry_source e) then None
      else if list_all2 partsMatch (parts tgt) (parts (entry_target e)) \<and> list_all2 partsMatch (parts src) (parts (entry_source e))
      then Some (entry_assignment e) else None)"

text \<open>A lookup creates a missing entry.\<close>

definition cache_entry_at :: "int \<Rightarrow> assignment_cache \<Rightarrow> cache_entry" where
  "cache_entry_at h cache = (case map_of cache h of None \<Rightarrow> new_entry | Some e \<Rightarrow> e)"

definition checkMatchAndGetResult :: "slice \<Rightarrow> slice \<Rightarrow> assignment_cache \<Rightarrow> nat option list option \<times> assignment_cache" where
  "checkMatchAndGetResult tgt src cache =
     (let h = hashSlicePair tgt src; e = cache_entry_at h cache
      in (entry_match tgt src e, AList.update h e cache))"

definition cache_store :: "slice \<Rightarrow> slice \<Rightarrow> nat option list \<Rightarrow> assignment_cache \<Rightarrow> assignment_cache" where
  "cache_store tgt src asg cache =
     AList.update (hashSlicePair tgt src) \<lparr>entry_target = tgt, entry_source = src, entry_assignment = asg\<rparr> cache"

section \<open>Optimizing the target\<close>

definition isSkippable :: "slice \<Rightarrow> bool" where
  "isSkippable s \<longleftrightarrow> list_all (\<lambda>i. partsMatch (parts s ! 0) (parts s ! i)) [1..< slice_size s]"

definition op_cost :: "slice \<Rightarrow> slice \<Rightarrow> int list list" where
  "op_cost src tgt =
     map (\<lambda>p. map (\<lambda>q. 1280 * 1280 - (1280 * int (min (fst (operationCount p q)) 1279) + int (min (snd (operationCount p q)) 1279)))
       (parts tgt)) (parts src)"

definition compute_assignment :: "slice \<Rightarrow> slice \<Rightarrow> nat option list option" where
  "compute_assignment tgt src = solve_assignment None (op_cost src tgt) (slice_size tgt)"

definition get_assignment :: "slice \<Rightarrow> slice \<Rightarrow> assignment_cache option \<Rightarrow> (nat option list \<times> assignment_cache option) option" where
  "get_assignment tgt src cache =
     (case cache of
        None \<Rightarrow> map_option (\<lambda>asg. (asg, None)) (compute_assignment tgt src)
      | Some ch \<Rightarrow>
          (case checkMatchAndGetResult tgt src ch of
             (Some asg, ch') \<Rightarrow> Some (asg, Some ch')
           | (None, ch') \<Rightarrow> map_option (\<lambda>asg. (asg, Some (cache_store tgt src asg ch'))) (compute_assignment tgt src)))"

definition permute_slice :: "(nat \<Rightarrow> nat) \<Rightarrow> slice \<Rightarrow> slice" where
  "permute_slice f s = s\<lparr>parts := map (\<lambda>k. parts s ! f k) [0..< slice_size s]\<rparr>"

fun optimize_slices :: "slice list \<Rightarrow> slice list \<Rightarrow> assignment_cache option \<Rightarrow> (slice list \<times> assignment_cache option) option" where
  "optimize_slices avail [] cache = Some ([], cache)"
| "optimize_slices avail (t # ts) cache =
     (case find_slice avail (slice_type t) of
        Some src \<Rightarrow>
          if slice_size t \<le> 1 \<or> isSkippable t
          then map_option (\<lambda>(ts', ch). (t # ts', ch)) (optimize_slices avail ts cache)
          else (case get_assignment t src cache of
                  None \<Rightarrow> None
                | Some (asg, cache') \<Rightarrow>
                    map_option (\<lambda>(ts', ch). (permute_slice (\<lambda>k. the (asg ! k)) t # ts', ch)) (optimize_slices avail ts cache'))
      | None \<Rightarrow> map_option (\<lambda>(ts', ch). (t # ts', ch)) (optimize_slices avail ts cache))"

definition optimize :: "bool \<Rightarrow> assignment_cache option \<Rightarrow> calculator \<Rightarrow> (calculator \<times> assignment_cache option) option" where
  "optimize useOptimizer cache c =
     map_option (\<lambda>(ts, ch). (evalRedundancyLevel (evalOperationCount (c\<lparr>target := ts\<rparr>)), ch))
       (if useOptimizer then optimize_slices (available c) (target c) cache else Some (target c, cache))"

section \<open>The cache does not change results\<close>

definition cache_ok :: "assignment_cache \<Rightarrow> bool" where
  "cache_ok cache \<longleftrightarrow> (\<forall>h e. map_of cache h = Some e \<longrightarrow>
     e = new_entry \<or> compute_assignment (entry_target e) (entry_source e) = Some (entry_assignment e))"

text \<open>How many operations an arrangement of the parts needs; making a copy weighs more than any number of
  removals.\<close>

definition op_weight :: "slice \<Rightarrow> slice \<Rightarrow> int" where
  "op_weight src tgt = (\<Sum>k< slice_size tgt. 1280 * int (fst (operationCount (parts src ! k) (parts tgt ! k)))
     + int (snd (operationCount (parts src ! k) (parts tgt ! k))))"

lemma partsMatch_iff: "partsMatch p q \<longleftrightarrow> p = q"
  by (auto simp: partsMatch_def list.rel_eq)

lemma entry_match_same:
  assumes "entry_match tgt src e = Some asg"
  shows "entry_target e = tgt" "entry_source e = src" "entry_assignment e = asg"
proof -
  have "partsMatch = (=)" by (auto simp: partsMatch_iff fun_eq_iff)
  then show "entry_target e = tgt" "entry_source e = src" "entry_assignment e = asg"
    using assms by (auto simp: entry_match_def list.rel_eq split: if_splits)
qed

lemma cache_ok_update: "cache_ok cache \<Longrightarrow> e = new_entry \<or> compute_assignment (entry_target e) (entry_source e) = Some (entry_assignment e)
  \<Longrightarrow> cache_ok (AList.update h e cache)"
  by (auto simp: cache_ok_def AList.update_conv)

lemma get_assignment_cached:
  assumes "cache_ok cache" "1 < slice_size tgt" "compute_assignment tgt src = Some asg"
  shows "\<exists>cache'. get_assignment tgt src (Some cache) = Some (asg, Some cache') \<and> cache_ok cache'"
proof -
  let ?h = "hashSlicePair tgt src"
  let ?e = "cache_entry_at ?h cache"
  have e: "?e = new_entry \<or> compute_assignment (entry_target ?e) (entry_source ?e) = Some (entry_assignment ?e)"
    using assms(1) by (auto simp: cache_entry_at_def cache_ok_def split: option.splits)
  have ok: "cache_ok (AList.update ?h ?e cache)" by (rule cache_ok_update [OF assms(1) e])
  show ?thesis
  proof (cases "entry_match tgt src ?e")
    case None
    have "cache_ok (cache_store tgt src asg (AList.update ?h ?e cache))"
      unfolding cache_store_def using assms(3) by (intro cache_ok_update [OF ok]) simp
    then show ?thesis using None assms(3) by (simp add: get_assignment_def checkMatchAndGetResult_def Let_def)
  next
    case (Some asg')
    note same = entry_match_same [OF Some]
    have "?e \<noteq> new_entry"
      using same(1) assms(2) by (auto simp: new_entry_def new_slice_def slice_size_def expectedParts_def kTypeParts_def kECFirst_def)
    then have "asg' = asg" using e same assms(3) by simp
    then show ?thesis using Some ok by (simp add: get_assignment_def checkMatchAndGetResult_def Let_def)
  qed
qed

section \<open>The arrangement needs the fewest operations\<close>

lemma operationCount_le:
  assumes "labels_ok src" "labels_ok dst"
  shows "fst (operationCount src dst) \<le> countLabels dst" "snd (operationCount src dst) \<le> countLabels src"
proof -
  have "lab_need src dst \<le> (\<Sum>l<kWildcard. copies dst l)" "(\<Sum>l<kWildcard. copies src l - copies dst l) \<le> (\<Sum>l<kWildcard. copies src l)"
    unfolding lab_need_def by (rule sum_mono; simp)+
  then show "fst (operationCount src dst) \<le> countLabels dst" "snd (operationCount src dst) \<le> countLabels src"
    using countLabels_below [OF assms(1)] countLabels_below [OF assms(2)] by (simp_all add: operationCount_eq [OF assms] lab_extra_def)
qed

definition op_pair :: "slice \<Rightarrow> slice \<Rightarrow> bool" where
  "op_pair src tgt \<longleftrightarrow> slice_ok src \<and> slice_ok tgt \<and> slice_type src = slice_type tgt \<and> slice_small src \<and> slice_small tgt"

lemma op_pairD:
  assumes "op_pair src tgt"
  shows "slice_size src = slice_size tgt" "length (parts src) = slice_size tgt" "length (parts tgt) = slice_size tgt"
    "1 \<le> slice_size tgt" "slice_size tgt \<le> 64"
    "i < slice_size tgt \<Longrightarrow> j < slice_size tgt \<Longrightarrow> fst (operationCount (parts src ! i) (parts tgt ! j)) \<le> 400
       \<and> snd (operationCount (parts src ! i) (parts tgt ! j)) \<le> 400"
proof -
  have ok: "slice_ok src" "slice_ok tgt" "slice_small src" "slice_small tgt" and t: "slice_type src = slice_type tgt"
    using assms by (simp_all add: op_pair_def)
  show s: "slice_size src = slice_size tgt" using t by (simp add: slice_size_def)
  show l: "length (parts src) = slice_size tgt" "length (parts tgt) = slice_size tgt"
    "1 \<le> slice_size tgt" "slice_size tgt \<le> 64"
    using slice_okD [OF ok(1)] slice_okD [OF ok(2)] s by simp_all
  show "fst (operationCount (parts src ! i) (parts tgt ! j)) \<le> 400 \<and> snd (operationCount (parts src ! i) (parts tgt ! j)) \<le> 400"
    if i: "i < slice_size tgt" "j < slice_size tgt"
  proof -
    have "labels_ok (parts src ! i)" "labels_ok (parts tgt ! j)" using slice_okD(4) ok i s by auto
    note le = operationCount_le [OF this]
    have "countLabels (parts src ! i) \<le> 400" "countLabels (parts tgt ! j) \<le> 400"
      using ok(3,4) i l by (auto simp: slice_small_def list_all_length)
    then show ?thesis using le by simp
  qed
qed

lemma op_cost_nth:
  assumes "op_pair src tgt" "i < slice_size tgt" "j < slice_size tgt"
  shows "op_cost src tgt ! i ! j = 1638400 - (1280 * int (fst (operationCount (parts src ! i) (parts tgt ! j)))
    + int (snd (operationCount (parts src ! i) (parts tgt ! j))))"
proof -
  have "fst (operationCount (parts src ! i) (parts tgt ! j)) \<le> 400 \<and> snd (operationCount (parts src ! i) (parts tgt ! j)) \<le> 400"
    by (rule op_pairD(6) [OF assms])
  then show ?thesis using op_pairD(2,3) [OF assms(1)] assms(2,3) by (simp add: op_cost_def)
qed

lemma op_cost_input:
  assumes "op_pair src tgt"
  shows "optimizer_input (op_cost src tgt) (slice_size tgt)"
proof -
  let ?n = "slice_size tgt"
  note d = op_pairD [OF assms]
  have rows: "length (op_cost src tgt) = ?n" "\<forall>row\<in>set (op_cost src tgt). length row = ?n" using d(2,3) by (auto simp: op_cost_def)
  have b: "1125600 \<le> op_cost src tgt ! i ! j \<and> op_cost src tgt ! i ! j \<le> 1638400" if "i < ?n" "j < ?n" for i j
    using op_cost_nth [OF assms that] d(6) [OF that] by linarith
  have b': "1125600 \<le> x \<and> x \<le> 1638400" if x: "row \<in> set (op_cost src tgt)" "x \<in> set row" for row x
  proof -
    obtain i where i: "i < ?n" "row = op_cost src tgt ! i" using x(1) rows(1) by (auto simp: in_set_conv_nth)
    obtain j where "j < ?n" "x = row ! j" using x rows(2) by (auto simp: in_set_conv_nth)
    then show ?thesis using b [OF i(1)] i(2) by simp
  qed
  have m: "x * (int ?n + 1) \<le> B * 65" if "x \<le> B" "0 \<le> B" for x B
    using that d(5) by (intro mult_mono) auto
  have "0 \<le> x \<and> x * (int ?n + 1) \<le> 110000000 \<and> (\<forall>y\<in>set row. (x - y) * (int ?n + 1) \<le> 40000000)"
    if x: "row \<in> set (op_cost src tgt)" "x \<in> set row" for row x
  proof (intro conjI ballI)
    show "0 \<le> x" "x * (int ?n + 1) \<le> 110000000" using b' [OF x] m [of x 1638400] by simp_all
    show "(x - y) * (int ?n + 1) \<le> 40000000" if y: "y \<in> set row" for y
      using b' [OF x] b' [OF x(1) y] m [of "x - y" 512800] by simp
  qed
  then show ?thesis using rows by (simp add: optimizer_input_def)
qed

text \<open>The arrangements of the parts of a target, and the one that needs the fewest operations.\<close>

definition best_arrangement :: "slice list \<Rightarrow> slice \<Rightarrow> slice \<Rightarrow> bool" where
  "best_arrangement avail t t' \<longleftrightarrow>
     (\<exists>f. bij_betw f {..< slice_size t} {..< slice_size t} \<and> t' = permute_slice f t)
     \<and> (\<forall>src g. find_slice avail (slice_type t) = Some src \<and> bij_betw g {..< slice_size t} {..< slice_size t} \<longrightarrow>
          op_weight src t' \<le> op_weight src (permute_slice g t))"

lemma permute_id: "length (parts t) = slice_size t \<Longrightarrow> permute_slice (\<lambda>k. k) t = t"
  using map_nth [of "parts t"] by (simp add: permute_slice_def)

lemma permute_weight:
  "op_weight src (permute_slice f t) = (\<Sum>i< slice_size t. 1280 * int (fst (operationCount (parts src ! i) (parts t ! f i)))
     + int (snd (operationCount (parts src ! i) (parts t ! f i))))"
  by (simp add: op_weight_def permute_slice_def slice_size_def)

lemma compute_assignment_best:
  assumes "op_pair src t" "find_slice avail (slice_type t) = Some src"
  shows "\<exists>asg. compute_assignment t src = Some asg \<and> best_arrangement avail t (permute_slice (\<lambda>k. the (asg ! k)) t)"
  using auctioneer.least_cost [OF op_cost_input [OF assms(1)] op_pairD(4,5) [OF assms(1)] op_cost_nth [OF assms(1)], of None] assms(2)
  by (auto simp: compute_assignment_def best_arrangement_def permute_weight)

text \<open>A target that is left as it is cannot be arranged better.\<close>

lemma unchanged_best:
  assumes "slice_ok t" "find_slice avail (slice_type t) = None \<or> slice_size t \<le> 1 \<or> isSkippable t"
  shows "best_arrangement avail t t"
proof -
  have len: "length (parts t) = slice_size t" "1 \<le> slice_size t" using slice_okD [OF assms(1)] by simp_all
  have "permute_slice g t = t"
    if g: "bij_betw g {..< slice_size t} {..< slice_size t}" and s: "find_slice avail (slice_type t) \<noteq> None" for g
  proof -
    have gi: "i < slice_size t \<Longrightarrow> g i < slice_size t" for i using bij_betwE [OF g] by simp
    have same: "parts t ! i = parts t ! 0" if "i < slice_size t" for i
    proof (cases "i = 0")
      case False
      then have "isSkippable t" "i \<in> set [1..< slice_size t]" using assms(2) s that by auto
      then have "parts t ! 0 = parts t ! i" unfolding isSkippable_def partsMatch_iff list_all_iff by blast
      then show ?thesis by simp
    qed simp
    have "map (\<lambda>k. parts t ! g k) [0..< slice_size t] = map (\<lambda>k. parts t ! k) [0..< slice_size t]"
    proof (rule map_cong [OF refl])
      fix k
      assume "k \<in> set [0..< slice_size t]"
      then show "parts t ! g k = parts t ! k" using same [of k] same [OF gi, of k] by simp
    qed
    also have "\<dots> = parts t" using map_nth [of "parts t"] len(1) by simp
    finally show ?thesis by (simp add: permute_slice_def)
  qed
  moreover have "\<exists>f. bij_betw f {..< slice_size t} {..< slice_size t} \<and> t = permute_slice f t"
    using permute_id [OF len(1)] bij_betw_id [of "{..< slice_size t}"] by (intro exI [of _ "\<lambda>k. k"]) (simp add: id_def)
  ultimately show ?thesis by (auto simp: best_arrangement_def)
qed

definition plan_input :: "slice list \<Rightarrow> slice list \<Rightarrow> bool" where
  "plan_input avail tgt \<longleftrightarrow> list_all (\<lambda>s. slice_ok s \<and> slice_small s) avail \<and> list_all (\<lambda>s. slice_ok s \<and> slice_small s) tgt"

lemma optimize_slices_best:
  assumes "plan_input avail ts" "cache_ok cache"
  shows "\<exists>ts' cache'. optimize_slices avail ts (Some cache) = Some (ts', Some cache') \<and> cache_ok cache'
    \<and> optimize_slices avail ts None = Some (ts', None) \<and> list_all2 (best_arrangement avail) ts ts'"
  using assms
proof (induction ts arbitrary: cache)
  case (Cons t ts)
  have t: "slice_ok t" "slice_small t" "plan_input avail ts" using Cons.prems(1) by (simp_all add: plan_input_def)
  show ?case
  proof (cases "find_slice avail (slice_type t) = None \<or> slice_size t \<le> 1 \<or> isSkippable t")
    case True
    obtain ts' cache' where "optimize_slices avail ts (Some cache) = Some (ts', Some cache')" "cache_ok cache'"
      "optimize_slices avail ts None = Some (ts', None)" "list_all2 (best_arrangement avail) ts ts'"
      using Cons.IH [OF t(3) Cons.prems(2)] by blast
    then show ?thesis using True unchanged_best [OF t(1) True] by (auto split: option.split)
  next
    case False
    then obtain src where src: "find_slice avail (slice_type t) = Some src" by auto
    have "slice_type src = slice_type t" "src \<in> set avail" using find_slice_type [OF src] by auto
    then have p: "op_pair src t" using t Cons.prems(1) by (auto simp: op_pair_def plan_input_def list_all_iff)
    obtain asg where asg: "compute_assignment t src = Some asg" "best_arrangement avail t (permute_slice (\<lambda>k. the (asg ! k)) t)"
      using compute_assignment_best [OF p src] by blast
    have n: "1 < slice_size t" using False by simp
    obtain c1 where c1: "get_assignment t src (Some cache) = Some (asg, Some c1)" "cache_ok c1"
      using get_assignment_cached [OF Cons.prems(2) n asg(1)] by blast
    have c0: "get_assignment t src None = Some (asg, None)" using asg(1) by (simp add: get_assignment_def)
    obtain ts' cache' where "optimize_slices avail ts (Some c1) = Some (ts', Some cache')" "cache_ok cache'"
      "optimize_slices avail ts None = Some (ts', None)" "list_all2 (best_arrangement avail) ts ts'"
      using Cons.IH [OF t(3) c1(2)] by blast
    then show ?thesis using False src c0 c1(1) asg(2) by simp
  qed
qed simp

lemma eval_keeps_plan:
  "target (evalRedundancyLevel (evalOperationCount c)) = target c" "available (evalRedundancyLevel (evalOperationCount c)) = available c"
proof -
  have "target (count_targets avail ss c) = target c \<and> available (count_targets avail ss c) = available c" for avail ss c
    by (induction avail ss c rule: count_targets.induct) (simp_all add: Let_def)
  moreover have "target (count_surplus tgt ss c) = target c \<and> available (count_surplus tgt ss c) = available c" for tgt ss c
    by (induction tgt ss c rule: count_surplus.induct) (simp_all add: Let_def)
  ultimately show "target (evalRedundancyLevel (evalOperationCount c)) = target c"
    "available (evalRedundancyLevel (evalOperationCount c)) = available c"
    by (simp_all add: evalRedundancyLevel_def evalOperationCount_def)
qed

text \<open>
  C4: Optimizing the target of a calculator returns, if no part has more than 400 copies (goals are
  limited to 128). It only rearranges the parts of each slice of the
  target, and among all arrangements of a slice that is available the chosen one needs the fewest
  operations, counting copies to make before copies to remove. A cache whose entries were stored by
  earlier optimizations does not change the result and stays such a cache.
\<close>

theorem optimize_plan:
  assumes "plan_input (available c) (target c)" "cache_ok cache"
  shows "\<exists>c' cache'. optimize True (Some cache) c = Some (c', Some cache') \<and> cache_ok cache'
    \<and> optimize True None c = Some (c', None) \<and> available c' = available c
    \<and> list_all2 (\<lambda>t t'. (\<exists>f. bij_betw f {..< slice_size t} {..< slice_size t} \<and> t' = permute_slice f t)
         \<and> (\<forall>src g. find_slice (available c) (slice_type t) = Some src \<and> bij_betw g {..< slice_size t} {..< slice_size t} \<longrightarrow>
              op_weight src t' \<le> op_weight src (permute_slice g t)))
       (target c) (target c')"
proof -
  obtain ts cache' where "optimize_slices (available c) (target c) (Some cache) = Some (ts, Some cache')" "cache_ok cache'"
    "optimize_slices (available c) (target c) None = Some (ts, None)" "list_all2 (best_arrangement (available c)) (target c) ts"
    using optimize_slices_best [OF assms] by blast
  then show ?thesis unfolding best_arrangement_def by (simp add: optimize_def eval_keeps_plan)
qed

text \<open>The parts of a target of type \<^verbatim>\<open>xor2\<close> are available on other labels.\<close>

definition swapped :: calculator where
  "swapped = (new_calculator [\<lparr>slice_type = 2, parts = [[(1, 1)], [(2, 1)], [(3, 1)]]\<rparr>])
     \<lparr>available := [\<lparr>slice_type = 2, parts = [[(2, 1)], [(1, 1)], [(3, 1)]]\<rparr>]\<rparr>"

theorem optimize_plan_witness:
  "plan_input (available swapped) (target swapped) \<and> cache_ok []
    \<and> (\<exists>c' cache'. optimize True (Some []) swapped = Some (c', Some cache') \<and> cache_ok cache'
      \<and> optimize True None swapped = Some (c', None))"
proof -
  have "expectedParts 2 = 3" by (simp add: expectedParts_def kTypeParts_def kECFirst_def)
  then have p: "plan_input (available swapped) (target swapped)"
    by (simp add: swapped_def new_calculator_def plan_input_def slice_ok_def slice_small_def slice_size_def type_valid_def
        type_consts kWildcard_def)
  have c: "cache_ok []" by (simp add: cache_ok_def)
  show ?thesis using p c optimize_plan [OF p c] by blast
qed

end
