(* ===== verification/Spec2Isabelle.thy ===== *)
theory Spec2Isabelle
  imports LockReplay URaftController Quotas TargetPlan
begin

text \<open>
  \<^bold>\<open>SaunaFS: a verification of decisions of the metadata server.\<close>

  SaunaFS is a distributed file system. A master server keeps the metadata, shadow servers replay its
  changelog, chunkservers store the parts of chunks, and uRaft elects the server that is master. The
  development models the parts of this system in which the correctness of a decision, and not input
  and output, is the difficulty: file locks, leader election, quotas, and the placement of the copies of
  chunks. Source files are named below as they are under \<^verbatim>\<open>src/src/\<close>.

  \<^bold>\<open>Conventions.\<close> A structure of the code is a record, an enumeration a datatype, a member function a
  function from the state to the new state. A failed assertion, an invalid iterator range and an index
  out of range are the value \<^const>\<open>None\<close>, and so is a loop that does not end: such loops are partial
  functions with a proof that they end, and no fuel is used anywhere. Hash tables are maps or association
  lists; where the order of iteration could matter it is an argument. Integers are natural numbers or
  integers where they are only compared or where bounds are proved, and keep their width where the
  code can wrap around: the range of a lock request, the silence of a node, quota values and hashes,
  packed part types, copies of a part. What the environment decides (the answers of scripts, the order
  and loss of packets, the moment a timer fires) is an argument of a step.

  \<^bold>\<open>Locks\<close> (\<^verbatim>\<open>master/locks.h\<close>, \<^verbatim>\<open>master/locks.cc\<close>). Theory \<^verbatim>\<open>LockRanges\<close>: the sorted set of byte
  ranges of one inode, \<^verbatim>\<open>insert\<close>, \<^verbatim>\<open>fits\<close> and \<^verbatim>\<open>findCollision\<close>. The insertion refines an abstract table from
  bytes and owners to lock types, the search in a window finds what a search of the whole set finds,
  and a request fits exactly when the lock rule admits it. These laws are the locale \<^verbatim>\<open>lock_store\<close>,
  interpreted on the operations, from which the exclusion of conflicting owners follows. Theory
  \<^verbatim>\<open>FileLocks\<close>: granted and waiting locks of all inodes, listing, storing and loading. Theory \<^verbatim>\<open>LockOps\<close>:
  the operations of \<^verbatim>\<open>filesystem_operations.cc\<close>, the handlers of \<^verbatim>\<open>matoclserv.cc\<close> and the replay of
  \<^verbatim>\<open>restore.cc\<close> on the state of both lock tables, the version and the changelog; the states reachable by
  any sequence of requests, in which exclusive locks exclude and no handler fails an assertion
  or passes reversed iterators, but for an administrator's unlock of a reversed range, which can; and the granting of waiting requests, which says exactly which of them are tried again, as a refinement of an abstract
  rule. Theory \<^verbatim>\<open>LockReplay\<close>: what the master appends to its changelog while it handles requests that are
  granted or wait, session releases and unlocks takes a replica to the same locks; and four executions
  in which a replica diverges or stops, or in which waiting clients are woken wrongly or forgotten.

  \<^bold>\<open>Leader election\<close> (\<^verbatim>\<open>uraft/uraft.cc\<close>, \<^verbatim>\<open>uraft/uraftcontroller.cc\<close>). Theory \<^verbatim>\<open>URaft\<close>: every handler of a
  node and a cluster of nodes on a network that delays, loses, duplicates and reorders packets. At
  most one node leads a term; majorities intersect by the locale \<^verbatim>\<open>quorum_system\<close>. A president without
  answers steps down; a delayed heartbeat fails an assertion of a newer leader, and a node that was
  silent for long counts as loyal. Theory \<^verbatim>\<open>URaftController\<close>: the state machine that promotes and demotes
  the metadata server, composed with the handlers of uRaft. Clusters of controllers refine clusters of
  nodes as long as no follower finds its server dead; without that condition two presidents of one
  term are reachable.

  \<^bold>\<open>Quotas\<close> (\<^verbatim>\<open>common/quota_database.cc\<close>, \<^verbatim>\<open>master/filesystem_quota.cc\<close>). Theory \<^verbatim>\<open>NodeTree\<close>: nodes with their
  parents and the walks to the root, which end on well-formed trees. Theory \<^verbatim>\<open>QuotaDB\<close>: the database and
  its checksum on words. Theory \<^verbatim>\<open>Quotas\<close>: the check of a change refuses it exactly when some owner or
  directory above would exceed its limit, the check of a move looks at the directories above the new
  place only, admitted changes stay within the limits, and the replay of logged requests reproduces the
  database.

  \<^bold>\<open>Placement of copies\<close>. Theory \<^verbatim>\<open>SliceTypes\<close> (\<^verbatim>\<open>common/slice_traits.h\<close>, \<^verbatim>\<open>common/chunk_part_type.h\<close>): how a
  chunk is divided into data and parity parts; the lengths of the parts make up the chunk, and packed
  part types unpack to what was packed. Theory \<^verbatim>\<open>Auction\<close> (\<^verbatim>\<open>common/linear_assignment_optimizer.h\<close>): the
  auction algorithm ends and finds an optimal assignment. The proof of termination uses that prices
  rise with each bid and are bounded while an object is free; the bounds also show that no integer
  overflows for scaled values below 110 million that differ by at most 40 million for one person,
  which holds for parts with up to 400 copies, while goals ask for at most 128. The contract of the
  optimizer is the locale \<^verbatim>\<open>assignment_solver\<close>. Theory \<^verbatim>\<open>Goals\<close> (\<^verbatim>\<open>common/goal.cc\<close>): labels, slices and goals;
  merged slices are met exactly by the copies that meet both. Theory \<^verbatim>\<open>CopiesCalculator\<close>
  (\<^verbatim>\<open>common/chunk_copies_calculator.cc\<close>): the labels to recover are enough and as few as possible, copies
  from the remove pool are surplus, and an allowed removal keeps the chunk safe. Theory \<^verbatim>\<open>TargetPlan\<close>
  (\<^verbatim>\<open>optimize\<close> and \<^verbatim>\<open>common/linear_assignment_cache.h\<close>): the arrangement of the target needs the fewest
  operations, with and without the cache.

  Theory \<^verbatim>\<open>Prelude\<close> holds what the components share: binary searches as partition points, merging and
  removal of duplicates, insertion and erasure at an iterator, and the collections of simplification
  rules.

  \<^bold>\<open>How the parts interact.\<close> Lock and quota operations write the changelog that \<^verbatim>\<open>LockReplay\<close> and \<^verbatim>\<open>Quotas\<close>
  replay. The controller calls the handlers of uRaft and reacts to their notifications. The calculator
  and the merging of goals call the optimizer; the calculator takes its goals from the merging.

  \<^bold>\<open>Not modelled.\<close> Sockets, threads, disks and files: the chunkserver, the mount client, the NFS layer,
  packet encodings, metadata images and the key-value back ends. The loop over chunks in
  \<^verbatim>\<open>master/chunks.cc\<close>, whose decisions about copies are those of the calculator but whose choice of servers
  depends on random numbers and the state of connections. Directory entries, attributes, access control,
  trash and snapshots. The arithmetic of erasure codes, which is in external libraries. Of the modelled
  parts: the text of changelog lines (a line is the list of its fields), the bytes of stored lock records,
  restarts of uRaft nodes, the helper scripts of the controller, and the printing of names.
\<close>

end
